(* ===== verification/Prelude.thy ===== *)
theory Prelude
  imports Main "HOL-Library.Word" "HOL-Library.Signed_Division"
begin

section \<open>Shared types, automation and lemmas\<close>

text \<open>
  What the component theories share: the integer conventions of the C code
  (remainder truncated towards zero, \<^verbatim>\<open>signed char\<close> narrowing), the letters
  the programs print, labelled transition systems with their reachable states and
  the invariant principle as a locale, and list lemmas on prefixes and updates.
\<close>

named_theorems sem_simps \<open>evaluation of semaphore operations\<close>
named_theorems inv_defs \<open>definitions of component invariants\<close>
named_theorems model_defs \<open>constants of the C sources, to be unfolded\<close>


subsection \<open>C integers\<close>

text \<open>
  \<^verbatim>\<open>%\<close> of C truncates towards zero; on non-negative operands it is
  \<^term>\<open>(mod)\<close>.
\<close>

definition c_rem :: "int \<Rightarrow> int \<Rightarrow> int" where
  "c_rem a b = a smod b"

lemma c_rem_nonneg: "0 \<le> a \<Longrightarrow> 0 < b \<Longrightarrow> c_rem a b = a mod b"
  by (simp add: c_rem_def signed_modulo_int_def sgn_if)

text \<open>
  Storing an \<^verbatim>\<open>int\<close> into a \<^verbatim>\<open>char\<close> on a target where
  \<^verbatim>\<open>char\<close> is signed and has eight bits: reduction modulo 256 into
  the range from -128 to 127.
\<close>

definition to_schar :: "int \<Rightarrow> int" where
  "to_schar x = (x + 128) mod 256 - 128"

lemma to_schar_id: "- 128 \<le> x \<Longrightarrow> x < 128 \<Longrightarrow> to_schar x = x"
  by (simp add: to_schar_def)

lemma to_schar_range: "- 128 \<le> to_schar x \<and> to_schar x < 128"
proof -
  have "0 \<le> (x + 128) mod 256" "(x + 128) mod 256 < 256" by simp_all
  then show ?thesis unfolding to_schar_def by linarith
qed

text \<open>The range of a 32-bit \<^verbatim>\<open>int\<close>; outside it signed arithmetic is undefined.\<close>

definition INT_MAX :: int where "INT_MAX = 2147483647"

definition INT_MIN :: int where "INT_MIN = - 2147483648"

definition is_c_int :: "int \<Rightarrow> bool" where
  "is_c_int x \<longleftrightarrow> INT_MIN \<le> x \<and> x \<le> INT_MAX"

text \<open>The letters \<^verbatim>\<open>'a' + k % 26\<close> that most of the programs exchange.\<close>

definition letter :: "nat \<Rightarrow> int" where
  "letter k = 97 + int (k mod 26)"

lemma letter_lower: "97 \<le> letter k \<and> letter k \<le> 122"
proof -
  have "k mod 26 < 26" by simp
  then show ?thesis unfolding letter_def by linarith
qed


subsection \<open>Labelled transition systems\<close>

text \<open>
  A component with interleaved actors is a step function from a state and an event to
  the next state, \<^term>\<open>None\<close> where the event is not enabled (a blocked
  process, a finished thread). A schedule is a list of events.
\<close>

inductive reach :: "('s \<Rightarrow> 'e \<Rightarrow> 's option) \<Rightarrow> 's \<Rightarrow> 's \<Rightarrow> bool"
  for exec :: "'s \<Rightarrow> 'e \<Rightarrow> 's option" and s0 :: 's where
  reach_init: "reach exec s0 s0"
| reach_step: "reach exec s0 s \<Longrightarrow> exec s e = Some t \<Longrightarrow> reach exec s0 t"

fun run :: "('s \<Rightarrow> 'e \<Rightarrow> 's option) \<Rightarrow> 's \<Rightarrow> 'e list \<Rightarrow> 's option" where
  "run exec s [] = Some s"
| "run exec s (e # es) = (case exec s e of None \<Rightarrow> None | Some t \<Rightarrow> run exec t es)"

lemma run_append:
  "run exec s (xs @ ys) = (case run exec s xs of None \<Rightarrow> None | Some t \<Rightarrow> run exec t ys)"
  by (induction xs arbitrary: s) (auto split: option.splits)

lemma run_reach: "reach exec s0 s \<Longrightarrow> run exec s es = Some t \<Longrightarrow> reach exec s0 t"
  by (induction es arbitrary: s) (auto split: option.splits intro: reach_step)

lemma reach_run: "reach exec s0 s \<Longrightarrow> \<exists>es. run exec s0 es = Some s"
proof (induction rule: reach.induct)
  case reach_init
  have "run exec s0 [] = Some s0" by simp
  then show ?case by blast
next
  case (reach_step s e t)
  then obtain es where "run exec s0 es = Some s" by blast
  with reach_step.hyps have "run exec s0 (es @ [e]) = Some t" by (simp add: run_append)
  then show ?case by blast
qed

lemma run_chain: "run exec s xs = Some t \<Longrightarrow> run exec t ys = Some u \<Longrightarrow> run exec s (xs @ ys) = Some u"
  by (simp add: run_append)

lemma run_one: "exec s e = Some t \<Longrightarrow> run exec t es = Some u \<Longrightarrow> run exec s (e # es) = Some u"
  by simp

lemmas run_reach_init = run_reach [OF reach_init]

lemma reach_trans: "reach exec s t \<Longrightarrow> reach exec s0 s \<Longrightarrow> reach exec s0 t"
  by (induction rule: reach.induct) (auto intro: reach_step)

text \<open>
  The invariant principle: a predicate of the start state that every step keeps holds
  in every reachable state and at the end of every schedule.
\<close>

locale invariant_system =
  fixes exec :: "'s \<Rightarrow> 'e \<Rightarrow> 's option"
    and s0 :: 's
    and inv :: "'s \<Rightarrow> bool"
  assumes inv_start: "inv s0"
    and inv_exec: "inv s \<Longrightarrow> exec s e = Some t \<Longrightarrow> inv t"
begin

lemma reach_inv: "reach exec s0 s \<Longrightarrow> inv s"
  by (induction rule: reach.induct) (auto intro: inv_start inv_exec)

lemma run_inv_from: "inv s \<Longrightarrow> run exec s es = Some t \<Longrightarrow> inv t"
  by (induction es arbitrary: s) (auto split: option.splits intro: inv_exec)

lemma run_inv: "run exec s0 es = Some t \<Longrightarrow> inv t"
  by (rule run_inv_from [OF inv_start])

end

text \<open>
  A simulation of one system by another: every step of the concrete system is either
  invisible or one step of the abstract one. The concrete invariant is available.
\<close>

locale simulation = invariant_system exec s0 inv
  for exec :: "'s \<Rightarrow> 'e \<Rightarrow> 's option" and s0 :: 's and inv :: "'s \<Rightarrow> bool" +
  fixes aexec :: "'a \<Rightarrow> 'f \<Rightarrow> 'a option"
    and a0 :: 'a
    and abst :: "'s \<Rightarrow> 'a"
  assumes abst_start: "abst s0 = a0"
    and abst_step: "inv s \<Longrightarrow> exec s e = Some t \<Longrightarrow>
      abst t = abst s \<or> (\<exists>f. aexec (abst s) f = Some (abst t))"
begin

lemma reach_abst: "reach exec s0 s \<Longrightarrow> reach aexec a0 (abst s)"
proof (induction rule: reach.induct)
  case reach_init
  show ?case by (simp add: abst_start reach.reach_init)
next
  case (reach_step s e t)
  from abst_step [OF reach_inv [OF reach_step.hyps(1)] reach_step.hyps(2)]
  show ?case using reach_step.IH by (auto intro: reach.reach_step)
qed

end


subsection \<open>Lists\<close>

lemma take_Suc_snoc: "n < length xs \<Longrightarrow> take (Suc n) xs = take n xs @ [xs ! n]"
  by (simp add: take_Suc_conv_app_nth)

lemma map_nth_upt_take: "n \<le> length xs \<Longrightarrow> map (\<lambda>i. xs ! i) [0..<n] = take n xs"
  by (simp add: list_eq_iff_nth_eq)

lemma drop_snoc: "n \<le> length xs \<Longrightarrow> drop n (xs @ [x]) = drop n xs @ [x]"
  by simp

lemma int_card_pred: "finite A \<Longrightarrow> x \<in> A \<Longrightarrow> int (card A - Suc 0) = int (card A) - 1"
  by (cases "card A") auto

lemma all_nth_update:
  "(\<forall>x \<in> set xs. P x) \<Longrightarrow> P y \<Longrightarrow> \<forall>x \<in> set (xs[i := y]). P x"
  using set_update_subset_insert [of xs i y] by blast



subsection \<open>Children and their exit reports\<close>

text \<open>
  What \<^verbatim>\<open>wait\<close> stores in its status word, read by the WIF macros in the order the programs
  ask: exited, killed by a signal, stopped. The parents print one line for each child.
\<close>

datatype wstatus = WExited int | WSignaled int | WStopped int | WOther

datatype report = ExitedWith int int | KilledBy int int | StoppedBy int int

fun wait_report :: "int \<Rightarrow> wstatus \<Rightarrow> report list" where
  "wait_report w (WExited c) = [ExitedWith w c]"
| "wait_report w (WSignaled n) = [KilledBy w n]"
| "wait_report w (WStopped n) = [StoppedBy w n]"
| "wait_report w WOther = []"

text \<open>
  The loop \<^verbatim>\<open>for (i = 0; i < n; ++i)\<close> over calls of \<^verbatim>\<open>wait\<close> whose answers are given: it
  stops at the first -1 (\<^term>\<open>None\<close>). The result says whether all calls succeeded, and what
  was printed.
\<close>

fun wait_loop :: "nat \<Rightarrow> (int \<times> wstatus) option list \<Rightarrow> bool \<times> report list" where
  "wait_loop 0 ws = (True, [])"
| "wait_loop (Suc n) [] = (False, [])"
| "wait_loop (Suc n) (None # ws) = (False, [])"
| "wait_loop (Suc n) (Some (w, st) # ws) =
     (let (ok, rs) = wait_loop n ws in (ok, wait_report w st @ rs))"

text \<open>
  A loop of \<open>n\<close> calls of \<^verbatim>\<open>fork\<close>, ended by the first failure: the number of
  children created and whether all were.
\<close>

fun fork_loop :: "nat \<Rightarrow> bool list \<Rightarrow> nat \<times> bool" where
  "fork_loop 0 fs = (0, True)"
| "fork_loop (Suc n) [] = (0, False)"
| "fork_loop (Suc n) (False # fs) = (0, False)"
| "fork_loop (Suc n) (True # fs) = (let (k, ok) = fork_loop n fs in (Suc k, ok))"

lemma fork_loop_bound: "fst (fork_loop n fs) \<le> n \<and> (snd (fork_loop n fs) \<longleftrightarrow> fst (fork_loop n fs) = n)"
  by (induction n fs rule: fork_loop.induct) (auto simp: Let_def split: prod.splits)

lemma wait_loop_reports: "length (snd (wait_loop n ws)) \<le> n"
proof (induction n ws rule: wait_loop.induct)
  case (4 n w st ws)
  have "length (wait_report w st) \<le> 1" by (cases st) simp_all
  with 4 show ?case by (auto simp: Let_def split: prod.splits)
qed simp_all

subsection \<open>Numbers in decimal\<close>

text \<open>A number in decimal, as the \<^verbatim>\<open>printf\<close> family writes it.\<close>

definition digit :: "nat \<Rightarrow> char" where
  "digit d = char_of (48 + d)"

fun decimal :: "nat \<Rightarrow> string" where
  "decimal n = (if n < 10 then [digit n] else decimal (n div 10) @ [digit (n mod 10)])"

declare decimal.simps [simp del]

end
