(* ===== verification/Sysv_Sem.thy ===== *)
theory Sysv_Sem
  imports Prelude
begin

section \<open>System V semaphore sets\<close>

text \<open>
  The semantics of \<^verbatim>\<open>semop\<close> and of \<^verbatim>\<open>semctl(.., SETVAL, ..)\<close> that the
  programs under lab-shmemory, lab-rpc/prodcons and lab-socket rely on. A set is the list of
  its values. A call performs the whole array in order or nothing at all: it
  completes (\<open>Done\<close>), puts the caller to sleep (\<open>Sleep\<close>: the call has no
  effect yet and will be tried again), or fails with an errno.
\<close>

record sembuf =
  sem_num :: nat
  sem_op :: int
  sem_flg :: nat

datatype errno = EFBIG | ERANGE | EAGAIN | EINVAL

datatype semresult = Done "int list" | Sleep | Fail errno

definition SEMVMX :: int where "SEMVMX = 32767"

definition IPC_NOWAIT :: nat where "IPC_NOWAIT = 2048"

abbreviation sb :: "nat \<Rightarrow> int \<Rightarrow> sembuf" where
  "sb n k \<equiv> \<lparr>sem_num = n, sem_op = k, sem_flg = 0\<rparr>"

definition would_wait :: "sembuf \<Rightarrow> semresult" where
  "would_wait b = (if odd (sem_flg b div IPC_NOWAIT) then Fail EAGAIN else Sleep)"

definition sem_try :: "sembuf \<Rightarrow> int list \<Rightarrow> semresult" where
  "sem_try b s =
     (let v = s ! sem_num b in
      if sem_op b = 0 then (if v = 0 then Done s else would_wait b)
      else if v + sem_op b < 0 then would_wait b
      else if v + sem_op b > SEMVMX then Fail ERANGE
      else Done (s[sem_num b := v + sem_op b]))"

fun sem_all :: "sembuf list \<Rightarrow> int list \<Rightarrow> semresult" where
  "sem_all [] s = Done s"
| "sem_all (b # bs) s =
     (case sem_try b s of Done s' \<Rightarrow> sem_all bs s' | Sleep \<Rightarrow> Sleep | Fail e \<Rightarrow> Fail e)"

definition semop :: "sembuf list \<Rightarrow> int list \<Rightarrow> semresult" where
  "semop bs s =
     (if bs = [] then Fail EINVAL
      else if list_ex (\<lambda>b. length s \<le> sem_num b) bs then Fail EFBIG
      else sem_all bs s)"

definition setval :: "nat \<Rightarrow> int \<Rightarrow> int list \<Rightarrow> errno + int list" where
  "setval i v s =
     (if length s \<le> i then Inl EINVAL
      else if v < 0 \<or> SEMVMX < v then Inl ERANGE
      else Inr (s[i := v]))"


subsection \<open>Evaluation rules\<close>

lemma would_wait_sb [simp, sem_simps]: "would_wait (sb n k) = Sleep"
  by (simp add: would_wait_def)

lemma sem_try_zero [sem_simps]: "sem_try (sb n 0) s = (if s ! n = 0 then Done s else Sleep)"
  by (simp add: sem_try_def)

lemma sem_try_V [sem_simps]:
  "sem_try (sb n 1) s =
     (if s ! n < - 1 then Sleep else if s ! n \<ge> SEMVMX then Fail ERANGE else Done (s[n := s ! n + 1]))"
  by (auto simp add: sem_try_def Let_def SEMVMX_def)

lemma sem_try_P [sem_simps]:
  "sem_try (sb n (- 1)) s =
     (if s ! n \<le> 0 then Sleep else if s ! n > SEMVMX + 1 then Fail ERANGE else Done (s[n := s ! n - 1]))"
  by (auto simp add: sem_try_def Let_def SEMVMX_def)


subsection \<open>Laws of \<open>semop\<close>\<close>

lemma sem_try_length: "sem_try b s = Done s' \<Longrightarrow> length s' = length s"
  by (auto simp: sem_try_def would_wait_def Let_def split: if_splits)

lemma sem_all_length: "sem_all bs s = Done s' \<Longrightarrow> length s' = length s"
  by (induction bs arbitrary: s) (auto split: semresult.splits dest: sem_try_length)

lemma semop_length: "semop bs s = Done s' \<Longrightarrow> length s' = length s"
  by (auto simp: semop_def sem_all_length split: if_splits)

definition sem_ok :: "int list \<Rightarrow> bool" where
  "sem_ok s \<longleftrightarrow> (\<forall>v \<in> set s. 0 \<le> v \<and> v \<le> SEMVMX)"

lemma sem_try_ok: "sem_ok s \<Longrightarrow> sem_try b s = Done s' \<Longrightarrow> sem_ok s'"
  by (auto simp: sem_ok_def sem_try_def would_wait_def Let_def split: if_splits
      dest!: set_update_subset_insert [THEN subsetD])

lemma sem_all_ok: "sem_ok s \<Longrightarrow> sem_all bs s = Done s' \<Longrightarrow> sem_ok s'"
  by (induction bs arbitrary: s) (auto split: semresult.splits intro: sem_try_ok)

lemma semop_ok: "sem_ok s \<Longrightarrow> semop bs s = Done s' \<Longrightarrow> sem_ok s'"
  by (auto simp: semop_def sem_all_ok split: if_splits)

text \<open>What a completed call adds to semaphore \<open>i\<close>: the sum of its operations on \<open>i\<close>.\<close>

fun net :: "sembuf list \<Rightarrow> nat \<Rightarrow> int" where
  "net [] i = 0"
| "net (b # bs) i = (if sem_num b = i then sem_op b else 0) + net bs i"

lemma sem_try_effect:
  "sem_try b s = Done s' \<Longrightarrow> sem_num b < length s \<Longrightarrow>
     s' ! i = s ! i + (if sem_num b = i then sem_op b else 0)"
  by (auto simp: sem_try_def would_wait_def Let_def nth_list_update split: if_splits)

lemma sem_all_effect:
  "sem_all bs s = Done s' \<Longrightarrow> \<forall>b \<in> set bs. sem_num b < length s \<Longrightarrow> s' ! i = s ! i + net bs i"
proof (induction bs arbitrary: s)
  case Nil
  then show ?case by simp
next
  case (Cons b bs)
  from Cons.prems(1) obtain s1 where s1: "sem_try b s = Done s1" and rest: "sem_all bs s1 = Done s'"
    by (auto split: semresult.splits)
  from Cons.prems(2) have "\<forall>b \<in> set bs. sem_num b < length s1"
    by (simp add: sem_try_length [OF s1])
  from Cons.IH [OF rest this] sem_try_effect [OF s1, of i] Cons.prems(2) show ?case
    by simp
qed

lemma semop_effect: "semop bs s = Done s' \<Longrightarrow> s' ! i = s ! i + net bs i"
  by (auto simp: semop_def list_ex_iff not_le split: if_splits intro!: sem_all_effect)

text \<open>
  A call whose first operation waits does not complete, whatever follows: the ground of
  every ``cannot start while'' property.
\<close>

lemma sem_all_append:
  "sem_all (xs @ ys) s =
     (case sem_all xs s of Done s' \<Rightarrow> sem_all ys s' | Sleep \<Rightarrow> Sleep | Fail e \<Rightarrow> Fail e)"
  by (induction xs arbitrary: s) (auto split: semresult.splits)

text \<open>
  A wait-for-zero at any position of the array forces the value at that moment, namely
  the start value plus what the operations before it have added.
\<close>

lemma sem_all_zero_guard:
  assumes "sem_all (xs @ b # ys) s = Done s'" and "sem_op b = 0"
    and "\<forall>c \<in> set (xs @ b # ys). sem_num c < length s"
  shows "s ! sem_num b + net xs (sem_num b) = 0"
proof -
  from assms(1) obtain s1 where s1: "sem_all xs s = Done s1" and rest: "sem_all (b # ys) s1 = Done s'"
    by (auto simp: sem_all_append split: semresult.splits)
  have "s1 ! sem_num b = s ! sem_num b + net xs (sem_num b)"
    using sem_all_effect [OF s1] assms(3) by simp
  moreover have "s1 ! sem_num b = 0"
    using rest assms(2) by (auto simp: sem_try_def would_wait_def Let_def split: semresult.splits if_splits)
  ultimately show ?thesis by simp
qed

lemma semop_zero_guard:
  assumes "semop (xs @ b # ys) s = Done s'" and "sem_op b = 0"
  shows "s ! sem_num b + net xs (sem_num b) = 0"
  using assms by (intro sem_all_zero_guard [of xs b ys s s'])
    (auto simp: semop_def list_ex_iff not_le split: if_splits)


subsection \<open>What a \<^verbatim>\<open>main\<close> leaves behind\<close>

text \<open>
  The outcome of a parent process: its exit status, the number of children it created, the IPC
  objects that stay in the kernel after it, and what it printed about its children.
\<close>

datatype ipc_object = SharedMemory | SemaphoreSet

record main_result =
  exit_status :: int
  children :: nat
  left_behind :: "ipc_object list"
  reports :: "report list"

end
