(* ===== verification/Fifo_Spec.thy ===== *)
theory Fifo_Spec
  imports Prelude
begin

section \<open>Bounded queues\<close>

text \<open>
  The contract both producer/consumer programs are measured against: a queue of bounded
  capacity that hands items out in the order they came in. It appears in two forms: a small
  transition system (the target of the simulation of Shm\_Prodcons) and an interface for a
  buffer with put and get operations (interpreted on the ring of Rpc\_Prodcons).
\<close>

subsection \<open>The queue as a transition system\<close>

record fifo =
  fifo_items :: "int list"
  fifo_in :: "int list"
  fifo_out :: "int list"

datatype fifo_event = Enq int | Deq

fun fifo_exec :: "nat \<Rightarrow> fifo \<Rightarrow> fifo_event \<Rightarrow> fifo option" where
  "fifo_exec cap q (Enq x) =
     (if length (fifo_items q) < cap
      then Some \<lparr>fifo_items = fifo_items q @ [x], fifo_in = fifo_in q @ [x], fifo_out = fifo_out q\<rparr>
      else None)"
| "fifo_exec cap q Deq =
     (case fifo_items q of
        [] \<Rightarrow> None
      | x # xs \<Rightarrow> Some \<lparr>fifo_items = xs, fifo_in = fifo_in q, fifo_out = fifo_out q @ [x]\<rparr>)"

definition fifo_empty :: fifo where
  "fifo_empty = \<lparr>fifo_items = [], fifo_in = [], fifo_out = []\<rparr>"

definition fifo_inv :: "nat \<Rightarrow> fifo \<Rightarrow> bool" where
  "fifo_inv cap q \<longleftrightarrow> fifo_in q = fifo_out q @ fifo_items q \<and> length (fifo_items q) \<le> cap"

interpretation fifo: invariant_system "fifo_exec cap" fifo_empty "fifo_inv cap" for cap
proof
  show "fifo_inv cap fifo_empty" by (simp add: fifo_inv_def fifo_empty_def)
next
  fix q e t
  assume "fifo_inv cap q" and "fifo_exec cap q e = Some t"
  then show "fifo_inv cap t"
    by (cases e) (auto simp: fifo_inv_def split: if_splits list.splits)
qed


subsection \<open>The interface of a bounded buffer\<close>

text \<open>
  A buffer with a capacity: \<open>put\<close> stores the next item of its own making and returns
  it, \<open>get\<close> removes one. The laws are promised only while a put finds room and a get
  finds an item, which is what the semaphores of the clients are there for.
\<close>

locale bounded_buffer =
  fixes put :: "'b \<Rightarrow> 'b \<times> 'x"
    and get :: "'b \<Rightarrow> 'b \<times> 'x"
    and contents :: "'b \<Rightarrow> 'x list"
    and ok :: "'b \<Rightarrow> bool"
    and cap :: nat
  assumes put_contents: "ok b \<Longrightarrow> length (contents b) < cap \<Longrightarrow> put b = (b', x) \<Longrightarrow>
      contents b' = contents b @ [x]"
    and put_ok: "ok b \<Longrightarrow> length (contents b) < cap \<Longrightarrow> put b = (b', x) \<Longrightarrow> ok b'"
    and get_contents: "ok b \<Longrightarrow> contents b \<noteq> [] \<Longrightarrow> get b = (b', x) \<Longrightarrow> contents b = x # contents b'"
    and get_ok: "ok b \<Longrightarrow> contents b \<noteq> [] \<Longrightarrow> get b = (b', x) \<Longrightarrow> ok b'"

text \<open>
  A run of puts (\<open>True\<close>) and gets (\<open>False\<close>) under the guards; the results are what went in
  and what came out.
\<close>

fun buffer_run ::
  "('b \<Rightarrow> 'b \<times> 'x) \<Rightarrow> ('b \<Rightarrow> 'b \<times> 'x) \<Rightarrow> bool list \<Rightarrow> 'b \<Rightarrow> 'b \<times> 'x list \<times> 'x list" where
  "buffer_run put get [] b = (b, [], [])"
| "buffer_run put get (True # es) b =
     (let (b1, x) = put b; (b2, ins, outs) = buffer_run put get es b1 in (b2, x # ins, outs))"
| "buffer_run put get (False # es) b =
     (let (b1, x) = get b; (b2, ins, outs) = buffer_run put get es b1 in (b2, ins, x # outs))"

lemma buffer_run_snoc:
  "buffer_run put get (es @ [e]) b =
     (let (b1, ins, outs) = buffer_run put get es b; (b2, x) = (if e then put b1 else get b1) in
      if e then (b2, ins @ [x], outs) else (b2, ins, outs @ [x]))"
proof (induction es arbitrary: b)
  case Nil
  show ?case by (cases e) (auto simp: Let_def split: prod.splits)
next
  case (Cons a es)
  show ?case using Cons.IH by (cases a; cases e) (simp_all add: Let_def split: prod.splits)
qed

text \<open>The guards along a run, from a buffer holding \<open>n\<close> items.\<close>

fun buffer_guards :: "nat \<Rightarrow> bool list \<Rightarrow> nat \<Rightarrow> bool" where
  "buffer_guards cap [] n \<longleftrightarrow> True"
| "buffer_guards cap (True # es) n \<longleftrightarrow> n < cap \<and> buffer_guards cap es (Suc n)"
| "buffer_guards cap (False # es) n \<longleftrightarrow> 0 < n \<and> buffer_guards cap es (n - 1)"

context bounded_buffer
begin

lemma put_D:
  assumes "ok b" and "length (contents b) < cap"
  obtains b' x where "put b = (b', x)" "ok b'" "contents b' = contents b @ [x]"
  using assms put_contents put_ok by (cases "put b") blast

lemma get_D:
  assumes "ok b" and "contents b \<noteq> []"
  obtains b' x where "get b = (b', x)" "ok b'" "contents b = x # contents b'"
  using assms get_contents get_ok by (cases "get b") blast

text \<open>
  First in, first out: what a guarded run takes out, followed by what is left, is what was
  there followed by what the run put in.
\<close>

theorem buffer_fifo:
  assumes "ok b" and "buffer_guards cap es (length (contents b))"
    and "buffer_run put get es b = (b', ins, outs)"
  shows "ok b' \<and> outs @ contents b' = contents b @ ins"
  using assms
proof (induction es arbitrary: b ins outs)
  case Nil
  then show ?case by simp
next
  case (Cons e es)
  show ?case
  proof (cases e)
    case True
    with Cons.prems have "length (contents b) < cap" by simp
    with Cons.prems(1) obtain b1 x where b1: "put b = (b1, x)" "ok b1" "contents b1 = contents b @ [x]"
      by (rule put_D)
    obtain ins' where r: "buffer_run put get es b1 = (b', ins', outs)" and "ins = x # ins'"
      using Cons.prems(3) True b1(1) by (auto simp: Let_def split: prod.splits)
    moreover have "buffer_guards cap es (length (contents b1))"
      using Cons.prems(2) True b1(3) by simp
    ultimately show ?thesis using Cons.IH [OF b1(2) _ r] b1(3) by simp
  next
    case False
    with Cons.prems have "contents b \<noteq> []" by auto
    with Cons.prems(1) obtain b1 x where b1: "get b = (b1, x)" "ok b1" "contents b = x # contents b1"
      by (rule get_D)
    obtain outs' where r: "buffer_run put get es b1 = (b', ins, outs')" and "outs = x # outs'"
      using Cons.prems(3) False b1(1) by (auto simp: Let_def split: prod.splits)
    moreover have "buffer_guards cap es (length (contents b1))"
      using Cons.prems(2) False b1(3) by simp
    ultimately show ?thesis using Cons.IH [OF b1(2) _ r] b1(3) by simp
  qed
qed

end

end
