(* ===== verification/Shm_Prodcons.thy ===== *)
theory Shm_Prodcons
  imports Sysv_Sem Fifo_Spec
begin

section \<open>Producers and consumers over shared memory\<close>

text \<open>
  Model of lab-shmemory/semaphore/pc.c. Producers and consumers are forked processes
  that share one 4096-byte segment. Its first two words hold the consumer's and the producer's
  cursor, pointers into the rest of the segment, of which the model keeps the distance from
  \<^verbatim>\<open>addr\<close>. Three semaphores count empty slots (SE), filled slots (SF) and
  guard the segment (SB). Each process is a program counter over the statements of
  \<^verbatim>\<open>producer\<close> and \<^verbatim>\<open>consumer\<close>; an event moves one process past one statement. The
  fields \<open>pc_produced\<close> and \<open>pc_consumed\<close> are history variables: nothing reads them.
\<close>

subsection \<open>Semaphore tables\<close>

definition SE :: nat where "SE = 0"
definition SF :: nat where "SF = 1"
definition SB :: nat where "SB = 2"

definition pc_producer_lock :: "sembuf list" where
  "pc_producer_lock = [sb SE (- 1), sb SB (- 1)]"

definition pc_producer_release :: "sembuf list" where
  "pc_producer_release = [sb SB 1, sb SF 1]"

definition pc_consumer_lock :: "sembuf list" where
  "pc_consumer_lock = [sb SF (- 1), sb SB (- 1)]"

definition pc_consumer_release :: "sembuf list" where
  "pc_consumer_release = [sb SB 1, sb SE 1]"

lemmas pc_tables = SE_def SF_def SB_def
  pc_producer_lock_def pc_producer_release_def pc_consumer_lock_def pc_consumer_release_def


subsection \<open>State\<close>

definition SHM_SIZE :: nat where "SHM_SIZE = 4096"
definition PTR_SIZE :: nat where "PTR_SIZE = 8"
definition DATA_OFF :: nat where "DATA_OFF = PTR_SIZE + PTR_SIZE"

lemmas pc_layout = SHM_SIZE_def PTR_SIZE_def DATA_OFF_def

datatype actor = Producer nat | Consumer nat

datatype phase =
    Loop               \<comment> \<open>at the test of \<^verbatim>\<open>while (flag)\<close>\<close>
  | AtLock             \<comment> \<open>at the first \<^verbatim>\<open>semop\<close>\<close>
  | Critical           \<comment> \<open>past it\<close>
  | Touched int        \<comment> \<open>the cell is written (read), the cursor not yet moved\<close>
  | AtRelease int      \<comment> \<open>at the second \<^verbatim>\<open>semop\<close>\<close>
  | Printing int       \<comment> \<open>at the final \<^verbatim>\<open>printf\<close>\<close>
  | Exited int
  | Faulted            \<comment> \<open>at an access outside the segment, which kills it\<close>

record pc_area =
  cons_cur :: nat
  prod_cur :: nat
  cells :: "nat \<Rightarrow> int"

record pc_sys =
  pc_sems :: "int list"
  pc_area :: pc_area
  pc_phase :: "actor \<Rightarrow> phase"
  pc_flag :: "actor \<Rightarrow> bool"
  pc_printed :: "(actor \<times> int) list"
  pc_produced :: "int list"
  pc_consumed :: "int list"

definition pc_goto :: "actor \<Rightarrow> phase \<Rightarrow> pc_sys \<Rightarrow> pc_sys" where
  "pc_goto a p s = s\<lparr>pc_phase := (pc_phase s)(a := p)\<rparr>"


subsection \<open>The statements of the two loops\<close>

fun pc_lock_ops :: "actor \<Rightarrow> sembuf list" where
  "pc_lock_ops (Producer _) = pc_producer_lock"
| "pc_lock_ops (Consumer _) = pc_consumer_lock"

fun pc_release_ops :: "actor \<Rightarrow> sembuf list" where
  "pc_release_ops (Producer _) = pc_producer_release"
| "pc_release_ops (Consumer _) = pc_consumer_release"

text \<open>
  \<^verbatim>\<open>'a' + (*prod_cur - (addr + 2 * sizeof(char *))) % 26\<close>, narrowed to
  \<^verbatim>\<open>char\<close>; \<^verbatim>\<open>**prod_cur = ch\<close>; \<^verbatim>\<open>c = **cons_cur\<close>. An access at or past the end of
  the segment, which is one page, is undefined in C: the model follows the process no further (\<^term>\<open>Faulted\<close> below), as
  on a machine where nothing is mapped there and the access kills it. What it would do to a neighbouring
  mapping is not described.
\<close>

definition pc_next_char :: "pc_area \<Rightarrow> int" where
  "pc_next_char m = to_schar (97 + c_rem (int (prod_cur m) - int DATA_OFF) 26)"

fun pc_access :: "actor \<Rightarrow> pc_area \<Rightarrow> (pc_area \<times> int) option" where
  "pc_access (Producer _) m =
     (if prod_cur m < SHM_SIZE
      then Some (m\<lparr>cells := (cells m)(prod_cur m := pc_next_char m)\<rparr>, pc_next_char m)
      else None)"
| "pc_access (Consumer _) m =
     (if cons_cur m < SHM_SIZE then Some (m, cells m (cons_cur m)) else None)"

fun pc_advance :: "actor \<Rightarrow> int \<Rightarrow> pc_sys \<Rightarrow> pc_sys" where
  "pc_advance (Producer _) c s =
     s\<lparr>pc_area := (pc_area s)\<lparr>prod_cur := prod_cur (pc_area s) + 1\<rparr>,
       pc_produced := pc_produced s @ [c]\<rparr>"
| "pc_advance (Consumer _) c s =
     s\<lparr>pc_area := (pc_area s)\<lparr>cons_cur := cons_cur (pc_area s) + 1\<rparr>,
       pc_consumed := pc_consumed s @ [c]\<rparr>"

text \<open>
  \<^verbatim>\<open>sig_catch\<close> clears the process's own copy of \<^verbatim>\<open>flag\<close>. A signal that arrives while the
  process sleeps in \<^verbatim>\<open>semop\<close> also ends that call with EINTR, which the program treats as
  an error (\<open>Interrupt\<close>); otherwise only the flag changes (\<open>Sigint\<close>).
\<close>

datatype pc_event =
    Test actor | Acquire actor | Access actor | Advance actor | Release actor
  | Print actor | Sigint actor | Interrupt actor

definition pc_sig_catch :: "actor \<Rightarrow> pc_sys \<Rightarrow> pc_sys" where
  "pc_sig_catch a s = s\<lparr>pc_flag := (pc_flag s)(a := False)\<rparr>"

fun pc_alive :: "phase \<Rightarrow> bool" where
  "pc_alive (Exited _) = False"
| "pc_alive Faulted = False"
| "pc_alive _ = True"

fun pc_exec :: "pc_sys \<Rightarrow> pc_event \<Rightarrow> pc_sys option" where
  "pc_exec s (Test a) =
     (if pc_phase s a = Loop then Some (pc_goto a (if pc_flag s a then AtLock else Exited 0) s)
      else None)"
| "pc_exec s (Acquire a) =
     (if pc_phase s a = AtLock then
        (case semop (pc_lock_ops a) (pc_sems s) of
           Done v \<Rightarrow> Some (pc_goto a Critical (s\<lparr>pc_sems := v\<rparr>))
         | Sleep \<Rightarrow> None
         | Fail _ \<Rightarrow> Some (pc_goto a (Exited 1) s))
      else None)"
| "pc_exec s (Access a) =
     (if pc_phase s a = Critical then
        (case pc_access a (pc_area s) of
           Some (m, c) \<Rightarrow> Some (pc_goto a (Touched c) (s\<lparr>pc_area := m\<rparr>))
         | None \<Rightarrow> Some (pc_goto a Faulted s))
      else None)"
| "pc_exec s (Advance a) =
     (case pc_phase s a of
        Touched c \<Rightarrow> Some (pc_goto a (AtRelease c) (pc_advance a c s))
      | _ \<Rightarrow> None)"
| "pc_exec s (Release a) =
     (case pc_phase s a of
        AtRelease c \<Rightarrow>
          (case semop (pc_release_ops a) (pc_sems s) of
             Done v \<Rightarrow> Some (pc_goto a (Printing c) (s\<lparr>pc_sems := v\<rparr>))
           | Sleep \<Rightarrow> None
           | Fail _ \<Rightarrow> Some (pc_goto a (Exited 1) s))
      | _ \<Rightarrow> None)"
| "pc_exec s (Print a) =
     (case pc_phase s a of
        Printing c \<Rightarrow> Some (pc_goto a Loop (s\<lparr>pc_printed := pc_printed s @ [(a, c)]\<rparr>))
      | _ \<Rightarrow> None)"
| "pc_exec s (Sigint a) = (if pc_alive (pc_phase s a) then Some (pc_sig_catch a s) else None)"
| "pc_exec s (Interrupt a) =
     (if pc_phase s a = AtLock \<and> semop (pc_lock_ops a) (pc_sems s) = Sleep
      then Some (pc_goto a (Exited 1) (pc_sig_catch a s)) else None)"

text \<open>
  What \<^verbatim>\<open>main\<close> has set up when the children are forked: both cursors behind the two pointers,
  SB = 1, SE = 26, SF = 0, every child at the top of its loop. A failing \<^verbatim>\<open>SETVAL\<close> is only reported, and
  leaves the value of the new set, zero.
\<close>

definition pc_area0 :: pc_area where
  "pc_area0 = \<lparr>cons_cur = DATA_OFF, prod_cur = DATA_OFF, cells = (\<lambda>_. 0)\<rparr>"

definition pc_setval :: "bool \<Rightarrow> nat \<Rightarrow> int \<Rightarrow> int list \<Rightarrow> int list" where
  "pc_setval ok i v s =
     (if ok then (case setval i v s of Inr s' \<Rightarrow> s' | Inl _ \<Rightarrow> s) else s)"

definition pc_sems0 :: "bool \<Rightarrow> bool \<Rightarrow> bool \<Rightarrow> int list" where
  "pc_sems0 ok_sb ok_se ok_sf =
     pc_setval ok_sf SF 0 (pc_setval ok_se SE 26 (pc_setval ok_sb SB 1 [0, 0, 0]))"

definition pc_init :: pc_sys where
  "pc_init = \<lparr>pc_sems = pc_sems0 True True True, pc_area = pc_area0, pc_phase = (\<lambda>_. Loop),
     pc_flag = (\<lambda>_. True), pc_printed = [], pc_produced = [], pc_consumed = []\<rparr>"


subsection \<open>The invariant\<close>

fun in_cs :: "phase \<Rightarrow> bool" where
  "in_cs Critical = True"
| "in_cs (Touched _) = True"
| "in_cs (AtRelease _) = True"
| "in_cs Faulted = True"
| "in_cs _ = False"

text \<open>The values of SE, SF and SB and the bounds on the \<open>d\<close> letters not yet consumed.\<close>

fun pc_sem_inv :: "actor option \<Rightarrow> phase \<Rightarrow> int \<Rightarrow> int list \<Rightarrow> bool" where
  "pc_sem_inv None _ d v \<longleftrightarrow> v = [26 - d, d, 1] \<and> 0 \<le> d \<and> d \<le> 26"
| "pc_sem_inv (Some (Producer _)) (AtRelease _) d v \<longleftrightarrow> v = [26 - d, d - 1, 0] \<and> 1 \<le> d \<and> d \<le> 26"
| "pc_sem_inv (Some (Producer _)) _ d v \<longleftrightarrow> v = [25 - d, d, 0] \<and> 0 \<le> d \<and> d \<le> 25"
| "pc_sem_inv (Some (Consumer _)) (AtRelease _) d v \<longleftrightarrow> v = [25 - d, d, 0] \<and> 0 \<le> d \<and> d \<le> 25"
| "pc_sem_inv (Some (Consumer _)) _ d v \<longleftrightarrow> v = [26 - d, d - 1, 0] \<and> 1 \<le> d \<and> d \<le> 26"

definition pc_owner :: "pc_sys \<Rightarrow> actor option \<Rightarrow> bool" where
  "pc_owner s h \<longleftrightarrow> (\<forall>a. in_cs (pc_phase s a) \<longleftrightarrow> h = Some a)"

definition pc_pending :: "pc_sys \<Rightarrow> int" where
  "pc_pending s = int (length (pc_produced s)) - int (length (pc_consumed s))"

definition pc_mem_inv :: "pc_sys \<Rightarrow> bool" where
  "pc_mem_inv s \<longleftrightarrow>
     prod_cur (pc_area s) = DATA_OFF + length (pc_produced s) \<and>
     cons_cur (pc_area s) = DATA_OFF + length (pc_consumed s) \<and>
     prod_cur (pc_area s) \<le> SHM_SIZE \<and>
     pc_produced s = map letter [0..<length (pc_produced s)] \<and>
     pc_consumed s = map letter [0..<length (pc_consumed s)] \<and>
     (\<forall>k < length (pc_produced s). cells (pc_area s) (DATA_OFF + k) = letter k)"

fun pc_phase_ok :: "pc_sys \<Rightarrow> actor \<Rightarrow> phase \<Rightarrow> bool" where
  "pc_phase_ok s (Producer _) (Touched c) \<longleftrightarrow>
     c = letter (length (pc_produced s)) \<and> cells (pc_area s) (prod_cur (pc_area s)) = c \<and>
     prod_cur (pc_area s) < SHM_SIZE"
| "pc_phase_ok s (Consumer _) (Touched c) \<longleftrightarrow> c = letter (length (pc_consumed s))"
| "pc_phase_ok s (Producer _) Faulted \<longleftrightarrow> prod_cur (pc_area s) = SHM_SIZE"
| "pc_phase_ok s (Consumer _) Faulted \<longleftrightarrow> False"
| "pc_phase_ok _ _ _ \<longleftrightarrow> True"

definition pc_holder_ok :: "pc_sys \<Rightarrow> actor option \<Rightarrow> bool" where
  "pc_holder_ok s h \<longleftrightarrow> pc_owner s h \<and>
     pc_sem_inv h (case h of None \<Rightarrow> Loop | Some a \<Rightarrow> pc_phase s a) (pc_pending s) (pc_sems s)"

definition pc_inv :: "pc_sys \<Rightarrow> bool" where
  "pc_inv s \<longleftrightarrow>
     (\<exists>h. pc_holder_ok s h) \<and> pc_mem_inv s \<and> (\<forall>a. pc_phase_ok s a (pc_phase s a))"

lemma pc_next_char_letter:
  "prod_cur m = DATA_OFF + n \<Longrightarrow> pc_next_char m = letter n"
  using letter_lower [of n]
  by (simp add: pc_next_char_def letter_def c_rem_nonneg to_schar_id zmod_int)

lemma pc_semop_eval:
  assumes "v = [e, f, b]" and "0 \<le> e" "e \<le> 26" "0 \<le> f" "f \<le> 26" "0 \<le> b" "b \<le> 1"
  shows "semop pc_producer_lock v = (if 0 < e \<and> 0 < b then Done [e - 1, f, b - 1] else Sleep)"
    and "semop pc_consumer_lock v = (if 0 < f \<and> 0 < b then Done [e, f - 1, b - 1] else Sleep)"
    and "semop pc_producer_release v = Done [e, f + 1, b + 1]"
    and "semop pc_consumer_release v = Done [e + 1, f, b + 1]"
  using assms
  by (auto simp: semop_def pc_tables sem_simps SEMVMX_def list_ex_iff)

lemma pc_init_inv: "pc_inv pc_init"
proof -
  have "pc_holder_ok pc_init None"
    by (simp add: pc_holder_ok_def pc_owner_def pc_init_def pc_sems0_def pc_setval_def
        setval_def SEMVMX_def pc_pending_def pc_tables)
  moreover have "pc_mem_inv pc_init"
    by (simp add: pc_mem_inv_def pc_init_def pc_area0_def pc_layout)
  moreover have "\<forall>a. pc_phase_ok pc_init a (pc_phase pc_init a)"
  proof
    fix a
    show "pc_phase_ok pc_init a (pc_phase pc_init a)"
      by (cases a) (simp_all add: pc_init_def)
  qed
  ultimately show ?thesis unfolding pc_inv_def by blast
qed


subsection \<open>Every statement keeps the invariant\<close>

lemma pc_goto_simps [simp]:
  "pc_sems (pc_goto a p s) = pc_sems s"
  "pc_area (pc_goto a p s) = pc_area s"
  "pc_flag (pc_goto a p s) = pc_flag s"
  "pc_printed (pc_goto a p s) = pc_printed s"
  "pc_produced (pc_goto a p s) = pc_produced s"
  "pc_consumed (pc_goto a p s) = pc_consumed s"
  "pc_phase (pc_goto a p s) = (pc_phase s)(a := p)"
  by (simp_all add: pc_goto_def)

lemma pc_phase_ok_cong:
  "pc_produced s = pc_produced t \<Longrightarrow> pc_consumed s = pc_consumed t \<Longrightarrow> pc_area s = pc_area t \<Longrightarrow>
     pc_phase_ok s a p = pc_phase_ok t a p"
  by (cases "(s, a, p)" rule: pc_phase_ok.cases) simp_all

lemma pc_phase_ok_outside: "\<not> in_cs p \<Longrightarrow> pc_phase_ok s a p"
  by (cases p; cases a) simp_all

lemma pc_mem_inv_cong:
  "pc_produced s = pc_produced t \<Longrightarrow> pc_consumed s = pc_consumed t \<Longrightarrow> pc_area s = pc_area t \<Longrightarrow>
     pc_mem_inv s = pc_mem_inv t"
  by (simp add: pc_mem_inv_def)

text \<open>
  A step that moves one actor between two places outside (or past) the critical section and
  leaves semaphores and memory alone.
\<close>

lemma pc_inv_move:
  assumes inv: "pc_inv s" and out: "\<not> in_cs (pc_phase s a)" "\<not> in_cs p"
    and same: "pc_sems t = pc_sems s" "pc_area t = pc_area s" "pc_produced t = pc_produced s"
      "pc_consumed t = pc_consumed s" "pc_phase t = (pc_phase s)(a := p)"
  shows "pc_inv t"
proof -
  from inv obtain h where h: "pc_holder_ok s h" by (auto simp: pc_inv_def)
  then have "h \<noteq> Some a" using out by (auto simp: pc_holder_ok_def pc_owner_def)
  with h same out have "pc_holder_ok t h"
    by (auto simp: pc_holder_ok_def pc_owner_def pc_pending_def split: option.splits)
  moreover have "pc_mem_inv t" using inv same by (simp add: pc_inv_def pc_mem_inv_def)
  moreover have "\<forall>b. pc_phase_ok t b (pc_phase t b)"
    using inv same out by (auto simp: pc_inv_def pc_phase_ok_outside pc_phase_ok_cong [of t s])
  ultimately show ?thesis unfolding pc_inv_def by blast
qed

lemma pc_holder_None:
  assumes "pc_inv s" and "pc_sems s = [e, f, b]" and "0 < b"
  shows "pc_holder_ok s None"
proof -
  from assms(1) obtain h where h: "pc_holder_ok s h" by (auto simp: pc_inv_def)
  have "h = None"
  proof (rule ccontr)
    assume "h \<noteq> None"
    then obtain a where a: "h = Some a" by blast
    with h have "pc_sem_inv (Some a) (pc_phase s a) (pc_pending s) (pc_sems s)"
      by (simp add: pc_holder_ok_def)
    with assms(2,3) show False
      by (cases a; cases "pc_phase s a") auto
  qed
  with h show ?thesis by simp
qed

lemma pc_sems_shape:
  assumes "pc_inv s"
  obtains e f b where "pc_sems s = [e, f, b]" "0 \<le> e" "e \<le> 26" "0 \<le> f" "f \<le> 26" "0 \<le> b" "b \<le> 1"
proof -
  from assms obtain h where "pc_holder_ok s h" by (auto simp: pc_inv_def)
  then have "pc_sem_inv h (case h of None \<Rightarrow> Loop | Some a \<Rightarrow> pc_phase s a) (pc_pending s) (pc_sems s)"
    by (simp add: pc_holder_ok_def)
  then show thesis using that
    by (cases "(h, case h of None \<Rightarrow> Loop | Some a \<Rightarrow> pc_phase s a, pc_pending s, pc_sems s)"
        rule: pc_sem_inv.cases) auto
qed

lemma pc_holder_Some:
  assumes "pc_inv s" and "in_cs (pc_phase s a)"
  shows "pc_holder_ok s (Some a)"
proof -
  from assms(1) obtain h where h: "pc_holder_ok s h" by (auto simp: pc_inv_def)
  with assms(2) have "h = Some a" by (auto simp: pc_holder_ok_def pc_owner_def)
  with h show ?thesis by simp
qed

lemma pc_inv_acquire:
  assumes inv: "pc_inv s" and at: "pc_phase s a = AtLock"
    and ops: "semop (pc_lock_ops a) (pc_sems s) = Done v"
  shows "pc_inv (pc_goto a Critical (s\<lparr>pc_sems := v\<rparr>))" (is "pc_inv ?t")
proof -
  obtain e f b where sh: "pc_sems s = [e, f, b]" "0 \<le> e" "e \<le> 26" "0 \<le> f" "f \<le> 26" "0 \<le> b" "b \<le> 1"
    using pc_sems_shape [OF inv] .
  have b: "0 < b" using ops pc_semop_eval(1,2) [OF sh] by (cases a) (auto split: if_splits)
  have none: "pc_holder_ok s None" by (rule pc_holder_None [OF inv sh(1) b])
  have "pc_holder_ok ?t (Some a)"
    using none ops pc_semop_eval(1,2) [OF sh] b sh(1)
    by (cases a) (auto simp: pc_holder_ok_def pc_owner_def pc_pending_def split: if_splits)
  moreover have "pc_mem_inv ?t" using inv by (simp add: pc_inv_def pc_mem_inv_def)
  moreover have "\<forall>c. pc_phase_ok ?t c (pc_phase ?t c)"
  proof
    fix c
    show "pc_phase_ok ?t c (pc_phase ?t c)"
      using none by (cases a; cases "c = a")
        (auto simp: pc_holder_ok_def pc_owner_def intro: pc_phase_ok_outside)
  qed
  ultimately show ?thesis unfolding pc_inv_def by blast
qed

text \<open>Nobody else is in the critical section while \<open>a\<close> is.\<close>

lemma pc_others_outside:
  "pc_holder_ok s (Some a) \<Longrightarrow> c \<noteq> a \<Longrightarrow> \<not> in_cs (pc_phase s c)"
  by (auto simp: pc_holder_ok_def pc_owner_def)

lemma pc_phases_inside:
  assumes "pc_holder_ok s (Some a)" and "pc_phase t = (pc_phase s)(a := p)" and "pc_phase_ok t a p"
  shows "\<forall>c. pc_phase_ok t c (pc_phase t c)"
proof
  fix c
  show "pc_phase_ok t c (pc_phase t c)"
    using assms pc_others_outside [OF assms(1), of c] by (cases "c = a") (auto intro: pc_phase_ok_outside)
qed

lemma pc_inv_access:
  assumes inv: "pc_inv s" and at: "pc_phase s a = Critical"
    and acc: "pc_access a (pc_area s) = Some (m, c)"
  shows "pc_inv (pc_goto a (Touched c) (s\<lparr>pc_area := m\<rparr>))" (is "pc_inv ?t")
proof -
  have hold: "pc_holder_ok s (Some a)" using pc_holder_Some [OF inv, of a] at by simp
  have mem: "pc_mem_inv s" using inv by (simp add: pc_inv_def)
  have nxt: "pc_next_char (pc_area s) = letter (length (pc_produced s))"
    using mem by (intro pc_next_char_letter) (simp add: pc_mem_inv_def)
  have "pc_holder_ok ?t (Some a)"
    using hold at by (cases a) (auto simp: pc_holder_ok_def pc_owner_def pc_pending_def)
  moreover have "pc_mem_inv ?t"
    using mem acc by (cases a) (auto simp: pc_mem_inv_def split: if_splits)
  moreover have "pc_phase_ok ?t a (Touched c)"
  proof (cases a)
    case (Producer i)
    with acc nxt show ?thesis by (auto split: if_splits)
  next
    case (Consumer j)
    with hold at have "length (pc_consumed s) < length (pc_produced s)"
      by (auto simp: pc_holder_ok_def pc_pending_def)
    with Consumer acc mem show ?thesis by (auto simp: pc_mem_inv_def split: if_splits)
  qed
  ultimately show ?thesis unfolding pc_inv_def using pc_phases_inside [OF hold, of ?t "Touched c"] by auto
qed

lemma pc_inv_fault:
  assumes inv: "pc_inv s" and at: "pc_phase s a = Critical" and acc: "pc_access a (pc_area s) = None"
  shows "pc_inv (pc_goto a Faulted s)" (is "pc_inv ?t")
proof -
  have hold: "pc_holder_ok s (Some a)" using pc_holder_Some [OF inv, of a] at by simp
  have mem: "pc_mem_inv s" using inv by (simp add: pc_inv_def)
  have "pc_holder_ok ?t (Some a)"
    using hold at by (cases a) (auto simp: pc_holder_ok_def pc_owner_def pc_pending_def)
  moreover have "pc_mem_inv ?t" using mem by (simp add: pc_mem_inv_def)
  moreover have "pc_phase_ok ?t a Faulted"
    using acc mem hold at
    by (cases a) (auto simp: pc_mem_inv_def pc_holder_ok_def pc_pending_def split: if_splits)
  ultimately show ?thesis unfolding pc_inv_def using pc_phases_inside [OF hold, of ?t Faulted] by auto
qed

lemma pc_inv_advance:
  assumes inv: "pc_inv s" and at: "pc_phase s a = Touched c"
  shows "pc_inv (pc_goto a (AtRelease c) (pc_advance a c s))" (is "pc_inv ?t")
proof -
  have hold: "pc_holder_ok s (Some a)" using pc_holder_Some [OF inv, of a] at by simp
  have mem: "pc_mem_inv s" and ok: "pc_phase_ok s a (Touched c)"
    using inv at by (auto simp: pc_inv_def dest: spec [of _ a])
  have "pc_holder_ok ?t (Some a)"
    using hold at by (cases a) (auto simp: pc_holder_ok_def pc_owner_def pc_pending_def)
  moreover have "pc_mem_inv ?t"
    using mem ok by (cases a) (auto simp: pc_mem_inv_def less_Suc_eq)
  moreover have "pc_phase_ok ?t a (AtRelease c)" by (cases a) simp_all
  moreover have "pc_phase ?t = (pc_phase s)(a := AtRelease c)" by (cases a) simp_all
  ultimately show ?thesis unfolding pc_inv_def using pc_phases_inside [OF hold, of ?t] by metis
qed

lemma pc_inv_release:
  assumes inv: "pc_inv s" and at: "pc_phase s a = AtRelease c"
  shows "\<exists>v. semop (pc_release_ops a) (pc_sems s) = Done v \<and>
    pc_inv (pc_goto a (Printing c) (s\<lparr>pc_sems := v\<rparr>))"
proof -
  have hold: "pc_holder_ok s (Some a)" using pc_holder_Some [OF inv, of a] at by simp
  obtain e f b where sh: "pc_sems s = [e, f, b]" "0 \<le> e" "e \<le> 26" "0 \<le> f" "f \<le> 26" "0 \<le> b" "b \<le> 1"
    using pc_sems_shape [OF inv] .
  obtain v where v: "semop (pc_release_ops a) (pc_sems s) = Done v"
    using pc_semop_eval(3,4) [OF sh] by (cases a) auto
  let ?t = "pc_goto a (Printing c) (s\<lparr>pc_sems := v\<rparr>)"
  have "pc_holder_ok ?t None"
    using hold at v pc_semop_eval(3,4) [OF sh] sh(1)
    by (cases a) (auto simp: pc_holder_ok_def pc_owner_def pc_pending_def)
  moreover have "pc_mem_inv ?t" using inv by (simp add: pc_inv_def pc_mem_inv_def)
  moreover have "pc_phase_ok ?t a (Printing c)" by (cases a) simp_all
  ultimately have "pc_inv ?t"
    unfolding pc_inv_def using pc_phases_inside [OF hold, of ?t "Printing c"] by auto
  with v show ?thesis by blast
qed

lemmas pc_inv_goto = pc_inv_move [where t = "pc_goto a p s" and a = a and p = p and s = s for a p s,
    simplified pc_goto_simps, OF _ _ _ refl refl refl refl refl]

lemma pc_inv_cong:
  assumes "pc_sems t = pc_sems s" "pc_area t = pc_area s" "pc_produced t = pc_produced s"
    "pc_consumed t = pc_consumed s" "pc_phase t = pc_phase s"
  shows "pc_inv t = pc_inv s"
proof -
  have "pc_holder_ok t h = pc_holder_ok s h" for h
    using assms by (cases h) (simp_all add: pc_holder_ok_def pc_owner_def pc_pending_def)
  moreover have "pc_phase_ok t b p = pc_phase_ok s b p" for b p
    by (rule pc_phase_ok_cong) (simp_all add: assms)
  moreover have "pc_mem_inv t = pc_mem_inv s"
    by (rule pc_mem_inv_cong) (simp_all add: assms)
  ultimately show ?thesis by (simp add: pc_inv_def assms)
qed

lemma pc_inv_invisible [simp]:
  "pc_inv (s\<lparr>pc_flag := f\<rparr>) = pc_inv s" "pc_inv (s\<lparr>pc_printed := l\<rparr>) = pc_inv s"
  by (rule pc_inv_cong; simp)+

lemma pc_exec_inv:
  assumes inv: "pc_inv s" and ex: "pc_exec s e = Some t"
  shows "pc_inv t"
proof (cases e)
  case (Acquire a)
  with inv ex show ?thesis
    by (auto split: if_splits semresult.splits intro: pc_inv_acquire pc_inv_goto)
next
  case (Access a)
  with inv ex show ?thesis
    by (auto split: if_splits option.splits intro: pc_inv_access pc_inv_fault)
next
  case (Release a)
  with inv ex show ?thesis
    by (auto split: phase.splits semresult.splits dest: pc_inv_release)
qed (use inv ex in \<open>auto split: phase.splits if_splits simp: pc_sig_catch_def
       intro: pc_inv_advance pc_inv_goto\<close>)

interpretation pc: invariant_system pc_exec pc_init pc_inv
  by unfold_locales (auto intro: pc_init_inv pc_exec_inv)



subsection \<open>Refinement of the bounded queue\<close>

definition pc_abst :: "pc_sys \<Rightarrow> fifo" where
  "pc_abst s = \<lparr>fifo_items = drop (length (pc_consumed s)) (pc_produced s),
     fifo_in = pc_produced s, fifo_out = pc_consumed s\<rparr>"

lemma pc_abst_same:
  "pc_produced t = pc_produced s \<Longrightarrow> pc_consumed t = pc_consumed s \<Longrightarrow> pc_abst t = pc_abst s"
  by (simp add: pc_abst_def)

lemma pc_abst_advance:
  assumes inv: "pc_inv s" and at: "pc_phase s a = Touched c"
  shows "\<exists>f. fifo_exec 26 (pc_abst s) f = Some (pc_abst (pc_goto a (AtRelease c) (pc_advance a c s)))"
proof -
  have hold: "pc_holder_ok s (Some a)" using pc_holder_Some [OF inv, of a] at by simp
  have mem: "pc_mem_inv s" and ok: "pc_phase_ok s a (Touched c)"
    using inv at by (auto simp: pc_inv_def dest: spec [of _ a])
  show ?thesis
  proof (cases a)
    case (Producer i)
    with hold at have "length (pc_produced s) < 26 + length (pc_consumed s)"
      and "length (pc_consumed s) \<le> length (pc_produced s)"
      by (auto simp: pc_holder_ok_def pc_pending_def)
    with Producer show ?thesis
      by (intro exI [of _ "Enq c"]) (simp add: pc_abst_def)
  next
    case (Consumer j)
    with hold at have lt: "length (pc_consumed s) < length (pc_produced s)"
      by (auto simp: pc_holder_ok_def pc_pending_def)
    have "pc_produced s ! length (pc_consumed s) = map letter [0..<length (pc_produced s)] ! length (pc_consumed s)"
      using mem by (simp add: pc_mem_inv_def)
    also have "\<dots> = c" using lt ok Consumer by simp
    finally have "drop (length (pc_consumed s)) (pc_produced s) =
        c # drop (Suc (length (pc_consumed s))) (pc_produced s)"
      using lt by (metis Cons_nth_drop_Suc)
    with Consumer show ?thesis
      by (intro exI [of _ Deq]) (simp add: pc_abst_def)
  qed
qed

interpretation pc_fifo: simulation pc_exec pc_init pc_inv "fifo_exec 26" fifo_empty pc_abst
proof
  show "pc_abst pc_init = fifo_empty" by (simp add: pc_abst_def pc_init_def fifo_empty_def)
next
  fix s e t
  assume inv: "pc_inv s" and ex: "pc_exec s e = Some t"
  show "pc_abst t = pc_abst s \<or> (\<exists>f. fifo_exec 26 (pc_abst s) f = Some (pc_abst t))"
  proof (cases e)
    case (Advance a)
    with ex pc_abst_advance [OF inv, of a] show ?thesis by (auto split: phase.splits)
  next
    case (Acquire a)
    with ex show ?thesis
      by (auto split: if_splits semresult.splits intro: pc_abst_same)
  qed (use ex in \<open>auto split: if_splits phase.splits option.splits semresult.splits
         simp: pc_sig_catch_def intro: pc_abst_same\<close>)
qed


subsection \<open>One full turn of a producer and a consumer\<close>

definition pc_quiet :: "pc_sys \<Rightarrow> nat \<Rightarrow> bool" where
  "pc_quiet s n \<longleftrightarrow> pc_inv s \<and> (\<forall>a. pc_phase s a = Loop) \<and> (\<forall>a. pc_flag s a) \<and>
     length (pc_produced s) = n \<and> length (pc_consumed s) = n"

definition pc_turn :: "actor \<Rightarrow> pc_event list" where
  "pc_turn a = [Test a, Acquire a, Access a, Advance a, Release a, Print a]"

lemma pc_quiet_sems:
  assumes "pc_quiet s n"
  shows "pc_sems s = [26, 0, 1]" "prod_cur (pc_area s) = DATA_OFF + n" "cons_cur (pc_area s) = DATA_OFF + n"
proof -
  from assms have inv: "pc_inv s" and ph: "\<And>a. pc_phase s a = Loop" by (auto simp: pc_quiet_def)
  from inv obtain h where h: "pc_holder_ok s h" by (auto simp: pc_inv_def)
  with ph have "h = None" by (auto simp: pc_holder_ok_def pc_owner_def)
  with h assms show "pc_sems s = [26, 0, 1]" by (auto simp: pc_holder_ok_def pc_quiet_def pc_pending_def)
  show "prod_cur (pc_area s) = DATA_OFF + n" "cons_cur (pc_area s) = DATA_OFF + n"
    using inv assms by (simp_all add: pc_inv_def pc_mem_inv_def pc_quiet_def)
qed

lemmas pc_eval = pc_semop_eval [OF refl]

lemma pc_quiet_turn:
  assumes q: "pc_quiet s n" and n: "DATA_OFF + n < SHM_SIZE"
  shows "\<exists>t. run pc_exec s (pc_turn (Producer 0) @ pc_turn (Consumer 0)) = Some t \<and> pc_quiet t (Suc n)"
proof -
  from q have f: "\<And>a. pc_phase s a = Loop" "\<And>a. pc_flag s a" and inv: "pc_inv s"
    and len: "length (pc_produced s) = n" "length (pc_consumed s) = n" by (auto simp: pc_quiet_def)
  have "\<exists>t. run pc_exec s (pc_turn (Producer 0) @ pc_turn (Consumer 0)) = Some t \<and>
      (\<forall>a. pc_phase t a = Loop) \<and> (\<forall>a. pc_flag t a) \<and>
      length (pc_produced t) = Suc n \<and> length (pc_consumed t) = Suc n"
    using n f by (auto simp: pc_turn_def pc_quiet_sems [OF q] pc_eval len)
  then obtain t where t: "run pc_exec s (pc_turn (Producer 0) @ pc_turn (Consumer 0)) = Some t"
      "\<forall>a. pc_phase t a = Loop" "\<forall>a. pc_flag t a"
      "length (pc_produced t) = Suc n" "length (pc_consumed t) = Suc n" by blast
  then have "pc_inv t" by (blast intro: pc.run_inv_from [OF inv])
  with t show ?thesis by (auto simp: pc_quiet_def)
qed

lemma pc_quiet_reachable: "DATA_OFF + n \<le> SHM_SIZE \<Longrightarrow> \<exists>s. reach pc_exec pc_init s \<and> pc_quiet s n"
proof (induction n)
  case 0
  have "pc_phase pc_init a = Loop" "pc_flag pc_init a" for a by (simp_all add: pc_init_def)
  moreover have "pc_produced pc_init = []" "pc_consumed pc_init = []" by (simp_all add: pc_init_def)
  ultimately have "pc_quiet pc_init 0" by (simp add: pc_quiet_def pc_init_inv)
  with reach_init [of pc_exec pc_init] show ?case by blast
next
  case (Suc n)
  then have le: "DATA_OFF + n \<le> SHM_SIZE" and lt: "DATA_OFF + n < SHM_SIZE" by simp_all
  from Suc.IH [OF le] obtain s where s: "reach pc_exec pc_init s" "pc_quiet s n" by blast
  from pc_quiet_turn [OF s(2) lt] obtain t
    where "run pc_exec s (pc_turn (Producer 0) @ pc_turn (Consumer 0)) = Some t" "pc_quiet t (Suc n)"
    by blast
  with run_reach [OF s(1)] show ?case by blast
qed




subsection \<open>\<^verbatim>\<open>main\<close>: resources and exit status\<close>

text \<open>
  The answers of the system calls of \<^verbatim>\<open>main\<close>, in the parent. The result holds the exit
  status, the number of children, the IPC objects left in the kernel and the lines printed
  about the children.
\<close>

record pc_env =
  shmget_ok :: bool
  shmat_ok :: bool
  semget_ok :: bool
  forks :: "bool list"
  waits :: "(int \<times> wstatus) option list"
  shm_rmid_ok :: bool
  shmdt_ok :: bool
  sem_rmid_ok :: bool

definition pc_main :: "pc_env \<Rightarrow> main_result" where
  "pc_main e =
     (let die = (\<lambda>n objs rs. \<lparr>exit_status = 1, children = n, left_behind = objs, reports = rs\<rparr>) in
      if \<not> shmget_ok e then die 0 [] []
      else if \<not> shmat_ok e then die 0 [SharedMemory] []
      else if \<not> semget_ok e then die 0 [SharedMemory] []
      else
        let (producers, ok1) = fork_loop 3 (forks e) in
        if \<not> ok1 then die producers [SharedMemory, SemaphoreSet] []
        else
          let (consumers, ok2) = fork_loop 4 (drop 3 (forks e)); n = producers + consumers in
          if \<not> ok2 then die n [SharedMemory, SemaphoreSet] []
          else
            let (ok3, rs) = wait_loop 7 (waits e) in
            if \<not> ok3 then die n [SharedMemory, SemaphoreSet] rs
            else if \<not> shm_rmid_ok e then die n [SharedMemory, SemaphoreSet] rs
            else if \<not> shmdt_ok e then die n [SemaphoreSet] rs
            else if \<not> sem_rmid_ok e then die n [SemaphoreSet] rs
            else die n [] rs)"

lemma fork_loop_all: "length fs = n \<Longrightarrow> fork_loop n fs = (n, True) \<longleftrightarrow> (\<forall>b \<in> set fs. b)"
  by (induction n fs rule: fork_loop.induct) (auto simp: Let_def split: prod.splits)


subsection \<open>After a fault\<close>






subsection \<open>Properties\<close>

text \<open>C1: at any moment at most one process, producer or consumer, is between its two
  \<^verbatim>\<open>semop\<close> calls, whatever the interleaving, the number of processes and the signals.\<close>

theorem pc_mutual_exclusion:
  assumes "reach pc_exec pc_init s" and "in_cs (pc_phase s a)" and "in_cs (pc_phase s b)"
  shows "a = b"
proof -
  from pc.reach_inv [OF assms(1)] obtain h where "pc_owner s h"
    by (auto simp: pc_inv_def pc_holder_ok_def)
  with assms(2,3) have "h = Some a" "h = Some b" by (simp_all add: pc_owner_def)
  then show ?thesis by simp
qed

theorem pc_mutual_exclusion_witness:
  "\<exists>s. run pc_exec pc_init [Test (Producer 0), Acquire (Producer 0), Test (Consumer 1)] = Some s \<and>
     in_cs (pc_phase s (Producer 0)) \<and> \<not> in_cs (pc_phase s (Consumer 1))"
proof -
  have "\<exists>s. run pc_exec pc_init [Test (Producer 0), Acquire (Producer 0), Test (Consumer 1)] = Some s \<and>
      pc_phase s (Producer 0) = Critical"
    by (simp add: pc_init_def pc_sems0_def pc_setval_def setval_def SEMVMX_def pc_tables sem_simps
        semop_def list_ex_iff)
  then obtain s where s: "run pc_exec pc_init [Test (Producer 0), Acquire (Producer 0), Test (Consumer 1)] = Some s"
    "in_cs (pc_phase s (Producer 0))" by auto
  with pc_mutual_exclusion [OF run_reach_init [OF s(1)] s(2), of "Consumer 1"] show ?thesis by auto
qed

text \<open>C2: every reachable state is a state of a first-in first-out queue of capacity 26: what the
  consumers have read is a prefix of what the producers have written, the writes are the
  letters of the alphabet in cyclic order, no cell is read before it is written, and at most 26
  letters are pending.\<close>

theorem pc_fifo_refinement:
  assumes "reach pc_exec pc_init s"
  shows "reach (fifo_exec 26) fifo_empty (pc_abst s) \<and>
    pc_produced s = pc_consumed s @ fifo_items (pc_abst s) \<and>
    length (fifo_items (pc_abst s)) \<le> 26 \<and>
    pc_produced s = map letter [0..<length (pc_produced s)]"
proof -
  have r: "reach (fifo_exec 26) fifo_empty (pc_abst s)" by (rule pc_fifo.reach_abst [OF assms])
  from fifo.reach_inv [OF r] have
    "pc_produced s = pc_consumed s @ fifo_items (pc_abst s)" "length (fifo_items (pc_abst s)) \<le> 26"
    by (simp_all add: fifo_inv_def pc_abst_def)
  moreover have "pc_produced s = map letter [0..<length (pc_produced s)]"
    using pc.reach_inv [OF assms] by (simp add: pc_inv_def pc_mem_inv_def)
  ultimately show ?thesis using r by blast
qed

theorem pc_fifo_refinement_witness:
  "\<exists>s. reach pc_exec pc_init s \<and> pc_consumed s = [97, 98] \<and>
     reach (fifo_exec 26) fifo_empty (pc_abst s)"
proof -
  obtain s where s: "reach pc_exec pc_init s" "pc_quiet s 2"
    using pc_quiet_reachable [of 2] by (auto simp: pc_layout)
  have "pc_consumed s = map letter [0..<2]"
    using s(2) by (auto simp: pc_quiet_def pc_inv_def pc_mem_inv_def)
  then have "pc_consumed s = [97, 98]" by (simp add: letter_def upt_rec)
  with s(1) pc_fifo_refinement [OF s(1)] show ?thesis by blast
qed

text \<open>C34: no deadlock: as long as nobody has been killed, whenever a producer and a consumer both
  stand at their first \<^verbatim>\<open>semop\<close>, one of the two can pass it, or another process can
  make its next step inside the critical section.\<close>

theorem pc_progress:
  assumes "reach pc_exec pc_init s" and "\<And>a. pc_phase s a \<noteq> Faulted"
    and "pc_phase s (Producer i) = AtLock" and "pc_phase s (Consumer j) = AtLock"
  shows "pc_exec s (Acquire (Producer i)) \<noteq> None \<or> pc_exec s (Acquire (Consumer j)) \<noteq> None \<or>
    (\<exists>a. in_cs (pc_phase s a) \<and>
       (pc_exec s (Access a) \<noteq> None \<or> pc_exec s (Advance a) \<noteq> None \<or> pc_exec s (Release a) \<noteq> None))"
proof -
  have inv: "pc_inv s" by (rule pc.reach_inv [OF assms(1)])
  then obtain h where h: "pc_holder_ok s h" by (auto simp: pc_inv_def)
  show ?thesis
  proof (cases h)
    case None
    with h have "pc_sems s = [26 - pc_pending s, pc_pending s, 1]"
      and "0 \<le> pc_pending s" "pc_pending s \<le> 26" by (simp_all add: pc_holder_ok_def)
    with pc_semop_eval [OF this(1)] assms(3,4) show ?thesis by auto
  next
    case (Some a)
    with h have cs: "in_cs (pc_phase s a)" by (simp add: pc_holder_ok_def pc_owner_def)
    have "pc_exec s (Access a) \<noteq> None \<or> pc_exec s (Advance a) \<noteq> None \<or> pc_exec s (Release a) \<noteq> None"
    proof (cases "pc_phase s a")
      case (AtRelease c)
      with pc_inv_release [OF inv this] show ?thesis by auto
    qed (use cs assms(2) [of a] in \<open>auto split: option.splits\<close>)
    with cs show ?thesis by blast
  qed
qed

theorem pc_progress_witness:
  "\<exists>s. run pc_exec pc_init [Test (Producer 0), Test (Consumer 0)] = Some s \<and>
     (pc_exec s (Acquire (Producer 0)) \<noteq> None \<or> pc_exec s (Acquire (Consumer 0)) \<noteq> None \<or>
      (\<exists>a. in_cs (pc_phase s a) \<and>
         (pc_exec s (Access a) \<noteq> None \<or> pc_exec s (Advance a) \<noteq> None \<or> pc_exec s (Release a) \<noteq> None)))"
proof -
  let ?s = "pc_goto (Consumer 0) AtLock (pc_goto (Producer 0) AtLock pc_init)"
  have r: "run pc_exec pc_init [Test (Producer 0), Test (Consumer 0)] = Some ?s"
    by (simp add: pc_init_def)
  have ph: "pc_phase ?s a \<noteq> Faulted" for a by (simp add: pc_init_def)
  have "pc_phase ?s (Producer 0) = AtLock" "pc_phase ?s (Consumer 0) = AtLock" by simp_all
  from pc_progress [OF run_reach_init [OF r] ph this] r show ?thesis by blast
qed



text \<open>\<^verbatim>\<open>main\<close> always ends with status 1, also when every call succeeds, and then it
  leaves no IPC object behind; when all system calls up to the forks succeed but a child
  cannot be created or waited for, the segment and the semaphore set stay in the kernel.\<close>

theorem pc_main_outcome:
  "exit_status (pc_main e) = 1 \<and> children (pc_main e) \<le> 7 \<and>
   (left_behind (pc_main e) = [] \<longleftrightarrow>
      (if shmget_ok e
       then shmat_ok e \<and> semget_ok e \<and> snd (fork_loop 3 (forks e)) \<and> snd (fork_loop 4 (drop 3 (forks e))) \<and>
         fst (wait_loop 7 (waits e)) \<and> shm_rmid_ok e \<and> shmdt_ok e \<and> sem_rmid_ok e
       else True))"
  using fork_loop_bound [of 3 "forks e"] fork_loop_bound [of 4 "drop 3 (forks e)"]
  by (auto simp: pc_main_def Let_def split: prod.splits)

end
