(* ===== verification/Rw_Lock.thy ===== *)
theory Rw_Lock
  imports Sysv_Sem
begin

section \<open>Readers and writers over a semaphore set\<close>

text \<open>
  The part that lab-shmemory/semaphore/wr.c and the servers of lab-socket/task-04 and task-05
  have in common: four tables of semaphore operations, for entering and leaving as a reader
  and as a writer. The locales state what a choice of tables promises, and prove from it what the
  processes can rely on; the programs' own tables are interpreted in their theories.
\<close>

datatype rw_actor = Reader nat | Writer nat

record rw_tables =
  t_start_read :: "sembuf list"
  t_stop_read :: "sembuf list"
  t_start_write :: "sembuf list"
  t_stop_write :: "sembuf list"

fun start_ops :: "rw_tables \<Rightarrow> rw_actor \<Rightarrow> sembuf list" where
  "start_ops T (Reader _) = t_start_read T"
| "start_ops T (Writer _) = t_start_write T"

fun stop_ops :: "rw_tables \<Rightarrow> rw_actor \<Rightarrow> sembuf list" where
  "stop_ops T (Reader _) = t_stop_read T"
| "stop_ops T (Writer _) = t_stop_write T"

record rw_sys =
  rw_sems :: "int list"
  rw_in :: "rw_actor \<Rightarrow> bool"

datatype rw_event = Enter rw_actor | Leave rw_actor

fun rw_exec :: "rw_tables \<Rightarrow> rw_sys \<Rightarrow> rw_event \<Rightarrow> rw_sys option" where
  "rw_exec T s (Enter a) =
     (if rw_in s a then None
      else case semop (start_ops T a) (rw_sems s) of
        Done v \<Rightarrow> Some \<lparr>rw_sems = v, rw_in = (rw_in s)(a := True)\<rparr>
      | _ \<Rightarrow> None)"
| "rw_exec T s (Leave a) =
     (if \<not> rw_in s a then None
      else case semop (stop_ops T a) (rw_sems s) of
        Done v \<Rightarrow> Some \<lparr>rw_sems = v, rw_in = (rw_in s)(a := False)\<rparr>
      | _ \<Rightarrow> None)"

definition rw_start :: "int list \<Rightarrow> rw_sys" where
  "rw_start v = \<lparr>rw_sems = v, rw_in = (\<lambda>_. False)\<rparr>"

lemma rw_exec_cases:
  assumes "rw_exec T s e = Some t"
  obtains (enter) a v where "e = Enter a" "\<not> rw_in s a" "semop (start_ops T a) (rw_sems s) = Done v"
      "t = \<lparr>rw_sems = v, rw_in = (rw_in s)(a := True)\<rparr>"
  | (leave) a v where "e = Leave a" "rw_in s a" "semop (stop_ops T a) (rw_sems s) = Done v"
      "t = \<lparr>rw_sems = v, rw_in = (rw_in s)(a := False)\<rparr>"
  using assms by (cases e) (auto split: if_splits semresult.splits)

definition readers_in :: "rw_sys \<Rightarrow> nat set" where
  "readers_in s = {i. rw_in s (Reader i)}"

definition writers_in :: "rw_sys \<Rightarrow> nat set" where
  "writers_in s = {i. rw_in s (Writer i)}"

lemma actors_in_upd [simp]:
  "readers_in \<lparr>rw_sems = v, rw_in = f(Reader i := True)\<rparr> = insert i {i. f (Reader i)}"
  "readers_in \<lparr>rw_sems = v, rw_in = f(Reader i := False)\<rparr> = {i. f (Reader i)} - {i}"
  "readers_in \<lparr>rw_sems = v, rw_in = f(Writer i := b)\<rparr> = {i. f (Reader i)}"
  "writers_in \<lparr>rw_sems = v, rw_in = f(Writer i := True)\<rparr> = insert i {i. f (Writer i)}"
  "writers_in \<lparr>rw_sems = v, rw_in = f(Writer i := False)\<rparr> = {i. f (Writer i)} - {i}"
  "writers_in \<lparr>rw_sems = v, rw_in = f(Reader i := b)\<rparr> = {i. f (Writer i)}"
  by (auto simp: readers_in_def writers_in_def)


subsection \<open>Counting semaphores that count\<close>

text \<open>
  Semaphore \<open>ar\<close> goes up by one when a reader enters and down when it leaves, \<open>aw\<close> the same
  for writers, and neither is touched by the other kind.
\<close>

locale rw_counters =
  fixes T :: rw_tables and ar aw :: nat and v0 :: "int list"
  assumes start_read_net: "net (t_start_read T) ar = 1" "net (t_start_read T) aw = 0"
    and stop_read_net: "net (t_stop_read T) ar = - 1" "net (t_stop_read T) aw = 0"
    and start_write_net: "net (t_start_write T) ar = 0" "net (t_start_write T) aw = 1"
    and stop_write_net: "net (t_stop_write T) ar = 0" "net (t_stop_write T) aw = - 1"
    and v0_zero: "v0 ! ar = 0" "v0 ! aw = 0"
    and v0_ok: "sem_ok v0"
begin

lemmas nets = start_read_net stop_read_net start_write_net stop_write_net

definition counts :: "rw_sys \<Rightarrow> bool" where
  "counts s \<longleftrightarrow> finite (readers_in s) \<and> finite (writers_in s) \<and>
     rw_sems s ! ar = int (card (readers_in s)) \<and> rw_sems s ! aw = int (card (writers_in s)) \<and>
     length (rw_sems s) = length v0 \<and> sem_ok (rw_sems s)"

lemma counts_start: "counts (rw_start v0)"
  by (simp add: counts_def rw_start_def readers_in_def writers_in_def v0_zero v0_ok)

lemma counts_exec:
  assumes "counts s" and "rw_exec T s e = Some t"
  shows "counts t"
  using assms(2)
proof (cases rule: rw_exec_cases)
  case (enter a v)
  note eff = semop_effect [OF enter(3)] and len = semop_length [OF enter(3)]
    and ok = semop_ok [OF _ enter(3)]
  show ?thesis
  proof (cases a)
    case (Reader i)
    then show ?thesis using assms(1) enter eff [of ar] eff [of aw] len ok nets
      by (auto simp: counts_def readers_in_def [symmetric] writers_in_def [symmetric])
        (auto simp: readers_in_def)
  next
    case (Writer i)
    then show ?thesis using assms(1) enter eff [of ar] eff [of aw] len ok nets
      by (auto simp: counts_def readers_in_def [symmetric] writers_in_def [symmetric])
        (auto simp: writers_in_def)
  qed
next
  case (leave a v)
  note eff = semop_effect [OF leave(3)] and len = semop_length [OF leave(3)]
    and ok = semop_ok [OF _ leave(3)]
  show ?thesis
  proof (cases a)
    case (Reader i)
    then have "i \<in> readers_in s" using leave by (simp add: readers_in_def)
    with assms(1) have "int (card (readers_in s) - Suc 0) = int (card (readers_in s)) - 1"
      by (intro int_card_pred) (simp_all add: counts_def)
    with \<open>i \<in> readers_in s\<close> show ?thesis using Reader assms(1) leave eff [of ar] eff [of aw] len ok nets
      by (auto simp: counts_def readers_in_def [symmetric] writers_in_def [symmetric])
  next
    case (Writer i)
    then have "i \<in> writers_in s" using leave by (simp add: writers_in_def)
    with assms(1) have "int (card (writers_in s) - Suc 0) = int (card (writers_in s)) - 1"
      by (intro int_card_pred) (simp_all add: counts_def)
    with \<open>i \<in> writers_in s\<close> show ?thesis using Writer assms(1) leave eff [of ar] eff [of aw] len ok nets
      by (auto simp: counts_def readers_in_def [symmetric] writers_in_def [symmetric])
  qed
qed

sublocale sys: invariant_system "rw_exec T" "rw_start v0" counts
  by unfold_locales (auto intro: counts_start counts_exec)

lemma reader_count: "reach (rw_exec T) (rw_start v0) s \<Longrightarrow> rw_sems s ! ar = int (card (readers_in s))"
  using sys.reach_inv by (auto simp: counts_def)

lemma writer_count: "reach (rw_exec T) (rw_start v0) s \<Longrightarrow> rw_sems s ! aw = int (card (writers_in s))"
  using sys.reach_inv by (auto simp: counts_def)

lemma no_readers:
  "reach (rw_exec T) (rw_start v0) s \<Longrightarrow> rw_sems s ! ar = 0 \<Longrightarrow> \<not> rw_in s (Reader i)"
  using sys.reach_inv [of s] by (auto simp: counts_def readers_in_def)

lemma no_writers:
  "reach (rw_exec T) (rw_start v0) s \<Longrightarrow> rw_sems s ! aw = 0 \<Longrightarrow> \<not> rw_in s (Writer i)"
  using sys.reach_inv [of s] by (auto simp: counts_def writers_in_def)

end


subsection \<open>Readers and writers exclude each other\<close>

locale rw_excl = rw_counters +
  assumes start_read_guard: "semop (t_start_read T) v = Done v' \<Longrightarrow> v ! aw = 0"
    and start_write_guard: "semop (t_start_write T) v = Done v' \<Longrightarrow> v ! ar = 0"
begin

lemma reader_writer_excl:
  "reach (rw_exec T) (rw_start v0) s \<Longrightarrow> rw_in s (Reader i) \<Longrightarrow> \<not> rw_in s (Writer j)"
proof (induction arbitrary: i j rule: reach.induct)
  case reach_init
  then show ?case by (simp add: rw_start_def)
next
  case (reach_step s e t)
  from reach_step.hyps(2) show ?case
  proof (cases rule: rw_exec_cases)
    case (enter a v)
    show ?thesis
    proof (cases a)
      case (Reader k)
      with enter have "rw_sems s ! aw = 0" by (auto intro: start_read_guard)
      with no_writers [OF reach_step.hyps(1)] Reader enter show ?thesis by auto
    next
      case (Writer k)
      with enter have "rw_sems s ! ar = 0" by (auto intro: start_write_guard)
      with no_readers [OF reach_step.hyps(1)] Writer enter reach_step.prems show ?thesis by auto
    qed
  next
    case (leave a v)
    with reach_step.IH reach_step.prems show ?thesis by (auto split: if_splits)
  qed
qed

text \<open>A reader that stays inside keeps every writer out, and the other way round.\<close>

lemma writer_waits:
  "reach (rw_exec T) (rw_start v0) s \<Longrightarrow> rw_in s (Reader i) \<Longrightarrow> rw_exec T s (Enter (Writer j)) = None"
  using sys.reach_inv [of s] start_write_guard
  by (auto simp: counts_def readers_in_def split: semresult.splits)

lemma reader_waits:
  "reach (rw_exec T) (rw_start v0) s \<Longrightarrow> rw_in s (Writer j) \<Longrightarrow> rw_exec T s (Enter (Reader i)) = None"
  using sys.reach_inv [of s] start_read_guard
  by (auto simp: counts_def writers_in_def split: semresult.splits)

end


subsection \<open>Writers exclude each other\<close>

text \<open>A binary semaphore \<open>bin\<close> that writers take and give back and readers leave alone.\<close>

locale ww_excl = rw_counters +
  fixes bin :: nat
  assumes start_write_bin: "net (t_start_write T) bin = - 1"
    and stop_write_bin: "net (t_stop_write T) bin = 1"
    and read_bin: "net (t_start_read T) bin = 0" "net (t_stop_read T) bin = 0"
    and v0_bin: "v0 ! bin = 1" "bin < length v0"
begin

lemma bin_balance:
  "reach (rw_exec T) (rw_start v0) s \<Longrightarrow> rw_sems s ! bin + int (card (writers_in s)) = 1"
proof (induction rule: reach.induct)
  case reach_init
  then show ?case by (simp add: rw_start_def writers_in_def v0_bin)
next
  case (reach_step s e t)
  have cs: "counts s" by (rule sys.reach_inv [OF reach_step.hyps(1)])
  have ct: "counts t" by (rule counts_exec [OF cs reach_step.hyps(2)])
  from reach_step.hyps(2) show ?case
  proof (cases rule: rw_exec_cases)
    case (enter a v)
    then show ?thesis
      using reach_step.IH cs ct semop_effect [OF enter(3), of bin] semop_effect [OF enter(3), of aw]
        start_write_bin read_bin nets
      by (cases a) (auto simp: counts_def)
  next
    case (leave a v)
    then show ?thesis
      using reach_step.IH cs ct semop_effect [OF leave(3), of bin] semop_effect [OF leave(3), of aw]
        stop_write_bin read_bin nets
      by (cases a) (auto simp: counts_def)
  qed
qed

lemma bin_nonneg: "reach (rw_exec T) (rw_start v0) s \<Longrightarrow> 0 \<le> rw_sems s ! bin"
proof -
  assume "reach (rw_exec T) (rw_start v0) s"
  then have "counts s" by (rule sys.reach_inv)
  then have "sem_ok (rw_sems s)" "bin < length (rw_sems s)" using v0_bin by (simp_all add: counts_def)
  then show ?thesis by (simp add: sem_ok_def)
qed

lemma writer_unique:
  assumes r: "reach (rw_exec T) (rw_start v0) s" and "rw_in s (Writer i)" and "rw_in s (Writer j)"
  shows "i = j"
proof -
  have "counts s" by (rule sys.reach_inv [OF r])
  then have fin: "finite (writers_in s)" by (simp add: counts_def)
  have "card (writers_in s) \<le> 1" using bin_balance [OF r] bin_nonneg [OF r] by linarith
  moreover have "{i, j} \<subseteq> writers_in s" using assms(2,3) by (simp add: writers_in_def)
  ultimately have "card {i, j} \<le> 1" using card_mono [OF fin, of "{i, j}"] by linarith
  then show ?thesis by (cases "i = j") auto
qed

lemma bin_free_iff:
  assumes r: "reach (rw_exec T) (rw_start v0) s"
  shows "rw_sems s ! bin = 0 \<longleftrightarrow> (\<exists>i. rw_in s (Writer i))"
proof -
  have "counts s" by (rule sys.reach_inv [OF r])
  then have fin: "finite (writers_in s)" by (simp add: counts_def)
  have "rw_sems s ! bin = 0 \<longleftrightarrow> card (writers_in s) = 1"
    using bin_balance [OF r] by linarith
  also have "\<dots> \<longleftrightarrow> writers_in s \<noteq> {}"
    using bin_balance [OF r] bin_nonneg [OF r] fin by (cases "card (writers_in s)") auto
  finally show ?thesis by (auto simp: writers_in_def)
qed

end

end
