(* ===== verification/Shm_Readwrite.thy ===== *)
theory Shm_Readwrite
  imports Rw_Lock
begin

section \<open>Readers and writers over shared memory\<close>

text \<open>
  Model of lab-shmemory/semaphore/wr.c: five readers and three writers, forked processes that
  share one \<^verbatim>\<open>int\<close>. The four tables of semaphore operations are those of the source; the
  processes are program counters over the statements of \<^verbatim>\<open>reader\<close> and
  \<^verbatim>\<open>writer\<close>. The call \<^verbatim>\<open>semop(sem_id, writer_release, 3)\<close> reads one entry past the end of
  the two-entry array. What lies there is the parameter \<open>after\<close>; as the next global of the source is the
  process's own \<^verbatim>\<open>flag\<close>, it may depend on whether the signal handler has cleared it.
\<close>

subsection \<open>Semaphore tables\<close>

definition WAITING_READERS :: nat where "WAITING_READERS = 0"
definition ACTIVE_READERS :: nat where "ACTIVE_READERS = 1"
definition ACTIVE_WRITER :: nat where "ACTIVE_WRITER = 2"
definition WAITING_WRITERS :: nat where "WAITING_WRITERS = 3"
definition BIN_WRITER :: nat where "BIN_WRITER = 4"

definition wr_reader_lock :: "sembuf list" where
  "wr_reader_lock = [sb WAITING_READERS 1, sb BIN_WRITER 0, sb WAITING_WRITERS 0,
     sb ACTIVE_READERS 1, sb WAITING_READERS (- 1)]"

definition wr_reader_release :: "sembuf list" where
  "wr_reader_release = [sb ACTIVE_WRITER 0, sb ACTIVE_READERS (- 1)]"

definition wr_writer_lock :: "sembuf list" where
  "wr_writer_lock = [sb WAITING_WRITERS 1, sb ACTIVE_READERS 0, sb BIN_WRITER (- 1),
     sb ACTIVE_WRITER 1, sb WAITING_WRITERS (- 1)]"

definition wr_writer_release :: "sembuf list" where
  "wr_writer_release = [sb ACTIVE_WRITER (- 1), sb BIN_WRITER 1]"

text \<open>The entries that \<^verbatim>\<open>stop_write\<close> passes: three, starting at the array.\<close>

definition wr_stop_write_ops :: "sembuf \<Rightarrow> sembuf list" where
  "wr_stop_write_ops after = take 3 (wr_writer_release @ [after])"

definition wr_tables :: "sembuf \<Rightarrow> rw_tables" where
  "wr_tables after = \<lparr>t_start_read = take 5 wr_reader_lock, t_stop_read = take 2 wr_reader_release,
     t_start_write = take 5 wr_writer_lock, t_stop_write = wr_stop_write_ops after\<rparr>"

lemmas wr_indices = WAITING_READERS_def ACTIVE_READERS_def ACTIVE_WRITER_def WAITING_WRITERS_def
  BIN_WRITER_def

lemmas wr_table_defs = wr_indices wr_tables_def wr_reader_lock_def wr_reader_release_def
  wr_writer_lock_def wr_writer_release_def wr_stop_write_ops_def

text \<open>
  Where the linker puts the next global, \<^verbatim>\<open>int flag\<close>, directly behind the twelve bytes of the array, a
  little-endian machine reads its low half as the number of the semaphore, 1 or, after a signal, 0, and its high
  half as operation 0: wait for that semaphore to be 0.
\<close>

definition wr_flag_entry :: "bool \<Rightarrow> sembuf" where
  "wr_flag_entry f = sb (if f then 1 else 0) 0"


subsection \<open>The processes\<close>

datatype wr_phase =
    WLoop | WAtStart | WInside | WGot int | WBumped int | WAtStop | WQuit int | WQuitInside int

record wr_sys =
  wr_sems :: "int list"
  wr_shm :: int
  wr_phase :: "rw_actor \<Rightarrow> wr_phase"
  wr_flag :: "rw_actor \<Rightarrow> bool"
  wr_printed :: "(rw_actor \<times> int) list"

datatype wr_event =
    WTest rw_actor | WStart rw_actor | WCompute rw_actor | WBump rw_actor | WPrint rw_actor
  | WStop rw_actor | WSigint rw_actor | WInterrupt rw_actor

definition wr_goto :: "rw_actor \<Rightarrow> wr_phase \<Rightarrow> wr_sys \<Rightarrow> wr_sys" where
  "wr_goto a p s = s\<lparr>wr_phase := (wr_phase s)(a := p)\<rparr>"

definition wr_sig_catch :: "rw_actor \<Rightarrow> wr_sys \<Rightarrow> wr_sys" where
  "wr_sig_catch a s = s\<lparr>wr_flag := (wr_flag s)(a := False)\<rparr>"

text \<open>\<^verbatim>\<open>'a' + (*shm - 1) % 26\<close> in the reader, \<^verbatim>\<open>'a' + *shm % 26\<close> in the writer.\<close>

fun wr_char :: "rw_actor \<Rightarrow> int \<Rightarrow> int" where
  "wr_char (Reader _) x = to_schar (97 + c_rem (x - 1) 26)"
| "wr_char (Writer _) x = to_schar (97 + c_rem x 26)"

fun wr_alive :: "wr_phase \<Rightarrow> bool" where
  "wr_alive (WQuit _) = False"
| "wr_alive (WQuitInside _) = False"
| "wr_alive _ = True"

fun wr_exec :: "(bool \<Rightarrow> sembuf) \<Rightarrow> wr_sys \<Rightarrow> wr_event \<Rightarrow> wr_sys option" where
  "wr_exec after s (WTest a) =
     (if wr_phase s a = WLoop then Some (wr_goto a (if wr_flag s a then WAtStart else WQuit 0) s)
      else None)"
| "wr_exec after s (WStart a) =
     (if wr_phase s a = WAtStart then
        (case semop (start_ops (wr_tables (after (wr_flag s a))) a) (wr_sems s) of
           Done v \<Rightarrow> Some (wr_goto a WInside (s\<lparr>wr_sems := v\<rparr>))
         | Sleep \<Rightarrow> None
         | Fail _ \<Rightarrow> Some (wr_goto a (WQuit 1) s))
      else None)"
| "wr_exec after s (WCompute a) =
     (if wr_phase s a = WInside then Some (wr_goto a (WGot (wr_char a (wr_shm s))) s) else None)"
| "wr_exec after s (WBump a) =
     (case (a, wr_phase s a) of
        (Writer _, WGot c) \<Rightarrow>
          (if is_c_int (wr_shm s + 1)
           then Some (wr_goto a (WBumped c) (s\<lparr>wr_shm := wr_shm s + 1\<rparr>)) else None)
      | _ \<Rightarrow> None)"
| "wr_exec after s (WPrint a) =
     (case (a, wr_phase s a) of
        (Reader _, WGot c) \<Rightarrow> Some (wr_goto a WAtStop (s\<lparr>wr_printed := wr_printed s @ [(a, c)]\<rparr>))
      | (Writer _, WBumped c) \<Rightarrow> Some (wr_goto a WAtStop (s\<lparr>wr_printed := wr_printed s @ [(a, c)]\<rparr>))
      | _ \<Rightarrow> None)"
| "wr_exec after s (WStop a) =
     (if wr_phase s a = WAtStop then
        (case semop (stop_ops (wr_tables (after (wr_flag s a))) a) (wr_sems s) of
           Done v \<Rightarrow> Some (wr_goto a WLoop (s\<lparr>wr_sems := v\<rparr>))
         | Sleep \<Rightarrow> None
         | Fail _ \<Rightarrow> Some (wr_goto a (WQuitInside 1) s))
      else None)"
| "wr_exec after s (WSigint a) = (if wr_alive (wr_phase s a) then Some (wr_sig_catch a s) else None)"
| "wr_exec after s (WInterrupt a) =
     (if wr_phase s a = WAtStart \<and> semop (start_ops (wr_tables (after (wr_flag s a))) a) (wr_sems s) = Sleep
      then Some (wr_goto a (WQuit 1) (wr_sig_catch a s))
      else if wr_phase s a = WAtStop \<and> semop (stop_ops (wr_tables (after (wr_flag s a))) a) (wr_sems s) = Sleep
      then Some (wr_goto a (WQuitInside 1) (wr_sig_catch a s))
      else None)"

text \<open>The semaphore values and the shared \<^verbatim>\<open>int\<close> that \<^verbatim>\<open>main\<close> sets before it forks.\<close>

definition wr_sems0 :: "int list" where
  "wr_sems0 = ((((([0, 0, 0, 0, 0] :: int list)[WAITING_READERS := 0])[ACTIVE_READERS := 0])
     [WAITING_WRITERS := 0])[ACTIVE_WRITER := 0])[BIN_WRITER := 1]"

definition wr_init :: wr_sys where
  "wr_init = \<lparr>wr_sems = wr_sems0, wr_shm = 0, wr_phase = (\<lambda>_. WLoop), wr_flag = (\<lambda>_. True),
     wr_printed = []\<rparr>"

lemma wr_sems0_eq [simp]: "wr_sems0 = [0, 0, 0, 0, 1]"
  by (simp add: wr_sems0_def wr_indices)


subsection \<open>The tables against the lock interface\<close>

text \<open>
  The lock that the tables make up when the entry behind \<^verbatim>\<open>writer_release\<close> changes nothing: the two entries of
  the array itself. Whenever the three of the call go through, these two do.
\<close>

definition wr_locks :: rw_tables where
  "wr_locks = \<lparr>t_start_read = wr_reader_lock, t_stop_read = wr_reader_release,
     t_start_write = wr_writer_lock, t_stop_write = wr_writer_release\<rparr>"

interpretation wr: ww_excl wr_locks ACTIVE_READERS ACTIVE_WRITER wr_sems0 BIN_WRITER
  by unfold_locales (simp_all add: wr_locks_def wr_table_defs sem_ok_def SEMVMX_def)

lemma wr_stop_done:
  assumes "sem_op x = 0" and "semop (wr_stop_write_ops x) v = Done v'"
  shows "semop wr_writer_release v = Done v'"
proof -
  have ops: "wr_stop_write_ops x = wr_writer_release @ [x]" by (simp add: wr_stop_write_ops_def wr_writer_release_def)
  have all: "sem_all (wr_writer_release @ [x]) v = Done v'" and
    fit: "\<not> list_ex (\<lambda>b. length v \<le> sem_num b) wr_writer_release"
    using assms(2) by (auto simp: ops semop_def split: if_splits)
  from all obtain u where u: "sem_all wr_writer_release v = Done u" "sem_try x u = Done v'"
    by (auto simp: sem_all_append split: semresult.splits)
  from u(2) assms(1) have "v' = u" by (auto simp: sem_try_def would_wait_def Let_def split: if_splits)
  with u(1) fit show ?thesis by (simp add: semop_def) (simp add: wr_writer_release_def)
qed

fun wr_inside :: "wr_phase \<Rightarrow> bool" where
  "wr_inside WInside = True"
| "wr_inside (WGot _) = True"
| "wr_inside (WBumped _) = True"
| "wr_inside WAtStop = True"
| "wr_inside (WQuitInside _) = True"
| "wr_inside _ = False"

definition wr_abst :: "wr_sys \<Rightarrow> rw_sys" where
  "wr_abst s = \<lparr>rw_sems = wr_sems s, rw_in = (\<lambda>a. wr_inside (wr_phase s a))\<rparr>"

lemma wr_goto_simps [simp]:
  "wr_sems (wr_goto a p s) = wr_sems s"
  "wr_shm (wr_goto a p s) = wr_shm s"
  "wr_flag (wr_goto a p s) = wr_flag s"
  "wr_printed (wr_goto a p s) = wr_printed s"
  "wr_phase (wr_goto a p s) = (wr_phase s)(a := p)"
  by (simp_all add: wr_goto_def)

lemma wr_abst_goto: "wr_abst (wr_goto a p s) = \<lparr>rw_sems = wr_sems s, rw_in = (rw_in (wr_abst s))(a := wr_inside p)\<rparr>"
  by (auto simp: wr_abst_def)

lemma wr_abst_sel [simp]:
  "rw_sems (wr_abst s) = wr_sems s" "rw_in (wr_abst s) a = wr_inside (wr_phase s a)"
  by (simp_all add: wr_abst_def)

lemma wr_abst_unchanged:
  "wr_inside p = wr_inside (wr_phase s a) \<Longrightarrow> wr_abst (wr_goto a p s) = wr_abst s"
  by (auto simp: wr_abst_def)

lemma wr_abst_cong:
  "wr_sems t = wr_sems s \<Longrightarrow> wr_phase t = wr_phase s \<Longrightarrow> wr_abst t = wr_abst s"
  by (simp add: wr_abst_def)

lemmas wr_take_tables [simp] =
  take_all [of wr_reader_lock 5, simplified wr_reader_lock_def, simplified]
  take_all [of wr_writer_lock 5, simplified wr_writer_lock_def, simplified]

lemma wr_tables_sel:
  "t_start_read (wr_tables x) = wr_reader_lock"
  "t_stop_read (wr_tables x) = wr_reader_release"
  "t_start_write (wr_tables x) = wr_writer_lock"
  "t_stop_write (wr_tables x) = wr_stop_write_ops x"
  by (simp_all add: wr_tables_def wr_reader_lock_def wr_reader_release_def wr_writer_lock_def)

lemma wr_start_same: "start_ops (wr_tables x) a = start_ops wr_locks a"
  by (cases a) (simp_all add: wr_tables_sel wr_locks_def)

lemma wr_stop_same:
  "sem_op x = 0 \<Longrightarrow> semop (stop_ops (wr_tables x) a) v = Done v' \<Longrightarrow> semop (stop_ops wr_locks a) v = Done v'"
  by (cases a) (simp_all add: wr_tables_sel wr_locks_def wr_stop_done)

lemma wr_step_abst:
  assumes after: "\<forall>f. sem_op (after f) = 0" and ex: "wr_exec after s e = Some t"
  shows "wr_abst t = wr_abst s \<or> (\<exists>f. rw_exec wr_locks (wr_abst s) f = Some (wr_abst t))"
proof (cases e)
  case (WStart a)
  have "wr_phase s a = WAtStart" using ex WStart by (simp split: if_splits)
  then show ?thesis using ex WStart
    by (auto split: semresult.splits if_splits simp: wr_abst_unchanged wr_start_same
        intro!: exI [of _ "Enter a"]) (auto simp: wr_abst_def)
next
  case (WStop a)
  have ph: "wr_phase s a = WAtStop" using ex WStop by (simp split: if_splits)
  show ?thesis
  proof (cases "semop (stop_ops (wr_tables (after (wr_flag s a))) a) (wr_sems s)")
    case (Done v)
    then have "semop (stop_ops wr_locks a) (wr_sems s) = Done v" using after wr_stop_same by blast
    then show ?thesis using ex WStop ph Done
      by (auto intro!: exI [of _ "Leave a"]) (auto simp: wr_abst_def)
  qed (use ex WStop ph in \<open>auto simp: wr_abst_unchanged\<close>)
qed (use ex in \<open>auto split: if_splits prod.splits rw_actor.splits wr_phase.splits
       simp: wr_abst_def wr_sig_catch_def fun_eq_iff\<close>)

lemma wr_simulation:
  assumes "\<forall>f. sem_op (after f) = 0"
  shows "simulation (wr_exec after) wr_init (\<lambda>_. True) (rw_exec wr_locks) (rw_start wr_sems0) wr_abst"
proof
  show "wr_abst wr_init = rw_start wr_sems0" by (simp add: wr_abst_def wr_init_def rw_start_def)
qed (simp_all add: wr_step_abst [OF assms])

lemma wr_flag_entry_zero: "\<forall>f. sem_op (wr_flag_entry f) = 0"
  by (simp add: wr_flag_entry_def)

interpretation wr_sim: simulation "wr_exec wr_flag_entry" wr_init "\<lambda>_. True"
    "rw_exec wr_locks" "rw_start wr_sems0" wr_abst
  by (rule wr_simulation [OF wr_flag_entry_zero])


subsection \<open>Consequences for the processes\<close>

lemma wr_one_writer:
  assumes "\<forall>f. sem_op (after f) = 0" and "reach (wr_exec after) wr_init s"
    and "wr_inside (wr_phase s (Writer i))" and "wr_inside (wr_phase s (Writer j))"
  shows "i = j"
  using wr.writer_unique [OF simulation.reach_abst [OF wr_simulation [OF assms(1)] assms(2)]] assms(3,4)
  by simp

lemma wr_reader_lock_guard: "semop wr_reader_lock v = Done v' \<Longrightarrow> v ! BIN_WRITER = 0"
  using semop_zero_guard [of "[sb WAITING_READERS 1]" "sb BIN_WRITER 0" _ v v']
  by (simp add: wr_reader_lock_def wr_indices)

lemma wr_reader_release_guard: "semop wr_reader_release v = Done v' \<Longrightarrow> v ! ACTIVE_WRITER = 0"
  using semop_zero_guard [of "[]" "sb ACTIVE_WRITER 0" _ v v']
  by (simp add: wr_reader_release_def)

lemma wr_stop_write_guard: "semop (wr_stop_write_ops (wr_flag_entry True)) v = Done v' \<Longrightarrow> v ! ACTIVE_READERS = 0"
  using semop_zero_guard [of wr_writer_release "wr_flag_entry True" "[]" v v']
  by (simp add: wr_stop_write_ops_def wr_writer_release_def wr_flag_entry_def wr_indices)

text \<open>
  With a reader and a writer inside, both counters stay positive and nobody gets out, as long as the writer has its
  \<^verbatim>\<open>flag\<close>.
\<close>

lemma wr_flag_kept: "wr_exec after s e = Some t \<Longrightarrow> wr_flag t a \<Longrightarrow> wr_flag s a"
  by (cases e) (auto split: if_splits semresult.splits rw_actor.splits wr_phase.splits simp: wr_sig_catch_def)

lemma wr_stuck_step:
  assumes r: "reach (wr_exec wr_flag_entry) wr_init s"
    and "wr_inside (wr_phase s (Reader i))" and "wr_inside (wr_phase s (Writer j))" and "wr_flag s (Writer j)"
    and ex: "wr_exec wr_flag_entry s e = Some t"
  shows "wr_inside (wr_phase t (Reader i)) \<and> wr_inside (wr_phase t (Writer j))"
proof -
  have r': "reach (rw_exec wr_locks) (rw_start wr_sems0) (wr_abst s)"
    by (rule wr_sim.reach_abst [OF r])
  have "wr_sems s ! ACTIVE_WRITER \<noteq> 0" using wr.no_writers [OF r', of j] assms(3) by auto
  moreover have "wr_sems s ! ACTIVE_READERS \<noteq> 0" using wr.no_readers [OF r', of i] assms(2) by auto
  ultimately have no: "semop wr_reader_release (wr_sems s) \<noteq> Done v"
    "semop (wr_stop_write_ops (wr_flag_entry (wr_flag s (Writer j)))) (wr_sems s) \<noteq> Done v" for v
    using assms(4) wr_reader_release_guard wr_stop_write_guard by auto
  show ?thesis
    using ex assms(2,3) no
    by (cases e) (auto split: if_splits semresult.splits rw_actor.splits wr_phase.splits
        simp: wr_sig_catch_def wr_tables_sel)
qed

lemma wr_stuck:
  assumes "reach (wr_exec wr_flag_entry) s t" and "reach (wr_exec wr_flag_entry) wr_init s"
    and "wr_inside (wr_phase s (Reader i))" and "wr_inside (wr_phase s (Writer j))"
  shows "wr_flag t (Writer j) \<Longrightarrow> wr_inside (wr_phase t (Reader i)) \<and> wr_inside (wr_phase t (Writer j))"
  using assms(1)
proof (induction rule: reach.induct)
  case reach_init
  show ?case using assms(3,4) by simp
next
  case (reach_step t e u)
  have f: "wr_flag t (Writer j)" by (rule wr_flag_kept [OF reach_step.hyps(2) reach_step.prems])
  from wr_stuck_step [OF reach_trans [OF reach_step.hyps(1) assms(2)] _ _ f reach_step.hyps(2)]
  show ?case using reach_step.IH [OF f] by blast
qed

text \<open>Nobody is counted as a waiting reader between two calls.\<close>

lemma wr_nobody_waits:
  "reach (rw_exec wr_locks) (rw_start wr_sems0) s \<Longrightarrow> rw_sems s ! WAITING_READERS = 0"
proof (induction rule: reach.induct)
  case reach_init
  show ?case by (simp add: rw_start_def wr_indices)
next
  case (reach_step s e t)
  from reach_step.hyps(2) show ?case
  proof (cases rule: rw_exec_cases)
    case (enter a v)
    with reach_step.IH semop_effect [OF enter(3), of WAITING_READERS] show ?thesis
      by (cases a) (simp_all add: wr_locks_def wr_table_defs)
  next
    case (leave a v)
    with reach_step.IH semop_effect [OF leave(3), of WAITING_READERS] show ?thesis
      by (cases a) (simp_all add: wr_locks_def wr_table_defs)
  qed
qed

text \<open>
  A writer whose \<^verbatim>\<open>flag\<close> is cleared before it calls \<^verbatim>\<open>stop_write\<close> waits for the waiting readers instead of the
  active ones, of which there are none, and leaves; the reader follows.
\<close>

lemma wr_release_done:
  assumes "length v = 5" and "v ! WAITING_READERS = 0" and "v ! ACTIVE_WRITER = 1" and "v ! BIN_WRITER = 0"
    and "1 \<le> v ! ACTIVE_READERS" and "v ! ACTIVE_READERS \<le> SEMVMX"
  shows "\<exists>u w. semop (wr_stop_write_ops (wr_flag_entry False)) v = Done u \<and> semop wr_reader_release u = Done w"
proof -
  obtain a b c d e where "v = [a, b, c, d, e]" using assms(1) by (auto simp: length_Suc_conv eval_nat_numeral)
  then show ?thesis using assms
    by (simp add: wr_table_defs wr_flag_entry_def semop_def sem_simps SEMVMX_def)
qed

lemma wr_signal_frees:
  assumes r: "reach (wr_exec wr_flag_entry) wr_init s"
    and rd: "wr_phase s (Reader i) = WAtStop" and wt: "wr_phase s (Writer j) = WAtStop"
  shows "\<exists>t. run (wr_exec wr_flag_entry) s [WSigint (Writer j), WStop (Writer j), WStop (Reader i)] = Some t \<and>
     wr_phase t (Reader i) = WLoop \<and> wr_phase t (Writer j) = WLoop"
proof -
  have r': "reach (rw_exec wr_locks) (rw_start wr_sems0) (wr_abst s)" by (rule wr_sim.reach_abst [OF r])
  note c = wr.sys.reach_inv [OF r', unfolded wr.counts_def]
  have w: "writers_in (wr_abst s) = {j}"
    using wr.writer_unique [OF r'] wt by (auto simp: writers_in_def)
  have "i \<in> readers_in (wr_abst s)" "finite (readers_in (wr_abst s))" using rd c by (auto simp: readers_in_def)
  then have "0 < card (readers_in (wr_abst s))" by (auto simp: card_gt_0_iff)
  then have ar: "1 \<le> wr_sems s ! ACTIVE_READERS" using wr.reader_count [OF r'] by simp
  have aw: "wr_sems s ! ACTIVE_WRITER = 1" using wr.writer_count [OF r'] w by simp
  have bin: "wr_sems s ! BIN_WRITER = 0" using wr.bin_balance [OF r'] w by simp
  have len: "length (wr_sems s) = 5" using c by simp
  then have "wr_sems s ! ACTIVE_READERS \<in> set (wr_sems s)" by (intro nth_mem) (simp add: wr_indices)
  then have "wr_sems s ! ACTIVE_READERS \<le> SEMVMX" using c by (simp add: sem_ok_def)
  from wr_release_done [OF len _ aw bin ar this] wr_nobody_waits [OF r']
  obtain u v where "semop (wr_stop_write_ops (wr_flag_entry False)) (wr_sems s) = Done u"
    "semop wr_reader_release u = Done v" by auto
  then show ?thesis using rd wt by (simp add: wr_sig_catch_def wr_tables_sel)
qed


subsection \<open>The letters of the writers\<close>

fun is_writer :: "rw_actor \<Rightarrow> bool" where
  "is_writer (Writer _) = True"
| "is_writer (Reader _) = False"

definition wr_written :: "wr_sys \<Rightarrow> int list" where
  "wr_written s = map snd (filter (\<lambda>(a, c). is_writer a) (wr_printed s))"

definition wr_letters_at :: "wr_sys \<Rightarrow> nat \<Rightarrow> bool" where
  "wr_letters_at s k \<longleftrightarrow> wr_written s = map letter [0..<k] \<and>
     (\<forall>j c. wr_phase s (Writer j) = WGot c \<longrightarrow> c = letter k \<and> wr_shm s = int k) \<and>
     (\<forall>j c. wr_phase s (Writer j) = WBumped c \<longrightarrow> c = letter k \<and> wr_shm s = int k + 1) \<and>
     ((\<forall>j c. wr_phase s (Writer j) \<noteq> WBumped c) \<longrightarrow> wr_shm s = int k)"

lemma wr_char_letter: "wr_char (Writer i) (int k) = letter k"
  using letter_lower [of k] by (simp add: letter_def c_rem_nonneg to_schar_id zmod_int)

lemma wr_letters_frame:
  assumes "wr_letters_at s k" and "wr_shm t = wr_shm s" and "wr_written t = wr_written s"
    and "\<And>j c. wr_phase t (Writer j) = WGot c \<Longrightarrow> wr_phase s (Writer j) = WGot c"
    and "\<And>j c. wr_phase t (Writer j) = WBumped c \<longleftrightarrow> wr_phase s (Writer j) = WBumped c"
  shows "wr_letters_at t k"
  using assms(1) unfolding wr_letters_at_def assms(2,3,5) by (blast dest: assms(4))

lemma wr_letters_move:
  assumes "wr_letters_at s k" and "wr_shm t = wr_shm s" and "wr_written t = wr_written s"
    and "wr_phase t = (wr_phase s)(a := p)" and "\<not> (\<exists>c. p = WGot c \<or> p = WBumped c)"
    and "\<not> (\<exists>c. wr_phase s a = WBumped c)"
  shows "wr_letters_at t k"
proof -
  have "wr_phase t x = WGot c \<Longrightarrow> wr_phase s x = WGot c" for x c
    using assms(4,5) by (auto split: if_splits)
  moreover have "wr_phase t x = WBumped c \<longleftrightarrow> wr_phase s x = WBumped c" for x c
    using assms(4-6) by auto
  ultimately show ?thesis by (intro wr_letters_frame [OF assms(1-3)])
qed

lemma wr_letters_step:
  assumes after: "\<forall>f. sem_op (after f) = 0" and r: "reach (wr_exec after) wr_init s"
    and at: "wr_letters_at s k" and ex: "wr_exec after s e = Some t"
  shows "\<exists>k. wr_letters_at t k"
proof -
  note one = wr_one_writer [OF after r]
  show ?thesis
  proof (cases e)
    case (WCompute a)
    then have ph: "wr_phase s a = WInside" and t: "t = wr_goto a (WGot (wr_char a (wr_shm s))) s"
      using ex by (auto split: if_splits)
    show ?thesis
    proof (cases a)
      case (Reader i)
      with at t show ?thesis
        by (intro exI [of _ k]) (simp add: wr_letters_at_def wr_written_def)
    next
      case (Writer i)
      have alone: "wr_phase s (Writer j) = WInside \<or> \<not> wr_inside (wr_phase s (Writer j))" for j
        using one [of i j] ph Writer by auto
      have nb: "wr_phase s (Writer j) \<noteq> WBumped c" for j c using alone [of j] by auto
      have ng: "wr_phase s (Writer j) \<noteq> WGot c" for j c using alone [of j] by auto
      from at nb have "wr_shm s = int k" by (simp add: wr_letters_at_def)
      with at t Writer nb ng wr_char_letter [of i k] show ?thesis
        by (intro exI [of _ k]) (auto simp: wr_letters_at_def wr_written_def)
    qed
  next
    case (WBump a)
    then obtain i c where a: "a = Writer i" and ph: "wr_phase s (Writer i) = WGot c"
      and t: "t = wr_goto a (WBumped c) (s\<lparr>wr_shm := wr_shm s + 1\<rparr>)"
      using ex by (auto split: rw_actor.splits wr_phase.splits if_splits)
    have "j \<noteq> i \<Longrightarrow> \<not> wr_inside (wr_phase s (Writer j))" for j
      using one [of i j] ph by auto
    then have "j \<noteq> i \<Longrightarrow> wr_phase s (Writer j) \<noteq> WGot d \<and> wr_phase s (Writer j) \<noteq> WBumped d" for j d
      by fastforce
    with at t a ph show ?thesis
      by (intro exI [of _ k]) (auto simp: wr_letters_at_def wr_written_def)
  next
    case (WPrint a)
    show ?thesis
    proof (cases a)
      case (Reader i)
      with ex WPrint show ?thesis
        by (intro exI [of _ k] wr_letters_frame [OF at])
          (auto split: wr_phase.splits simp: wr_written_def)
    next
      case (Writer i)
      then obtain c where ph: "wr_phase s (Writer i) = WBumped c"
        and t: "t = wr_goto a WAtStop (s\<lparr>wr_printed := wr_printed s @ [(a, c)]\<rparr>)"
        using ex WPrint by (auto split: wr_phase.splits)
      have "j \<noteq> i \<Longrightarrow> \<not> wr_inside (wr_phase s (Writer j))" for j
        using one [of i j] ph by auto
      then have "j \<noteq> i \<Longrightarrow> wr_phase s (Writer j) \<noteq> WGot d \<and> wr_phase s (Writer j) \<noteq> WBumped d" for j d
        by fastforce
      with at t Writer ph show ?thesis
        by (intro exI [of _ "Suc k"]) (auto simp: wr_letters_at_def wr_written_def)
    qed
  next
    case (WSigint a)
    with ex show ?thesis
      by (intro exI [of _ k] wr_letters_frame [OF at])
        (auto simp: wr_sig_catch_def wr_written_def split: if_splits)
  qed (use ex at in \<open>auto split: if_splits semresult.splits simp: wr_sig_catch_def wr_written_def
        intro!: exI [of _ k] intro: wr_letters_move\<close>)
qed

lemma wr_letters_reach:
  assumes "\<forall>f. sem_op (after f) = 0" and "reach (wr_exec after) wr_init s"
  shows "\<exists>k. wr_letters_at s k"
  using assms(2)
proof (induction rule: reach.induct)
  case reach_init
  show ?case by (intro exI [of _ 0]) (simp add: wr_letters_at_def wr_init_def wr_written_def)
next
  case (reach_step s e t)
  then show ?case using wr_letters_step [OF assms(1)] by blast
qed


subsection \<open>\<^verbatim>\<open>main\<close>: resources and exit status\<close>

text \<open>
  The answers of the system calls of \<^verbatim>\<open>main\<close>. An answer of \<^verbatim>\<open>fork\<close> in the parent is
  \<^term>\<open>None\<close> for a failure or the pid, written as a successor because it is not 0. The variable
  \<^verbatim>\<open>pid\<close> that both loop conditions test is not initialised: its first value is the field
  \<open>pid0\<close>.
\<close>

record wr_env =
  w_ftok_ok :: bool
  w_shmget_ok :: bool
  w_shmat_ok :: bool
  w_semget_ok :: bool
  w_setvals :: "bool list"
  w_pid0 :: int
  w_forks :: "nat option list"
  w_waits :: "(int \<times> wstatus) option list"
  w_shmdt_ok :: bool
  w_shm_rmid_ok :: bool
  w_sem_rmid_ok :: bool

fun wr_fork_loop :: "nat \<Rightarrow> int \<Rightarrow> nat option list \<Rightarrow> nat \<times> int \<times> nat option list \<times> bool" where
  "wr_fork_loop 0 pid fs = (0, pid, fs, True)"
| "wr_fork_loop (Suc n) pid fs =
     (if pid = 0 then (0, pid, fs, True)
      else case fs of
        [] \<Rightarrow> (0, - 1, [], False)
      | None # fs' \<Rightarrow> (0, - 1, fs', False)
      | Some p # fs' \<Rightarrow>
          (let (k, pid', rest, ok) = wr_fork_loop n (int (Suc p)) fs' in (Suc k, pid', rest, ok)))"

definition wr_main :: "wr_env \<Rightarrow> main_result" where
  "wr_main e =
     (let quit = (\<lambda>c n objs rs. \<lparr>exit_status = c, children = n, left_behind = objs, reports = rs\<rparr>);
          both = [SharedMemory, SemaphoreSet] in
      if \<not> w_ftok_ok e then quit 1 0 [] []
      else if \<not> w_shmget_ok e then quit 1 0 [] []
      else if \<not> w_shmat_ok e then quit 1 0 [SharedMemory] []
      else if \<not> w_semget_ok e then quit 1 0 [SharedMemory] []
      else if \<not> list_all id (take 5 (w_setvals e)) then quit 1 0 both []
      else
        let (r, pid1, fs1, ok1) = wr_fork_loop 5 (w_pid0 e) (w_forks e) in
        if \<not> ok1 then quit 1 r both []
        else
          let (w, pid2, fs2, ok2) = wr_fork_loop 3 pid1 fs1 in
          if \<not> ok2 then quit 1 (r + w) both []
          else
            let (ok3, rs) = wait_loop 8 (w_waits e) in
            if \<not> ok3 then quit 1 (r + w) both rs
            else if \<not> w_shmdt_ok e then quit 1 (r + w) both rs
            else if \<not> w_shm_rmid_ok e then quit 1 (r + w) both rs
            else if \<not> w_sem_rmid_ok e then quit 1 (r + w) [SemaphoreSet] rs
            else quit 0 (r + w) [] rs)"

lemma wr_fork_loop_pid0: "wr_fork_loop n 0 fs = (0, 0, fs, True)"
  by (cases n) simp_all

lemma wr_fork_loop_bound:
  "wr_fork_loop n pid fs = (k, pid', rest, ok) \<Longrightarrow> k \<le> n \<and> (ok \<and> pid \<noteq> 0 \<longrightarrow> k = n \<and> pid' \<noteq> 0)"
  by (induction n pid fs arbitrary: k rule: wr_fork_loop.induct)
    (auto simp: Let_def split: if_splits list.splits option.splits prod.splits)


subsection \<open>Schedules\<close>

lemma wr_init_sel [simp]:
  "wr_sems wr_init = [0, 0, 0, 0, 1]" "wr_shm wr_init = 0" "wr_phase wr_init a = WLoop"
  "wr_flag wr_init a" "wr_printed wr_init = []"
  by (simp_all add: wr_init_def)

lemma wr_semop_eval:
  "semop wr_writer_lock [0, 0, 0, 0, 1] = Done [0, 0, 1, 0, 0]"
  "semop wr_reader_lock [0, 0, 1, 0, 0] = Done [0, 1, 1, 0, 0]"
  "semop wr_writer_lock [0, 0, 1, 0, 0] = Sleep"
  "semop wr_reader_lock [0, 0, 0, 0, 1] = Sleep"
  "semop (wr_stop_write_ops (wr_flag_entry f)) [0, 0, 1, 0, 0] = Done [0, 0, 0, 0, 1]"
  by (simp_all add: wr_table_defs wr_flag_entry_def semop_def sem_simps SEMVMX_def)

lemma wr_stuck_eval:
  "semop (wr_stop_write_ops (wr_flag_entry True)) [0, 1, 1, 0, 0] = Sleep"
  "semop wr_reader_release [0, 1, 1, 0, 0] = Sleep"
  by (simp_all add: wr_table_defs wr_flag_entry_def semop_def sem_simps SEMVMX_def)

definition wr_both_schedule :: "wr_event list" where
  "wr_both_schedule = [WTest (Writer 0), WStart (Writer 0), WTest (Reader 0), WStart (Reader 0)]"

lemma wr_both_inside:
  "\<exists>s. run (wr_exec after) wr_init wr_both_schedule = Some s \<and>
     wr_phase s (Writer 0) = WInside \<and> wr_phase s (Reader 0) = WInside \<and> wr_shm s = 0 \<and> wr_printed s = []"
  by (simp add: wr_both_schedule_def wr_tables_sel wr_semop_eval)


subsection \<open>Properties\<close>

text \<open>C13: At most one writer is between \<^verbatim>\<open>start_write\<close> and \<^verbatim>\<open>stop_write\<close>, provided that the bytes behind
  \<^verbatim>\<open>writer_release\<close>, which \<^verbatim>\<open>stop_write\<close> passes as a third entry, do not make an entry that changes a semaphore,
  whatever the value of \<^verbatim>\<open>flag\<close>. Where \<^verbatim>\<open>flag\<close> itself lies behind the array they do not.\<close>

theorem wr_writers_exclude:
  assumes "\<forall>f. sem_op (after f) = 0" and "reach (wr_exec after) wr_init s"
    and "wr_inside (wr_phase s (Writer i))" and "wr_inside (wr_phase s (Writer j))"
  shows "i = j"
  using wr_one_writer [OF assms] .

theorem wr_writers_exclude_witness:
  "\<exists>s. run (wr_exec wr_flag_entry) wr_init wr_both_schedule = Some s \<and>
     wr_inside (wr_phase s (Writer 0)) \<and> \<not> wr_inside (wr_phase s (Writer 1))"
proof -
  obtain s where s: "run (wr_exec wr_flag_entry) wr_init wr_both_schedule = Some s"
    "wr_inside (wr_phase s (Writer 0))" using wr_both_inside [of wr_flag_entry] by auto
  from wr_writers_exclude [OF wr_flag_entry_zero run_reach_init [OF s(1)] s(2), of 1] s show ?thesis by auto
qed

text \<open>The test of BIN_WRITER in \<^verbatim>\<open>reader_lock\<close> is the wrong way round: a reader can
  only enter while a writer is inside, never when the memory is free.\<close>

theorem wr_reader_needs_writer:
  assumes "reach (wr_exec wr_flag_entry) wr_init s"
    and "wr_exec wr_flag_entry s (WStart (Reader i)) = Some t" and "wr_phase t (Reader i) = WInside"
  shows "\<exists>j. wr_inside (wr_phase s (Writer j))"
proof -
  have "wr_sems s ! BIN_WRITER = 0"
    using assms(2,3) by (auto split: if_splits semresult.splits simp: wr_tables_sel
        dest: wr_reader_lock_guard)
  with wr.bin_free_iff [OF wr_sim.reach_abst [OF assms(1)]] show ?thesis by simp
qed

theorem wr_reader_needs_writer_witness:
  "\<exists>s t. run (wr_exec wr_flag_entry) wr_init [WTest (Writer 0), WStart (Writer 0), WTest (Reader 0)] = Some s \<and>
     wr_exec wr_flag_entry s (WStart (Reader 0)) = Some t \<and> (\<exists>j. wr_inside (wr_phase s (Writer j)))"
proof -
  have "\<exists>s t. run (wr_exec wr_flag_entry) wr_init [WTest (Writer 0), WStart (Writer 0), WTest (Reader 0)] = Some s \<and>
     wr_exec wr_flag_entry s (WStart (Reader 0)) = Some t \<and> wr_phase t (Reader 0) = WInside"
    by (simp add: wr_tables_sel wr_semop_eval)
  then obtain s t where "run (wr_exec wr_flag_entry) wr_init
      [WTest (Writer 0), WStart (Writer 0), WTest (Reader 0)] = Some s"
    "wr_exec wr_flag_entry s (WStart (Reader 0)) = Some t" "wr_phase t (Reader 0) = WInside" by blast
  with wr_reader_needs_writer [OF run_reach_init] show ?thesis by blast
qed

text \<open>C18: Where \<^verbatim>\<open>flag\<close> lies behind \<^verbatim>\<open>writer_release\<close>: once a reader and a writer are inside together, they stay
  there as long as the writer's \<^verbatim>\<open>flag\<close> is set, each waiting in its release for the other to leave, whatever anybody
  does. A SIGINT that reaches the writer before it calls \<^verbatim>\<open>stop_write\<close> changes the entry that the call reads, and then
  both can leave.\<close>

theorem wr_deadlock:
  assumes "reach (wr_exec wr_flag_entry) wr_init s"
    and "wr_inside (wr_phase s (Reader i))" and "wr_inside (wr_phase s (Writer j))"
  shows "(\<forall>t. reach (wr_exec wr_flag_entry) s t \<and> wr_flag t (Writer j) \<longrightarrow>
        wr_inside (wr_phase t (Reader i)) \<and> wr_inside (wr_phase t (Writer j))) \<and>
     (wr_phase s (Reader i) = WAtStop \<and> wr_phase s (Writer j) = WAtStop \<longrightarrow>
        (\<exists>t. run (wr_exec wr_flag_entry) s [WSigint (Writer j), WStop (Writer j), WStop (Reader i)] = Some t \<and>
           wr_phase t (Reader i) = WLoop \<and> wr_phase t (Writer j) = WLoop))"
  using wr_stuck [OF _ assms] wr_signal_frees [OF assms(1)] by blast

definition wr_wait_schedule :: "wr_event list" where
  "wr_wait_schedule = wr_both_schedule @
     [WCompute (Writer 0), WBump (Writer 0), WPrint (Writer 0), WCompute (Reader 0), WPrint (Reader 0)]"

theorem wr_deadlock_witness:
  "\<exists>s t. run (wr_exec wr_flag_entry) wr_init wr_wait_schedule = Some s \<and>
     wr_exec wr_flag_entry s (WStop (Reader 0)) = None \<and> wr_exec wr_flag_entry s (WStop (Writer 0)) = None \<and>
     wr_inside (wr_phase s (Reader 0)) \<and> wr_inside (wr_phase s (Writer 0)) \<and>
     run (wr_exec wr_flag_entry) s [WSigint (Writer 0), WStop (Writer 0), WStop (Reader 0)] = Some t \<and>
     wr_phase t (Reader 0) = WLoop \<and> wr_phase t (Writer 0) = WLoop"
proof -
  have "\<exists>s. run (wr_exec wr_flag_entry) wr_init wr_wait_schedule = Some s \<and> wr_phase s (Writer 0) = WAtStop \<and>
     wr_phase s (Reader 0) = WAtStop \<and> wr_exec wr_flag_entry s (WStop (Reader 0)) = None \<and>
     wr_exec wr_flag_entry s (WStop (Writer 0)) = None"
    by (simp add: wr_wait_schedule_def wr_both_schedule_def wr_tables_sel wr_semop_eval wr_stuck_eval is_c_int_def
        INT_MIN_def INT_MAX_def)
  then obtain s where s: "run (wr_exec wr_flag_entry) wr_init wr_wait_schedule = Some s"
    "wr_phase s (Writer 0) = WAtStop" "wr_phase s (Reader 0) = WAtStop"
    "wr_exec wr_flag_entry s (WStop (Reader 0)) = None" "wr_exec wr_flag_entry s (WStop (Writer 0)) = None" by blast
  moreover have "wr_inside (wr_phase s (Reader 0))" "wr_inside (wr_phase s (Writer 0))" using s(2,3) by simp_all
  ultimately show ?thesis using wr_deadlock [OF run_reach_init [OF s(1)], of 0 0] by blast
qed

text \<open>The writers print the letters of the alphabet in cyclic order, none lost or repeated.\<close>

theorem wr_writer_letters:
  assumes "\<forall>f. sem_op (after f) = 0" and "reach (wr_exec after) wr_init s"
  shows "wr_written s = map letter [0..<length (wr_written s)]"
  using wr_letters_reach [OF assms] by (auto simp: wr_letters_at_def)

theorem wr_writer_letters_witness:
  "\<exists>s. run (wr_exec wr_flag_entry) wr_init
       [WTest (Writer 0), WStart (Writer 0), WCompute (Writer 0), WBump (Writer 0), WPrint (Writer 0)] = Some s \<and>
     wr_written s = [97] \<and> wr_written s = map letter [0..<length (wr_written s)]"
proof -
  have "\<exists>s. run (wr_exec wr_flag_entry) wr_init
       [WTest (Writer 0), WStart (Writer 0), WCompute (Writer 0), WBump (Writer 0), WPrint (Writer 0)] = Some s \<and>
     wr_written s = [97]"
    by (simp add: wr_tables_sel wr_semop_eval is_c_int_def INT_MIN_def INT_MAX_def wr_written_def
        c_rem_nonneg to_schar_id)
  then obtain s where s: "run (wr_exec wr_flag_entry) wr_init
       [WTest (Writer 0), WStart (Writer 0), WCompute (Writer 0), WBump (Writer 0), WPrint (Writer 0)] = Some s"
    "wr_written s = [97]" by blast
  from wr_writer_letters [OF wr_flag_entry_zero run_reach_init [OF s(1)]] s show ?thesis by blast
qed

text \<open>A reader can print a character that no writer has written: the back quote, code 96,
  because \<^verbatim>\<open>(*shm - 1) % 26\<close> is -1 before the first increment.\<close>

theorem wr_reader_backquote:
  "map_option wr_printed (run (wr_exec after) wr_init
     (wr_both_schedule @ [WCompute (Reader 0), WPrint (Reader 0)])) = Some [(Reader 0, 96)]"
  by (simp add: wr_both_schedule_def wr_tables_sel wr_semop_eval c_rem_def to_schar_def
      signed_modulo_int_def sgn_if)

text \<open>The entry read behind the array matters: if it adds 1 to BIN_WRITER, two writers get
  inside together after the first round of one of them.\<close>

theorem wr_release_overread:
  "\<exists>s. reach (wr_exec (\<lambda>_. sb BIN_WRITER 1)) wr_init s \<and>
     wr_inside (wr_phase s (Writer 0)) \<and> wr_inside (wr_phase s (Writer 1))"
proof -
  have "\<exists>s. run (wr_exec (\<lambda>_. sb BIN_WRITER 1)) wr_init
     [WTest (Writer 0), WStart (Writer 0), WCompute (Writer 0), WBump (Writer 0), WPrint (Writer 0),
      WStop (Writer 0), WTest (Writer 0), WStart (Writer 0), WTest (Writer 1), WStart (Writer 1)] = Some s \<and>
     wr_inside (wr_phase s (Writer 0)) \<and> wr_inside (wr_phase s (Writer 1))"
    by (simp add: wr_table_defs semop_def sem_simps SEMVMX_def is_c_int_def INT_MIN_def INT_MAX_def)
  then show ?thesis using run_reach_init [of "wr_exec (\<lambda>_. sb BIN_WRITER 1)" wr_init] by blast
qed

text \<open>\<^verbatim>\<open>main\<close> creates at most eight children, and none at all when its uninitialised
  \<^verbatim>\<open>pid\<close> happens to be 0; it ends with status 0 exactly when it leaves no IPC object
  behind after having created one.\<close>

theorem wr_main_outcome:
  "children (wr_main e) \<le> (if w_pid0 e = 0 then 0 else 8) \<and>
   (exit_status (wr_main e) = 0 \<longleftrightarrow>
      left_behind (wr_main e) = [] \<and> w_ftok_ok e \<and> w_shmget_ok e) \<and>
   (exit_status (wr_main e) = 0 \<or> exit_status (wr_main e) = 1)"
proof -
  obtain r pid1 fs1 ok1 where l1: "wr_fork_loop 5 (w_pid0 e) (w_forks e) = (r, pid1, fs1, ok1)"
    by (cases "wr_fork_loop 5 (w_pid0 e) (w_forks e)") simp
  obtain w pid2 fs2 ok2 where l2: "wr_fork_loop 3 pid1 fs1 = (w, pid2, fs2, ok2)"
    by (cases "wr_fork_loop 3 pid1 fs1") simp
  obtain ok3 rs where l3: "wait_loop 8 (w_waits e) = (ok3, rs)"
    by (cases "wait_loop 8 (w_waits e)") simp
  have n: "(if ok1 then r + w else r) \<le> (if w_pid0 e = 0 then 0 else 8)"
    using l1 l2 wr_fork_loop_bound [OF l1] wr_fork_loop_bound [OF l2] by (auto simp: wr_fork_loop_pid0)
  have "children (wr_main e) \<le> (if ok1 then r + w else r)"
    by (simp add: wr_main_def Let_def l1 l2 l3)
  moreover have "exit_status (wr_main e) = 0 \<longleftrightarrow>
      left_behind (wr_main e) = [] \<and> w_ftok_ok e \<and> w_shmget_ok e"
    by (simp add: wr_main_def Let_def l1 l2 l3)
  moreover have "exit_status (wr_main e) = 0 \<or> exit_status (wr_main e) = 1"
    by (simp add: wr_main_def Let_def l1 l2 l3)
  ultimately show ?thesis using n by simp
qed

end
