(* ===== verification/Rpc_Prodcons.thy ===== *)
theory Rpc_Prodcons
  imports Sysv_Sem Fifo_Spec
begin

section \<open>The producer/consumer server over RPC\<close>

text \<open>
  Model of lab-rpc/prodcons: the service routine, the threads it starts and the polling client.
  The server keeps a \<^verbatim>\<open>char\<close> array of \<^verbatim>\<open>BUFFER_SIZE\<close> = 29 cells: the two cursors, the next
  letter, and a ring of 26. A client registers with a negative index, a detached thread
  then produces or consumes for it, and the client polls \<^verbatim>\<open>resultBuffer\<close> for the outcome.
\<close>

subsection \<open>Constants and tables\<close>

definition MAX_CNT_CLNT :: nat where "MAX_CNT_CLNT = 1024 * 1024"
definition BUFFER_SIZE :: nat where "BUFFER_SIZE = 26 + 3"
definition CONSUMER :: int where "CONSUMER = 99"
definition PRODUCER :: int where "PRODUCER = 112"

definition rp_SE :: nat where "rp_SE = 0"
definition rp_SF :: nat where "rp_SF = 1"
definition rp_SB :: nat where "rp_SB = 2"

definition rp_producer_lock :: "sembuf list" where
  "rp_producer_lock = [sb rp_SE (- 1), sb rp_SB (- 1)]"

definition rp_producer_release :: "sembuf list" where
  "rp_producer_release = [sb rp_SB 1, sb rp_SF 1]"

definition rp_consumer_lock :: "sembuf list" where
  "rp_consumer_lock = [sb rp_SF (- 1), sb rp_SB (- 1)]"

definition rp_consumer_release :: "sembuf list" where
  "rp_consumer_release = [sb rp_SB 1, sb rp_SE 1]"

lemmas rp_tables = rp_SE_def rp_SF_def rp_SB_def rp_producer_lock_def rp_producer_release_def
  rp_consumer_lock_def rp_consumer_release_def


subsection \<open>The critical sections as whole operations\<close>

text \<open>
  The bodies of \<^verbatim>\<open>producer\<close> and \<^verbatim>\<open>consumer\<close> between their two \<^verbatim>\<open>semop\<close> calls, on the array.
  Both return the character they leave in \<^verbatim>\<open>resultBuffer\<close>. A dash in the text below is the
  code 45.
\<close>

definition rp_sid :: "int \<Rightarrow> nat" where
  "rp_sid c = nat (c_rem c (int BUFFER_SIZE - 3))"

definition rp_next :: "int \<Rightarrow> int" where
  "rp_next c = to_schar (c_rem (c + 1) (int BUFFER_SIZE - 3))"

definition rp_put :: "int list \<Rightarrow> int list \<times> int" where
  "rp_put b =
     (let sid = rp_sid (b ! 0); ch = b ! 2;
          b1 = b[3 + sid := ch];
          b2 = b1[2 := to_schar (b1 ! 2 + 1)];
          b3 = b2[0 := rp_next (b2 ! 0)]
      in (b3, b1 ! (3 + sid)))"

definition rp_get :: "int list \<Rightarrow> int list \<times> int" where
  "rp_get b =
     (let sid = rp_sid (b ! 1); ch = b ! (3 + sid);
          b1 = b[3 + sid := 0];
          b2 = b1[1 := rp_next (b1 ! 1)]
      in (b2, ch))"

text \<open>The array that \<^verbatim>\<open>init\<close> prepares.\<close>

definition rp_buf0 :: "int list" where
  "rp_buf0 = (((replicate BUFFER_SIZE 0)[0 := 0])[1 := 0])[2 := 97]"

definition rp_buf_ok :: "int list \<Rightarrow> bool" where
  "rp_buf_ok b \<longleftrightarrow> length b = 29 \<and> 0 \<le> b ! 0 \<and> b ! 0 < 26 \<and> 0 \<le> b ! 1 \<and> b ! 1 < 26"

lemma rp_cursor:
  "0 \<le> c \<Longrightarrow> c < 26 \<Longrightarrow> rp_sid c = nat c \<and> rp_next c = (c + 1) mod 26"
proof -
  assume c: "0 \<le> c" "c < 26"
  have "0 \<le> (c + 1) mod 26" "(c + 1) mod 26 < 26" by simp_all
  then have "to_schar ((c + 1) mod 26) = (c + 1) mod 26" by (intro to_schar_id) linarith+
  with c show ?thesis by (simp add: rp_sid_def rp_next_def BUFFER_SIZE_def c_rem_nonneg)
qed

lemma rp_sid_bound:
  assumes "rp_buf_ok b"
  shows "length b = 29" "rp_sid (b ! 0) < 26" "rp_sid (b ! 1) < 26"
proof -
  show "length b = 29" using assms by (simp add: rp_buf_ok_def)
  have "0 \<le> b ! 0" "b ! 0 < 26" "0 \<le> b ! 1" "b ! 1 < 26" using assms by (simp_all add: rp_buf_ok_def)
  with rp_cursor [of "b ! 0"] rp_cursor [of "b ! 1"]
  show "rp_sid (b ! 0) < 26" "rp_sid (b ! 1) < 26" by linarith+
qed

lemma rp_buf0_ok: "rp_buf_ok rp_buf0"
  by (simp add: rp_buf_ok_def rp_buf0_def BUFFER_SIZE_def)

lemma rp_put_ok: "rp_buf_ok b \<Longrightarrow> rp_buf_ok (fst (rp_put b))"
  using rp_cursor [of "b ! 0"]
  by (simp add: rp_buf_ok_def rp_put_def Let_def nth_list_update)

lemma rp_get_ok: "rp_buf_ok b \<Longrightarrow> rp_buf_ok (fst (rp_get b))"
  using rp_cursor [of "b ! 1"]
  by (simp add: rp_buf_ok_def rp_get_def Let_def nth_list_update)


subsection \<open>The ring is a bounded buffer of capacity 26\<close>

text \<open>
  With the number \<open>n\<close> of items it holds added, the ring reads as the list of the cells from
  the read cursor on.
\<close>

definition rp_cell :: "int list \<Rightarrow> nat \<Rightarrow> int" where
  "rp_cell b i = b ! (3 + (nat (b ! 1) + i) mod 26)"

definition rp_contents :: "int list \<times> nat \<Rightarrow> int list" where
  "rp_contents bn = map (rp_cell (fst bn)) [0..<snd bn]"

definition rp_ring_ok :: "int list \<times> nat \<Rightarrow> bool" where
  "rp_ring_ok bn \<longleftrightarrow> rp_buf_ok (fst bn) \<and> snd bn \<le> 26 \<and>
     nat (fst bn ! 0) = (nat (fst bn ! 1) + snd bn) mod 26"

definition rp_put_n :: "int list \<times> nat \<Rightarrow> (int list \<times> nat) \<times> int" where
  "rp_put_n bn = (let (b, x) = rp_put (fst bn) in ((b, snd bn + 1), x))"

definition rp_get_n :: "int list \<times> nat \<Rightarrow> (int list \<times> nat) \<times> int" where
  "rp_get_n bn = (let (b, x) = rp_get (fst bn) in ((b, snd bn - 1), x))"

lemma mod_26_distinct: "i < n \<Longrightarrow> n < 26 \<Longrightarrow> (r + i) mod 26 \<noteq> (r + n) mod (26 :: nat)"
  using mod_eq_dvd_iff_nat [of "r + i" "r + n" 26] nat_dvd_not_less [of "n - i" 26] by auto

lemma rp_put_cells:
  assumes "rp_ring_ok (b, n)" and "n < 26"
  shows "rp_put b = (b', x) \<Longrightarrow> i < n \<Longrightarrow> rp_cell b' i = rp_cell b i"
    and "rp_put b = (b', x) \<Longrightarrow> rp_cell b' n = x"
    and "rp_put b = (b', x) \<Longrightarrow> rp_ring_ok (b', Suc n)"
proof -
  have ok: "rp_buf_ok b" and w: "nat (b ! 0) = (nat (b ! 1) + n) mod 26"
    using assms(1) by (simp_all add: rp_ring_ok_def)
  have c: "rp_sid (b ! 0) = nat (b ! 0)" "rp_next (b ! 0) = (b ! 0 + 1) mod 26"
    using rp_cursor [of "b ! 0"] ok by (simp_all add: rp_buf_ok_def)
  have len: "length b = 29" using ok by (simp add: rp_buf_ok_def)
  {
    assume p: "rp_put b = (b', x)"
    then have b': "b' = b[3 + nat (b ! 0) := b ! 2, 2 := to_schar (b ! 2 + 1), 0 := (b ! 0 + 1) mod 26]"
      and x: "x = b ! 2"
      using c len w by (auto simp: rp_put_def Let_def)
    show "rp_cell b' n = x"
      using w len by (simp add: rp_cell_def b' x nth_list_update)
    show "i < n \<Longrightarrow> rp_cell b' i = rp_cell b i"
      using w len mod_26_distinct [of i n "nat (b ! 1)"] assms(2)
      by (simp add: rp_cell_def b' nth_list_update)
    have "nat ((b ! 0 + 1) mod 26) = (nat (b ! 0) + 1) mod 26"
      using ok by (simp add: rp_buf_ok_def nat_mod_distrib nat_add_distrib)
    also have "\<dots> = (nat (b ! 1) + Suc n) mod 26" unfolding w by presburger
    finally show "rp_ring_ok (b', Suc n)"
      using rp_put_ok [OF ok] p assms(2) len by (simp add: rp_ring_ok_def b')
  }
qed

lemma rp_get_cells:
  assumes "rp_ring_ok (b, Suc n)"
  shows "rp_get b = (b', x) \<Longrightarrow> i < n \<Longrightarrow> rp_cell b' i = rp_cell b (Suc i)"
    and "rp_get b = (b', x) \<Longrightarrow> x = rp_cell b 0"
    and "rp_get b = (b', x) \<Longrightarrow> rp_ring_ok (b', n)"
proof -
  have ok: "rp_buf_ok b" and w: "nat (b ! 0) = (nat (b ! 1) + Suc n) mod 26" and n: "n < 26"
    using assms by (simp_all add: rp_ring_ok_def)
  have c: "rp_sid (b ! 1) = nat (b ! 1)" "rp_next (b ! 1) = (b ! 1 + 1) mod 26"
    and r: "nat (b ! 1) < 26"
    using rp_cursor [of "b ! 1"] ok by (auto simp: rp_buf_ok_def)
  have len: "length b = 29" using ok by (simp add: rp_buf_ok_def)
  have nx: "nat ((b ! 1 + 1) mod 26) = (nat (b ! 1) + 1) mod 26"
    using ok by (simp add: rp_buf_ok_def nat_mod_distrib nat_add_distrib)
  {
    assume p: "rp_get b = (b', x)"
    then have b': "b' = b[3 + nat (b ! 1) := 0, 1 := (b ! 1 + 1) mod 26]"
      and x: "x = b ! (3 + nat (b ! 1))"
      using c len by (auto simp: rp_get_def Let_def)
    show "x = rp_cell b 0" using r by (simp add: rp_cell_def x)
    show "rp_cell b' i = rp_cell b (Suc i)" if "i < n"
    proof -
      have "((nat (b ! 1) + 1) mod 26 + i) mod 26 = (nat (b ! 1) + Suc i) mod 26" by presburger
      moreover have "(nat (b ! 1) + Suc i) mod 26 \<noteq> nat (b ! 1)"
        using mod_26_distinct [of 0 "Suc i" "nat (b ! 1)"] that n r by simp
      ultimately show ?thesis using len r by (simp add: rp_cell_def b' nx nth_list_update del: One_nat_def)
    qed
    have "(nat (b ! 1) + Suc n) mod 26 = ((nat (b ! 1) + 1) mod 26 + n) mod 26" by presburger
    then show "rp_ring_ok (b', n)"
      using rp_get_ok [OF ok] p n len w nx by (simp add: rp_ring_ok_def b')
  }
qed

interpretation rp_ring: bounded_buffer rp_put_n rp_get_n rp_contents rp_ring_ok 26
proof
  fix bn bn' :: "int list \<times> nat" and x
  obtain b n where bn: "bn = (b, n)" by (cases bn)
  {
    assume ok: "rp_ring_ok bn" and room: "length (rp_contents bn) < 26" and p: "rp_put_n bn = (bn', x)"
    obtain b' where b': "rp_put b = (b', x)" "bn' = (b', Suc n)"
      using p by (auto simp: rp_put_n_def bn split: prod.splits)
    have n: "n < 26" using room by (simp add: rp_contents_def bn)
    note cells = rp_put_cells [OF ok [unfolded bn] n]
    show "rp_contents bn' = rp_contents bn @ [x]"
      using cells(1,2) [OF b'(1)] by (simp add: rp_contents_def bn b'(2))
    show "rp_ring_ok bn'" using cells(3) [OF b'(1)] by (simp add: b'(2))
  }
  {
    assume ok: "rp_ring_ok bn" and item: "rp_contents bn \<noteq> []" and g: "rp_get_n bn = (bn', x)"
    obtain m where m: "n = Suc m" using item by (cases n) (auto simp: rp_contents_def bn)
    obtain b' where b': "rp_get b = (b', x)" "bn' = (b', m)"
      using g by (auto simp: rp_get_n_def bn m split: prod.splits)
    note cells = rp_get_cells [OF ok [unfolded bn m]]
    have "map (rp_cell b) [0..<Suc m] = x # map (rp_cell b') [0..<m]"
      using cells(1,2) [OF b'(1)] by (simp add: upt_conv_Cons map_Suc_upt [symmetric] del: upt_Suc)
    then show "rp_contents bn = x # rp_contents bn'"
      by (simp only: rp_contents_def bn b'(2) m fst_conv snd_conv)
    show "rp_ring_ok bn'" using cells(3) [OF b'(1)] by (simp add: b'(2))
  }
qed


subsection \<open>Threads and the service routine\<close>

text \<open>
  A phase is named after the last statement a thread has executed; the numbers are its local
  variables. \<open>rp_done\<close>, \<open>rp_ops\<close>, \<open>rp_ins\<close> and \<open>rp_outs\<close> are history: the
  array at the last moment when no critical section was under way, the operations
  completed so far (\<^term>\<open>True\<close> for a producer), and the characters that producers and consumers
  found in their cell of \<^verbatim>\<open>resultBuffer\<close>.
\<close>

datatype rp_phase =
    TIdle | TLock | TEntered
  | PStored nat | PPublished | PBumped
  | CRead nat int | CPublished nat | CCleared
  | TRelease | TDone | TFailed

record rp_request =
  rq_idx :: int
  rq_type :: int
  rq_result :: int

record rp_sys =
  rp_sems :: "int list"
  rp_buffer :: "int list"
  rp_result :: "nat \<Rightarrow> int"
  rp_idx :: nat
  rp_static :: rp_request
  rp_role :: "nat \<Rightarrow> bool"
  rp_phase :: "nat \<Rightarrow> rp_phase"
  rp_done :: "int list"
  rp_ops :: "bool list"
  rp_ins :: "int list"
  rp_outs :: "int list"

definition rp_goto :: "nat \<Rightarrow> rp_phase \<Rightarrow> rp_sys \<Rightarrow> rp_sys" where
  "rp_goto t p s = s\<lparr>rp_phase := (rp_phase s)(t := p)\<rparr>"

definition rp_lock_ops :: "bool \<Rightarrow> sembuf list" where
  "rp_lock_ops r = (if r then rp_producer_lock else rp_consumer_lock)"

definition rp_release_ops :: "bool \<Rightarrow> sembuf list" where
  "rp_release_ops r = (if r then rp_producer_release else rp_consumer_release)"

text \<open>The end of a critical section, seen by the history variables.\<close>

definition rp_commit :: "nat \<Rightarrow> rp_sys \<Rightarrow> rp_sys" where
  "rp_commit t s =
     (let s = s\<lparr>rp_done := rp_buffer s, rp_ops := rp_ops s @ [rp_role s t]\<rparr> in
      if rp_role s t then s\<lparr>rp_ins := rp_ins s @ [rp_result s t]\<rparr>
      else s\<lparr>rp_outs := rp_outs s @ [rp_result s t]\<rparr>)"

text \<open>
  One statement of thread \<open>t\<close>; \<^term>\<open>None\<close> when the thread sleeps, has ended, or would write
  outside \<^verbatim>\<open>resultBuffer\<close>.
\<close>

fun rp_thread :: "rp_sys \<Rightarrow> nat \<Rightarrow> rp_sys option" where
  "rp_thread s t =
     (case rp_phase s t of
        TLock \<Rightarrow>
          (case semop (rp_lock_ops (rp_role s t)) (rp_sems s) of
             Done v \<Rightarrow> Some (rp_goto t TEntered (s\<lparr>rp_sems := v\<rparr>))
           | Sleep \<Rightarrow> None
           | Fail _ \<Rightarrow> Some (rp_goto t TFailed s))
      | TEntered \<Rightarrow>
          (if rp_role s t then
             let sid = rp_sid (rp_buffer s ! 0); ch = rp_buffer s ! 2 in
             Some (rp_goto t (PStored sid) (s\<lparr>rp_buffer := (rp_buffer s)[3 + sid := ch]\<rparr>))
           else
             let sid = rp_sid (rp_buffer s ! 1); ch = rp_buffer s ! (3 + sid) in
             Some (rp_goto t (CRead sid ch) s))
      | PStored sid \<Rightarrow>
          (if t < MAX_CNT_CLNT then
             Some (rp_goto t PPublished (s\<lparr>rp_result := (rp_result s)(t := rp_buffer s ! (3 + sid))\<rparr>))
           else None)
      | PPublished \<Rightarrow>
          Some (rp_goto t PBumped
            (s\<lparr>rp_buffer := (rp_buffer s)[2 := to_schar (rp_buffer s ! 2 + 1)]\<rparr>))
      | PBumped \<Rightarrow>
          Some (rp_commit t (rp_goto t TRelease
            (s\<lparr>rp_buffer := (rp_buffer s)[0 := rp_next (rp_buffer s ! 0)]\<rparr>)))
      | CRead sid ch \<Rightarrow>
          (if t < MAX_CNT_CLNT then
             Some (rp_goto t (CPublished sid) (s\<lparr>rp_result := (rp_result s)(t := ch)\<rparr>))
           else None)
      | CPublished sid \<Rightarrow> Some (rp_goto t CCleared (s\<lparr>rp_buffer := (rp_buffer s)[3 + sid := 0]\<rparr>))
      | CCleared \<Rightarrow>
          Some (rp_commit t (rp_goto t TRelease
            (s\<lparr>rp_buffer := (rp_buffer s)[1 := rp_next (rp_buffer s ! 1)]\<rparr>)))
      | TRelease \<Rightarrow>
          (case semop (rp_release_ops (rp_role s t)) (rp_sems s) of
             Done v \<Rightarrow> Some (rp_goto t TDone (s\<lparr>rp_sems := v\<rparr>))
           | Sleep \<Rightarrow> None
           | Fail _ \<Rightarrow> Some (rp_goto t TFailed s))
      | _ \<Rightarrow> None)"

text \<open>
  \<^verbatim>\<open>service_1_svc\<close>. The reply is the static \<^verbatim>\<open>result\<close>, or nothing when \<^verbatim>\<open>malloc\<close> fails;
  \<^verbatim>\<open>resultBuffer\<close> is read at the client's index unchecked, so that the answer is
  undefined (the outer \<^term>\<open>None\<close>) when the index is out of range.
\<close>

definition is_lower :: "int \<Rightarrow> bool" where
  "is_lower c \<longleftrightarrow> 97 \<le> c \<and> c \<le> 122"

definition rp_service :: "bool \<Rightarrow> rp_request \<Rightarrow> rp_sys \<Rightarrow> (rp_sys \<times> rp_request option) option" where
  "rp_service malloc_ok arg s =
     (if 0 \<le> rq_idx arg then
        let r = (rp_static s)\<lparr>rq_idx := rq_idx arg,
              rq_result := (if rq_result arg = 45 then 45 else rq_result arg)\<rparr> in
        if rq_result r = 45 then
          if rq_idx r < int MAX_CNT_CLNT then
            let c = rp_result s (nat (rq_idx r));
                r' = (if is_lower c then r\<lparr>rq_result := c\<rparr> else r) in
            Some (s\<lparr>rp_static := r'\<rparr>, Some r')
          else None
        else Some (s\<lparr>rp_static := r\<rparr>, Some r)
      else
        let k = rp_idx s;
            r = (rp_static s)\<lparr>rq_result := 45, rq_idx := int k\<rparr>;
            s1 = s\<lparr>rp_static := r, rp_idx := Suc k\<rparr> in
        if \<not> malloc_ok then Some (s1, None)
        else if rq_type arg = CONSUMER then
          Some (rp_goto k TLock (s1\<lparr>rp_role := (rp_role s1)(k := False)\<rparr>), Some r)
        else if rq_type arg = PRODUCER then
          Some (rp_goto k TLock (s1\<lparr>rp_role := (rp_role s1)(k := True)\<rparr>), Some r)
        else Some (s1, Some r))"

datatype rp_event = Call bool rp_request | Run nat

fun rp_exec :: "rp_sys \<Rightarrow> rp_event \<Rightarrow> rp_sys option" where
  "rp_exec s (Call malloc_ok arg) = map_option fst (rp_service malloc_ok arg s)"
| "rp_exec s (Run t) = rp_thread s t"

text \<open>
  \<^verbatim>\<open>init\<close>: three \<^verbatim>\<open>SETVAL\<close> calls, each of them fatal when it fails, and the array.
\<close>

definition rp_init_sems :: "errno + int list" where
  "rp_init_sems =
     (case setval rp_SE (int BUFFER_SIZE) [0, 0, 0] of
        Inl e \<Rightarrow> Inl e
      | Inr v \<Rightarrow> (case setval rp_SF 0 v of Inl e \<Rightarrow> Inl e | Inr v' \<Rightarrow> setval rp_SB 1 v'))"

definition rp_start :: "int list \<Rightarrow> rp_sys" where
  "rp_start v = \<lparr>rp_sems = v, rp_buffer = rp_buf0, rp_result = (\<lambda>_. 0), rp_idx = 0,
     rp_static = \<lparr>rq_idx = 0, rq_type = 0, rq_result = 0\<rparr>, rp_role = (\<lambda>_. False),
     rp_phase = (\<lambda>_. TIdle), rp_done = rp_buf0, rp_ops = [], rp_ins = [], rp_outs = []\<rparr>"

definition rp_init :: rp_sys where
  "rp_init = rp_start (case rp_init_sems of Inr v \<Rightarrow> v | Inl _ \<Rightarrow> [])"

lemma rp_init_sems_eq: "rp_init_sems = Inr [29, 0, 1]"
  by (simp add: rp_init_sems_def setval_def rp_tables BUFFER_SIZE_def SEMVMX_def)

lemma rp_init_eq: "rp_init = rp_start [29, 0, 1]"
  by (simp add: rp_init_def rp_init_sems_eq)


subsection \<open>The invariant\<close>

fun rp_cs :: "rp_phase \<Rightarrow> bool" where
  "rp_cs TIdle = False"
| "rp_cs TLock = False"
| "rp_cs TDone = False"
| "rp_cs TFailed = False"
| "rp_cs _ = True"

definition rp_pending :: "rp_sys \<Rightarrow> int" where
  "rp_pending s = int (length (rp_ins s)) - int (length (rp_outs s))"

text \<open>The semaphores while a thread with role \<open>r\<close> is inside, with \<open>n\<close> items pending.\<close>

definition rp_held_sems :: "bool \<Rightarrow> rp_phase \<Rightarrow> int \<Rightarrow> int list" where
  "rp_held_sems r p n =
     (if r = (p = TRelease) then [29 - n, n - 1, 0] else [28 - n, n, 0])"

text \<open>The array in the middle of a critical section that started from \<open>c\<close>.\<close>

fun rp_mid :: "int list \<Rightarrow> bool \<Rightarrow> int \<Rightarrow> rp_phase \<Rightarrow> int list \<Rightarrow> bool" where
  "rp_mid c r x TEntered b \<longleftrightarrow> b = c"
| "rp_mid c r x (PStored sid) b \<longleftrightarrow> r \<and> sid = rp_sid (c ! 0) \<and> b = c[3 + sid := c ! 2]"
| "rp_mid c r x PPublished b \<longleftrightarrow> r \<and> x = c ! 2 \<and> b = c[3 + rp_sid (c ! 0) := c ! 2]"
| "rp_mid c r x PBumped b \<longleftrightarrow> r \<and> x = c ! 2 \<and>
     b = c[3 + rp_sid (c ! 0) := c ! 2, 2 := to_schar (c ! 2 + 1)]"
| "rp_mid c r x (CRead sid ch) b \<longleftrightarrow> \<not> r \<and> sid = rp_sid (c ! 1) \<and> ch = c ! (3 + sid) \<and> b = c"
| "rp_mid c r x (CPublished sid) b \<longleftrightarrow> \<not> r \<and> sid = rp_sid (c ! 1) \<and> x = c ! (3 + sid) \<and> b = c"
| "rp_mid c r x CCleared b \<longleftrightarrow> \<not> r \<and> x = c ! (3 + rp_sid (c ! 1)) \<and> b = c[3 + rp_sid (c ! 1) := 0]"
| "rp_mid c r x p b \<longleftrightarrow> b = c"

fun rp_holder :: "rp_sys \<Rightarrow> nat option \<Rightarrow> bool" where
  "rp_holder s None \<longleftrightarrow> (\<forall>u. \<not> rp_cs (rp_phase s u)) \<and>
     rp_sems s = [29 - rp_pending s, rp_pending s, 1] \<and> rp_buffer s = rp_done s"
| "rp_holder s (Some t) \<longleftrightarrow> (\<forall>u. rp_cs (rp_phase s u) \<longleftrightarrow> u = t) \<and>
     rp_sems s = rp_held_sems (rp_role s t) (rp_phase s t) (rp_pending s) \<and>
     rp_mid (rp_done s) (rp_role s t) (rp_result s t) (rp_phase s t) (rp_buffer s)"

definition rp_inv :: "rp_sys \<Rightarrow> bool" where
  "rp_inv s \<longleftrightarrow> (\<exists>h. rp_holder s h) \<and> rp_buf_ok (rp_done s) \<and> sem_ok (rp_sems s) \<and>
     buffer_run rp_put rp_get (rp_ops s) rp_buf0 = (rp_done s, rp_ins s, rp_outs s) \<and>
     (\<forall>u. rp_idx s \<le> u \<longrightarrow> rp_phase s u = TIdle)"

lemma rp_goto_sel [simp]:
  "rp_sems (rp_goto t p s) = rp_sems s" "rp_buffer (rp_goto t p s) = rp_buffer s"
  "rp_result (rp_goto t p s) = rp_result s" "rp_idx (rp_goto t p s) = rp_idx s"
  "rp_role (rp_goto t p s) = rp_role s" "rp_phase (rp_goto t p s) = (rp_phase s)(t := p)"
  "rp_done (rp_goto t p s) = rp_done s" "rp_ops (rp_goto t p s) = rp_ops s"
  "rp_ins (rp_goto t p s) = rp_ins s" "rp_outs (rp_goto t p s) = rp_outs s"
  "rp_static (rp_goto t p s) = rp_static s" "rp_pending (rp_goto t p s) = rp_pending s"
  by (simp_all add: rp_goto_def rp_pending_def)

lemma rp_pending_upd [simp]:
  "rp_pending (s\<lparr>rp_sems := v\<rparr>) = rp_pending s" "rp_pending (s\<lparr>rp_buffer := b\<rparr>) = rp_pending s"
  "rp_pending (s\<lparr>rp_result := f\<rparr>) = rp_pending s"
  by (simp_all add: rp_pending_def)

lemma rp_commit_sel [simp]:
  "rp_sems (rp_commit t s) = rp_sems s" "rp_buffer (rp_commit t s) = rp_buffer s"
  "rp_result (rp_commit t s) = rp_result s" "rp_idx (rp_commit t s) = rp_idx s"
  "rp_role (rp_commit t s) = rp_role s" "rp_phase (rp_commit t s) = rp_phase s"
  "rp_done (rp_commit t s) = rp_buffer s" "rp_ops (rp_commit t s) = rp_ops s @ [rp_role s t]"
  "rp_ins (rp_commit t s) = (if rp_role s t then rp_ins s @ [rp_result s t] else rp_ins s)"
  "rp_outs (rp_commit t s) = (if rp_role s t then rp_outs s else rp_outs s @ [rp_result s t])"
  by (simp_all add: rp_commit_def Let_def)

lemma rp_start_sel [simp]:
  "rp_sems (rp_start v) = v" "rp_buffer (rp_start v) = rp_buf0" "rp_result (rp_start v) = (\<lambda>_. 0)"
  "rp_idx (rp_start v) = 0" "rp_phase (rp_start v) = (\<lambda>_. TIdle)" "rp_done (rp_start v) = rp_buf0"
  "rp_ops (rp_start v) = []" "rp_ins (rp_start v) = []" "rp_outs (rp_start v) = []"
  by (simp_all add: rp_start_def)

lemma rp_inv_holder:
  assumes "rp_inv s" and "rp_cs (rp_phase s t)"
  shows "rp_holder s (Some t)"
proof -
  obtain h where h: "rp_holder s h" using assms(1) by (auto simp: rp_inv_def)
  with assms(2) show ?thesis by (cases h) auto
qed

lemma rp_inv_init: "rp_inv rp_init"
proof -
  have "rp_holder rp_init None" by (simp add: rp_init_eq rp_pending_def)
  moreover have "sem_ok [29, 0, 1]" by (simp add: sem_ok_def SEMVMX_def)
  ultimately show ?thesis
    unfolding rp_inv_def by (intro conjI exI [of _ None]) (simp_all add: rp_init_eq rp_buf0_ok)
qed

text \<open>What a call of the service changes: at most the phase and role of one fresh thread.\<close>

lemma rp_service_effect:
  assumes "rp_service m arg s = Some (t, r)"
  obtains (poll) "rp_phase t = rp_phase s" "rp_role t = rp_role s" "rp_idx t = rp_idx s"
      "rp_sems t = rp_sems s" "rp_buffer t = rp_buffer s" "rp_result t = rp_result s"
      "rp_done t = rp_done s" "rp_ops t = rp_ops s" "rp_ins t = rp_ins s" "rp_outs t = rp_outs s"
  | (connect) p q where "rp_phase t = (rp_phase s)(rp_idx s := p)" "p = TLock \<or> p = rp_phase s (rp_idx s)"
      "rp_role t = (rp_role s)(rp_idx s := q)" "rp_idx t = Suc (rp_idx s)"
      "rp_sems t = rp_sems s" "rp_buffer t = rp_buffer s" "rp_result t = rp_result s"
      "rp_done t = rp_done s" "rp_ops t = rp_ops s" "rp_ins t = rp_ins s" "rp_outs t = rp_outs s"
proof (cases "0 \<le> rq_idx arg")
  case True
  then show thesis using assms poll by (auto simp: rp_service_def Let_def split: if_splits)
next
  case False
  then show thesis using assms connect [of "rp_phase s (rp_idx s)" "rp_role s (rp_idx s)"]
      connect [of TLock True] connect [of TLock False]
    by (auto simp: rp_service_def Let_def split: if_splits)
qed

lemma rp_inv_call:
  assumes inv: "rp_inv s" and ex: "rp_service m arg s = Some (t, r)"
  shows "rp_inv t"
  using ex
proof (cases rule: rp_service_effect)
  case poll
  have "rp_holder s h \<Longrightarrow> rp_holder t h" for h using poll by (cases h) (simp_all add: rp_pending_def)
  with inv poll show ?thesis by (auto simp: rp_inv_def)
next
  case (connect p q)
  have idle: "rp_phase s (rp_idx s) = TIdle" using inv by (simp add: rp_inv_def)
  then have p: "\<not> rp_cs p" using connect(2) by auto
  have "rp_holder t h" if h: "rp_holder s h" for h
  proof (cases h)
    case None
    with h p connect show ?thesis by (simp add: rp_pending_def)
  next
    case (Some u)
    with h idle have "u \<noteq> rp_idx s" by (metis rp_cs.simps(1) rp_holder.simps(2))
    with Some h p idle connect show ?thesis by (auto simp: rp_pending_def)
  qed
  with inv connect show ?thesis by (auto simp: rp_inv_def)
qed

lemma rp_semop_eval:
  "semop (rp_lock_ops True) [x, y, z] =
     (if 0 < x \<and> 0 < z then Done [x - 1, y, z - 1] else Sleep)"
  "semop (rp_lock_ops False) [x, y, z] =
     (if 0 < y \<and> 0 < z then Done [x, y - 1, z - 1] else Sleep)"
  if "x < SEMVMX" "y < SEMVMX" "z < SEMVMX"
  using that by (auto simp: rp_lock_ops_def rp_tables semop_def sem_simps)

lemma rp_semop_release:
  "semop (rp_release_ops True) [x, y, 0] = Done [x, y + 1, 1]"
  "semop (rp_release_ops False) [x, y, 0] = Done [x + 1, y, 1]"
  if "0 \<le> x" "0 \<le> y" "x \<le> 100" "y \<le> 100"
  using that by (auto simp: rp_release_ops_def rp_tables semop_def sem_simps SEMVMX_def)


lemma rp_lock_done:
  assumes inv: "rp_inv s" and ph: "rp_phase s t = TLock"
    and ok: "semop (rp_lock_ops (rp_role s t)) (rp_sems s) = Done v"
  shows "rp_inv (rp_goto t TEntered (s\<lparr>rp_sems := v\<rparr>))"
proof -
  obtain h where h: "rp_holder s h" using inv by (auto simp: rp_inv_def)
  have sok: "sem_ok (rp_sems s)" using inv by (simp add: rp_inv_def)
  have none: "h = None"
  proof (cases h)
    case (Some u)
    with h have "rp_sems s ! rp_SB = 0" by (simp add: rp_held_sems_def rp_SB_def)
    moreover have "v ! rp_SB = rp_sems s ! rp_SB - 1"
      using semop_effect [OF ok, of rp_SB] by (simp add: rp_lock_ops_def rp_tables)
    moreover have "0 \<le> v ! rp_SB"
      using semop_ok [OF sok ok] semop_length [OF ok] h Some
      by (simp add: sem_ok_def rp_held_sems_def rp_SB_def)
    ultimately show ?thesis by simp
  qed simp
  with h have sems: "rp_sems s = [29 - rp_pending s, rp_pending s, 1]" by simp
  have "0 \<le> rp_pending s" "rp_pending s \<le> 29" using sok by (simp_all add: sems sem_ok_def)
  then have v: "v = rp_held_sems (rp_role s t) TEntered (rp_pending s)"
    using ok by (cases "rp_role s t")
      (auto simp: sems rp_semop_eval SEMVMX_def rp_held_sems_def split: if_splits)
  have "rp_holder (rp_goto t TEntered (s\<lparr>rp_sems := v\<rparr>)) (Some t)"
    using h none v by (simp add: fun_upd_apply)
  moreover have "t < rp_idx s" using inv ph by (cases "t < rp_idx s") (auto simp: rp_inv_def)
  ultimately show ?thesis
    using inv semop_ok [OF sok ok] unfolding rp_inv_def by (auto simp del: rp_holder.simps)
qed

lemma rp_release_runs:
  assumes inv: "rp_inv s" and ph: "rp_phase s t = TRelease"
  shows "semop (rp_release_ops (rp_role s t)) (rp_sems s) =
    Done [29 - rp_pending s, rp_pending s, 1]"
proof -
  from rp_inv_holder [OF inv, of t] ph have h: "rp_holder s (Some t)" by simp
  then have sems: "rp_sems s = rp_held_sems (rp_role s t) TRelease (rp_pending s)" using ph by simp
  moreover have "sem_ok (rp_sems s)" using inv by (simp add: rp_inv_def)
  ultimately show ?thesis
    by (cases "rp_role s t") (auto simp: rp_held_sems_def sem_ok_def rp_semop_release)
qed

lemma rp_release_done:
  assumes inv: "rp_inv s" and ph: "rp_phase s t = TRelease"
  shows "rp_inv (rp_goto t TDone (s\<lparr>rp_sems := [29 - rp_pending s, rp_pending s, 1]\<rparr>))"
    (is "rp_inv ?s'")
proof -
  from rp_inv_holder [OF inv, of t] ph have h: "rp_holder s (Some t)" by simp
  have "rp_holder ?s' None" using h ph by simp
  moreover have "t < rp_idx s" using inv ph by (cases "t < rp_idx s") (auto simp: rp_inv_def)
  moreover have "sem_ok (rp_sems s)" using inv by (simp add: rp_inv_def)
  from semop_ok [OF this rp_release_runs [OF inv ph]]
  have "sem_ok [29 - rp_pending s, rp_pending s, 1]" .
  ultimately show ?thesis
    using inv unfolding rp_inv_def by (auto simp del: rp_holder.simps)
qed

text \<open>A statement in the middle: the semaphores and the history stay.\<close>

lemma rp_inv_mid:
  assumes inv: "rp_inv s" and cs: "rp_cs (rp_phase s t)" "rp_phase s t \<noteq> TRelease"
    and p: "rp_cs p" "p \<noteq> TRelease"
    and mid: "rp_mid (rp_done s) (rp_role s t) x p b"
  shows "rp_inv (rp_goto t p (s\<lparr>rp_buffer := b, rp_result := (rp_result s)(t := x)\<rparr>))" (is "rp_inv ?s'")
proof -
  from rp_inv_holder [OF inv cs(1)] have h: "rp_holder s (Some t)" .
  have "rp_holder ?s' (Some t)"
    using h cs p mid by (simp add: rp_held_sems_def)
  moreover have "t < rp_idx s" using inv cs(1) by (cases "t < rp_idx s") (auto simp: rp_inv_def)
  ultimately show ?thesis
    using inv unfolding rp_inv_def by (auto simp del: rp_holder.simps)
qed

text \<open>The last statement of a critical section: its effect is that of the whole operation.\<close>

lemma rp_inv_commit:
  assumes inv: "rp_inv s" and cs: "rp_cs (rp_phase s t)" "rp_phase s t \<noteq> TRelease"
    and eff: "(if rp_role s t then rp_put (rp_done s) else rp_get (rp_done s)) = (b, rp_result s t)"
  shows "rp_inv (rp_commit t (rp_goto t TRelease (s\<lparr>rp_buffer := b\<rparr>)))" (is "rp_inv ?s'")
proof -
  from rp_inv_holder [OF inv cs(1)] have h: "rp_holder s (Some t)" .
  have pend: "rp_pending ?s' = (if rp_role s t then rp_pending s + 1 else rp_pending s - 1)"
    by (simp add: rp_pending_def)
  have "rp_holder ?s' (Some t)"
    using h cs by (simp add: pend rp_held_sems_def)
  moreover have "t < rp_idx s" using inv cs(1) by (cases "t < rp_idx s") (auto simp: rp_inv_def)
  moreover have "rp_buf_ok b"
    using inv eff rp_put_ok [of "rp_done s"] rp_get_ok [of "rp_done s"]
    by (auto simp: rp_inv_def split: if_splits)
  moreover have "buffer_run rp_put rp_get (rp_ops ?s') rp_buf0 = (rp_done ?s', rp_ins ?s', rp_outs ?s')"
    using inv eff by (simp add: rp_inv_def buffer_run_snoc Let_def)
  ultimately show ?thesis
    using inv unfolding rp_inv_def by (auto simp del: rp_holder.simps)
qed


lemma rp_inv_thread:
  assumes inv: "rp_inv s" and ex: "rp_thread s t = Some s'"
  shows "rp_inv s'"
proof (cases "rp_phase s t")
  case TLock
  show ?thesis
  proof (cases "semop (rp_lock_ops (rp_role s t)) (rp_sems s)")
    case (Done v)
    with ex TLock rp_lock_done [OF inv TLock] show ?thesis by simp
  next
    case (Fail e)
    have "t < rp_idx s" using inv TLock by (cases "t < rp_idx s") (auto simp: rp_inv_def)
    moreover have "rp_holder (rp_goto t TFailed s) h" if h: "rp_holder s h" for h
    proof (cases h)
      case (Some u)
      with h TLock have "u \<noteq> t" by (metis rp_cs.simps(2) rp_holder.simps(2))
      with Some h TLock show ?thesis by auto
    qed (use h TLock in auto)
    ultimately show ?thesis using inv ex TLock Fail by (auto simp: rp_inv_def)
  qed (use ex TLock in simp)
next
  case TRelease
  with ex rp_release_runs [OF inv TRelease] rp_release_done [OF inv TRelease] show ?thesis by simp
next
  case TEntered
  have h: "rp_holder s (Some t)" using rp_inv_holder [OF inv, of t] TEntered by simp
  have mid: "rp_mid (rp_done s) (rp_role s t) (rp_result s t) p b \<Longrightarrow> rp_cs p \<Longrightarrow> p \<noteq> TRelease \<Longrightarrow>
      rp_inv (rp_goto t p (s\<lparr>rp_buffer := b\<rparr>))" for p b
    using rp_inv_mid [OF inv, of t p "rp_result s t" b] TEntered by (simp add: fun_upd_idem)
  show ?thesis
  proof (cases "rp_role s t")
    case True
    with ex TEntered h show ?thesis by (auto simp: Let_def intro!: mid)
  next
    case False
    then have s': "s' = rp_goto t (CRead (rp_sid (rp_buffer s ! 1)) (rp_buffer s ! (3 + rp_sid (rp_buffer s ! 1))))
        (s\<lparr>rp_buffer := rp_buffer s\<rparr>)"
      using ex TEntered by (simp add: Let_def)
    show ?thesis unfolding s' using False TEntered h by (intro mid) simp_all
  qed
next
  case (PStored sid)
  have h: "rp_holder s (Some t)" using rp_inv_holder [OF inv, of t] PStored by simp
  have ok: "rp_buf_ok (rp_done s)" using inv by (simp add: rp_inv_def)
  have s': "s' = rp_goto t PPublished (s\<lparr>rp_buffer := rp_buffer s,
      rp_result := (rp_result s)(t := rp_buffer s ! (3 + sid))\<rparr>)"
    using ex PStored by (simp split: if_splits)
  show ?thesis unfolding s' using PStored h rp_sid_bound [OF ok]
    by (intro rp_inv_mid [OF inv]) auto
next
  case PPublished
  have h: "rp_holder s (Some t)" using rp_inv_holder [OF inv, of t] PPublished by simp
  have s': "s' = rp_goto t PBumped (s\<lparr>rp_buffer := (rp_buffer s)[2 := to_schar (rp_buffer s ! 2 + 1)],
      rp_result := (rp_result s)(t := rp_result s t)\<rparr>)"
    using ex PPublished by simp
  show ?thesis unfolding s' using PPublished h
    by (intro rp_inv_mid [OF inv]) (simp_all add: nth_list_update)
next
  case PBumped
  have h: "rp_holder s (Some t)" using rp_inv_holder [OF inv, of t] PBumped by simp
  have ok: "rp_buf_ok (rp_done s)" using inv by (simp add: rp_inv_def)
  then have "(if rp_role s t then rp_put (rp_done s) else rp_get (rp_done s)) =
      ((rp_buffer s)[0 := rp_next (rp_buffer s ! 0)], rp_result s t)"
    using h PBumped rp_sid_bound [OF ok] by (simp add: rp_put_def Let_def nth_list_update)
  from rp_inv_commit [OF inv _ _ this] ex PBumped show ?thesis by simp
next
  case (CRead sid ch)
  have h: "rp_holder s (Some t)" using rp_inv_holder [OF inv, of t] CRead by simp
  have s': "s' = rp_goto t (CPublished sid) (s\<lparr>rp_buffer := rp_buffer s, rp_result := (rp_result s)(t := ch)\<rparr>)"
    using ex CRead by (simp split: if_splits)
  show ?thesis unfolding s' using CRead h by (intro rp_inv_mid [OF inv]) auto
next
  case (CPublished sid)
  have h: "rp_holder s (Some t)" using rp_inv_holder [OF inv, of t] CPublished by simp
  have s': "s' = rp_goto t CCleared (s\<lparr>rp_buffer := (rp_buffer s)[3 + sid := 0],
      rp_result := (rp_result s)(t := rp_result s t)\<rparr>)"
    using ex CPublished by simp
  show ?thesis unfolding s' using CPublished h by (intro rp_inv_mid [OF inv]) auto
next
  case CCleared
  have h: "rp_holder s (Some t)" using rp_inv_holder [OF inv, of t] CCleared by simp
  have "(if rp_role s t then rp_put (rp_done s) else rp_get (rp_done s)) =
      ((rp_buffer s)[1 := rp_next (rp_buffer s ! 1)], rp_result s t)"
    using h CCleared by (simp add: rp_get_def Let_def)
  from rp_inv_commit [OF inv _ _ this] ex CCleared show ?thesis by simp
qed (use ex in simp_all)

interpretation rp: invariant_system rp_exec rp_init rp_inv
proof
  show "rp_inv rp_init" by (rule rp_inv_init)
next
  fix s e t
  assume "rp_inv s" and "rp_exec s e = Some t"
  then show "rp_inv t" by (cases e) (auto intro: rp_inv_call rp_inv_thread)
qed


subsection \<open>Every sequence the semaphores allow can happen\<close>

definition rp_request_of :: "bool \<Rightarrow> rp_request" where
  "rp_request_of r = \<lparr>rq_idx = - 1, rq_type = (if r then PRODUCER else CONSUMER), rq_result = 45\<rparr>"

definition rp_turn :: "nat \<Rightarrow> bool \<Rightarrow> rp_event list" where
  "rp_turn k r = [Call True (rp_request_of r), Run k, Run k, Run k, Run k, Run k, Run k]"

definition rp_quiet :: "rp_sys \<Rightarrow> bool" where
  "rp_quiet s \<longleftrightarrow> rp_inv s \<and> rp_holder s None"

lemma rp_quiet_sems:
  assumes "rp_quiet s"
  shows "rp_sems s = [29 - rp_pending s, rp_pending s, 1]" "0 \<le> rp_pending s" "rp_pending s \<le> 29"
  using assms by (auto simp: rp_quiet_def rp_inv_def sem_ok_def)

lemma rp_turn_runs:
  assumes q: "rp_quiet s" and k: "rp_idx s = k" "k < MAX_CNT_CLNT"
    and room: "if r then rp_pending s < 29 else 0 < rp_pending s"
  shows "\<exists>t. run rp_exec s (rp_turn k r) = Some t \<and> rp_quiet t \<and> rp_idx t = Suc k \<and>
    rp_ops t = rp_ops s @ [r] \<and> rp_pending t = (if r then rp_pending s + 1 else rp_pending s - 1)"
proof -
  note sems = rp_quiet_sems [OF q]
  have cs: "\<not> rp_cs (rp_phase s u)" for u using q by (simp add: rp_quiet_def)
  have lock: "semop (rp_lock_ops r) (rp_sems s) = Done (rp_held_sems r TEntered (rp_pending s))"
    using room sems by (cases r) (simp_all add: rp_semop_eval SEMVMX_def rp_held_sems_def)
  have rel: "semop (rp_release_ops r) (rp_held_sems r TEntered (rp_pending s)) =
      Done (if r then [28 - rp_pending s, rp_pending s + 1, 1] else [30 - rp_pending s, rp_pending s - 1, 1])"
    using room sems by (cases r) (simp_all add: rp_held_sems_def rp_semop_release)
  have ex: "\<exists>t. run rp_exec s (rp_turn k r) = Some t \<and> rp_idx t = Suc k \<and> rp_ops t = rp_ops s @ [r] \<and>
      (\<forall>u. \<not> rp_cs (rp_phase t u)) \<and> length (rp_ins t) = length (rp_ins s) + (if r then 1 else 0) \<and>
      length (rp_outs t) = length (rp_outs s) + (if r then 0 else 1)"
    using k lock rel cs
    by (cases r) (simp_all add: rp_turn_def rp_request_of_def rp_service_def Let_def CONSUMER_def PRODUCER_def)
  then obtain t where t: "run rp_exec s (rp_turn k r) = Some t" "rp_idx t = Suc k"
    "rp_ops t = rp_ops s @ [r]" "\<forall>u. \<not> rp_cs (rp_phase t u)"
    "length (rp_ins t) = length (rp_ins s) + (if r then 1 else 0)"
    "length (rp_outs t) = length (rp_outs s) + (if r then 0 else 1)" by blast
  have inv: "rp_inv t" using rp.run_inv_from [OF _ t(1)] q by (simp add: rp_quiet_def)
  then obtain h where h: "rp_holder t h" by (auto simp: rp_inv_def)
  have "h = None" using h t(4) by (cases h) auto
  with inv h have "rp_quiet t" by (simp add: rp_quiet_def)
  moreover have "rp_pending t = (if r then rp_pending s + 1 else rp_pending s - 1)"
    using t(5,6) by (simp add: rp_pending_def)
  ultimately show ?thesis using t by blast
qed

lemma rp_sequences:
  assumes "rp_quiet s" and "rp_idx s + length es \<le> MAX_CNT_CLNT"
    and "buffer_guards 29 es (nat (rp_pending s))"
  shows "\<exists>t. reach rp_exec s t \<and> rp_quiet t \<and> rp_ops t = rp_ops s @ es"
  using assms
proof (induction es arbitrary: s)
  case Nil
  then show ?case using reach.reach_init [of rp_exec s] by auto
next
  case (Cons r es)
  note p = rp_quiet_sems [OF Cons.prems(1)]
  have room: "if r then rp_pending s < 29 else 0 < rp_pending s"
    using Cons.prems(3) p by (cases r) auto
  have k: "rp_idx s < MAX_CNT_CLNT" using Cons.prems(2) by simp
  obtain t where t: "run rp_exec s (rp_turn (rp_idx s) r) = Some t" "rp_quiet t"
    "rp_idx t = Suc (rp_idx s)" "rp_ops t = rp_ops s @ [r]"
    "rp_pending t = (if r then rp_pending s + 1 else rp_pending s - 1)"
    using rp_turn_runs [OF Cons.prems(1) refl k room] by blast
  have "nat (rp_pending t) = (if r then Suc (nat (rp_pending s)) else nat (rp_pending s) - 1)"
    using t(5) p by (auto simp: nat_add_distrib nat_diff_distrib)
  then have "buffer_guards 29 es (nat (rp_pending t))" using Cons.prems(3) by (cases r) auto
  moreover have "rp_idx t + length es \<le> MAX_CNT_CLNT" using Cons.prems(2) t(3) by simp
  ultimately obtain u where u: "reach rp_exec t u" "rp_quiet u" "rp_ops u = rp_ops t @ es"
    using Cons.IH [OF t(2)] by blast
  have "reach rp_exec s t" by (rule run_reach [OF _ t(1)]) (rule reach.reach_init)
  from reach_trans [OF u(1) this] u t(4) show ?case by auto
qed

lemma rp_quiet_init: "rp_quiet rp_init"
  using rp_inv_init by (simp add: rp_quiet_def rp_init_eq rp_pending_def)

lemma rp_reachable_ops:
  assumes "buffer_guards 29 es 0" and "length es \<le> MAX_CNT_CLNT"
  obtains s where "reach rp_exec rp_init s" "rp_quiet s" "rp_ops s = es"
proof -
  have "buffer_guards 29 es (nat (rp_pending rp_init))" "rp_idx rp_init = 0" "rp_ops rp_init = []"
    using assms(1) by (simp_all add: rp_init_eq rp_pending_def)
  with rp_sequences [OF rp_quiet_init, of es] assms(2) that show thesis by auto
qed

lemma rp_run_of: "reach rp_exec rp_init s \<Longrightarrow>
    buffer_run rp_put rp_get (rp_ops s) rp_buf0 = (rp_done s, rp_ins s, rp_outs s)"
  using rp.reach_inv by (simp add: rp_inv_def)


subsection \<open>From the array alone to the array with its count\<close>

lemma buffer_run_count:
  assumes "buffer_run rp_put rp_get es b = (b', ins, outs)" and "buffer_guards 26 es n"
  shows "\<exists>n'. buffer_run rp_put_n rp_get_n es (b, n) = ((b', n'), ins, outs)"
  using assms
proof (induction es arbitrary: b n ins outs)
  case Nil
  then show ?case by simp
next
  case (Cons e es)
  show ?case
  proof (cases e)
    case True
    obtain b1 x where b1: "rp_put b = (b1, x)" by (cases "rp_put b")
    obtain ins' where "buffer_run rp_put rp_get es b1 = (b', ins', outs)" "ins = x # ins'"
      using Cons.prems(1) True b1 by (auto simp: Let_def split: prod.splits)
    with Cons.IH [of b1 ins' outs "Suc n"] Cons.prems(2) True b1 show ?thesis
      by (auto simp: rp_put_n_def)
  next
    case False
    obtain b1 x where b1: "rp_get b = (b1, x)" by (cases "rp_get b")
    obtain outs' where "buffer_run rp_put rp_get es b1 = (b', ins, outs')" "outs = x # outs'"
      using Cons.prems(1) False b1 by (auto simp: Let_def split: prod.splits)
    with Cons.IH [of b1 ins outs' "n - 1"] Cons.prems(2) False b1 show ?thesis
      by (auto simp: rp_get_n_def)
  qed
qed

lemma rp_ring_start: "rp_ring_ok (rp_buf0, 0)" "rp_contents (rp_buf0, 0) = []"
  using rp_buf0_ok by (simp_all add: rp_ring_ok_def rp_contents_def rp_buf0_def BUFFER_SIZE_def)

lemma rp_fifo_run:
  assumes "buffer_run rp_put rp_get es rp_buf0 = (b', ins, outs)" and "buffer_guards 26 es 0"
  shows "\<exists>rest. ins = outs @ rest \<and> length rest \<le> 26"
proof -
  obtain n' where r: "buffer_run rp_put_n rp_get_n es (rp_buf0, 0) = ((b', n'), ins, outs)"
    using buffer_run_count [OF assms] by blast
  have "buffer_guards 26 es (length (rp_contents (rp_buf0, 0)))"
    using assms(2) by (simp add: rp_ring_start)
  from rp_ring.buffer_fifo [OF rp_ring_start(1) this r]
  have ok: "rp_ring_ok (b', n')" and eq: "outs @ rp_contents (b', n') = ins"
    by (simp_all add: rp_ring_start)
  have "length (rp_contents (b', n')) \<le> 26"
    using ok by (simp add: rp_ring_ok_def rp_contents_def)
  with eq show ?thesis by metis
qed


lemma rp_reach_two:
  assumes "reach rp_exec rp_init s" and "rp_ops s = [True, True]"
  shows "length (rp_ins s) = 2"
proof -
  obtain b x where x: "rp_put rp_buf0 = (b, x)" by (cases "rp_put rp_buf0")
  obtain b' y where y: "rp_put b = (b', y)" by (cases "rp_put b")
  have "rp_ins s = [x, y]" using rp_run_of [OF assms(1)] assms(2) x y by simp
  then show ?thesis by simp
qed


subsection \<open>The letters of the producers\<close>

lemma to_schar_suc: "to_schar (to_schar x + 1) = to_schar (x + 1)"
proof -
  have "((x + 128) mod 256 - 128 + 1 + 128) mod 256 = (x + 128 + 1) mod (256 :: int)"
    by (simp add: algebra_simps mod_simps)
  then show ?thesis by (simp add: to_schar_def add.commute add.left_commute)
qed

lemma rp_letters_run:
  assumes "buffer_run rp_put rp_get es b = (b', ins, outs)" and "rp_buf_ok b" and "b ! 2 = to_schar (97 + int n)"
  shows "ins = map (\<lambda>k. to_schar (97 + int k)) [n..<n + length ins]"
  using assms
proof (induction es arbitrary: b n ins outs)
  case Nil
  then show ?case by simp
next
  case (Cons e es)
  have len: "length b = 29" using Cons.prems(2) by (simp add: rp_buf_ok_def)
  show ?case
  proof (cases e)
    case True
    have c: "rp_sid (b ! 0) < 26" by (rule rp_sid_bound [OF Cons.prems(2)])
    obtain b1 x where b1: "rp_put b = (b1, x)" by (cases "rp_put b")
    obtain ins' where r: "buffer_run rp_put rp_get es b1 = (b', ins', outs)" and ins: "ins = x # ins'"
      using Cons.prems(1) True b1 by (auto simp: Let_def split: prod.splits)
    have x: "x = to_schar (97 + int n)" and n: "b1 ! 2 = to_schar (97 + int (Suc n))"
      using b1 c len Cons.prems(3) to_schar_suc [of "97 + int n"]
      by (auto simp: rp_put_def Let_def nth_list_update algebra_simps)
    have "rp_buf_ok b1" using rp_put_ok [OF Cons.prems(2)] b1 by simp
    from Cons.IH [OF r this n] x ins show ?thesis by (simp add: upt_conv_Cons del: upt_Suc)
  next
    case False
    obtain b1 x where b1: "rp_get b = (b1, x)" by (cases "rp_get b")
    obtain outs' where r: "buffer_run rp_put rp_get es b1 = (b', ins, outs')"
      using Cons.prems(1) False b1 by (auto simp: Let_def split: prod.splits)
    have "b1 ! 2 = b ! 2" using b1 len by (auto simp: rp_get_def Let_def nth_list_update)
    moreover have "rp_buf_ok b1" using rp_get_ok [OF Cons.prems(2)] b1 by simp
    ultimately show ?thesis using Cons.IH [OF r] Cons.prems(3) by simp
  qed
qed


text \<open>Twenty-six puts in a row, then one more and a get.\<close>

lemma rp_puts:
  "n \<le> 26 \<Longrightarrow> \<exists>b ins. buffer_run rp_put rp_get (replicate n True) rp_buf0 = (b, ins, []) \<and>
     rp_buf_ok b \<and> b ! 0 = int n mod 26 \<and> b ! 1 = 0 \<and> b ! 2 = 97 + int n \<and> length ins = n \<and>
     (if n = 0 then True else ins ! 0 = 97)"
proof (induction n)
  case 0
  show ?case using rp_buf0_ok by (simp add: rp_buf0_def BUFFER_SIZE_def)
next
  case (Suc n)
  then obtain b ins where b: "buffer_run rp_put rp_get (replicate n True) rp_buf0 = (b, ins, [])"
    "rp_buf_ok b" "b ! 0 = int n mod 26" "b ! 1 = 0" "b ! 2 = 97 + int n" "length ins = n"
    "if n = 0 then True else ins ! 0 = 97" by auto
  obtain b' x where p: "rp_put b = (b', x)" by (cases "rp_put b")
  note bound = rp_sid_bound [OF b(2)]
  have c: "rp_next (b ! 0) = (b ! 0 + 1) mod 26"
    using rp_cursor [of "b ! 0"] b(2) by (simp add: rp_buf_ok_def)
  have x: "x = b ! 2" using p bound by (auto simp: rp_put_def Let_def)
  have "to_schar (98 + int n) = 98 + int n" using Suc.prems by (intro to_schar_id) auto
  then have b': "b' ! 0 = int (Suc n) mod 26" "b' ! 1 = 0" "b' ! 2 = 97 + int (Suc n)"
    using p bound b(3-5) c by (auto simp: rp_put_def Let_def nth_list_update mod_simps add.commute)
  have "buffer_run rp_put rp_get (replicate (Suc n) True) rp_buf0 = (b', ins @ [x], [])"
    unfolding replicate_Suc replicate_append_same [symmetric] using b(1) p by (simp add: buffer_run_snoc)
  moreover have "rp_buf_ok b'" using rp_put_ok [OF b(2)] p by simp
  moreover have "(ins @ [x]) ! 0 = 97" using b(5-7) x by (cases n) (auto simp: nth_append)
  ultimately show ?case using b' b(6) by (intro exI [of _ b'] exI [of _ "ins @ [x]"]) simp
qed

lemma rp_overfull:
  "\<exists>b ins. buffer_run rp_put rp_get (replicate 27 True @ [False]) rp_buf0 = (b, ins, [123]) \<and> ins ! 0 = 97"
proof -
  obtain b ins where b: "buffer_run rp_put rp_get (replicate 26 True) rp_buf0 = (b, ins, [])"
    "rp_buf_ok b" "b ! 0 = 0" "b ! 1 = 0" "b ! 2 = 123" "length ins = 26" "ins ! 0 = 97"
    using rp_puts [of 26] by auto
  have len: "length b = 29" using b(2) by (simp add: rp_buf_ok_def)
  obtain b' x where p: "rp_put b = (b', x)" by (cases "rp_put b")
  obtain b'' y where g: "rp_get b' = (b'', y)" by (cases "rp_get b'")
  have "b' ! 3 = 123 \<and> b' ! 1 = 0"
    using p len b(3-5) by (auto simp: rp_put_def rp_sid_def BUFFER_SIZE_def c_rem_nonneg Let_def)
  then have "y = 123" using g by (auto simp: rp_get_def rp_sid_def BUFFER_SIZE_def c_rem_nonneg Let_def)
  moreover have "replicate 27 True = replicate 26 True @ [True]" by (simp add: numeral_eq_Suc)
  ultimately have "buffer_run rp_put rp_get (replicate 27 True @ [False]) rp_buf0 = (b'', ins @ [x], [123])"
    using b(1) p g by (simp only: buffer_run_snoc Let_def prod.case if_True if_False simp_thms append_Nil)
  then show ?thesis using b(6,7) by (simp add: nth_append)
qed


subsection \<open>The client\<close>

text \<open>
  \<^verbatim>\<open>process_request\<close>: the answers of the stub are given, with the outcome of the time check
  that follows each poll; \<^term>\<open>None\<close> is the null pointer of a failed call. After the loop
  the last answer is dereferenced whatever it is.
\<close>

datatype rp_outcome = RCallFailed | RStillPolling | RNullPointer | RPrinted int int int

fun rp_poll :: "rp_request option \<Rightarrow> (rp_request option \<times> bool) list \<Rightarrow> rp_request option option" where
  "rp_poll None as = Some None"
| "rp_poll (Some r) as =
     (if is_lower (rq_result r) then Some (Some r)
      else case as of
        [] \<Rightarrow> None
      | (None, _) # _ \<Rightarrow> Some None
      | (Some r', timeout) # as' \<Rightarrow> if timeout then Some (Some r') else rp_poll (Some r') as')"

definition rp_client :: "int \<Rightarrow> rp_request option \<Rightarrow> (rp_request option \<times> bool) list \<Rightarrow> rp_outcome" where
  "rp_client ty first as =
     (case first of
        None \<Rightarrow> RCallFailed
      | Some r \<Rightarrow>
          (case rp_poll (Some r) as of
             None \<Rightarrow> RStillPolling
           | Some None \<Rightarrow> RNullPointer
           | Some (Some r') \<Rightarrow>
               RPrinted (rq_idx r) ty (if rq_result r' = 0 then 45 else rq_result r')))"

lemma rp_poll_dashes:
  "\<not> is_lower (rq_result r) \<Longrightarrow> \<forall>a \<in> set as. \<exists>r' t. a = (Some r', t) \<and> \<not> is_lower (rq_result r') \<Longrightarrow>
     rp_poll (Some r) as = Some (Some r') \<Longrightarrow> \<not> is_lower (rq_result r')"
  by (induction as arbitrary: r) (fastforce split: if_splits)+


subsection \<open>Properties\<close>

text \<open>C3: the critical sections are linearizable: whatever the interleaving of threads and calls,
  the characters left for the clients are those that the completed operations, run one
  after the other on the initial array, return; at most one thread is inside, at most 29
  letters are pending, and the array and its cursors stay in bounds.\<close>

theorem rp_linearizable:
  assumes "reach rp_exec rp_init s"
  shows "buffer_run rp_put rp_get (rp_ops s) rp_buf0 = (rp_done s, rp_ins s, rp_outs s) \<and>
    rp_buf_ok (rp_done s) \<and> length (rp_outs s) \<le> length (rp_ins s) \<and>
    length (rp_ins s) \<le> length (rp_outs s) + 29 \<and>
    card {t. rp_cs (rp_phase s t)} \<le> 1"
proof -
  have inv: "rp_inv s" by (rule rp.reach_inv [OF assms])
  then obtain h where h: "rp_holder s h" by (auto simp: rp_inv_def)
  have sok: "sem_ok (rp_sems s)" using inv by (simp add: rp_inv_def)
  have "card {t. rp_cs (rp_phase s t)} \<le> 1 \<and> 0 \<le> rp_pending s \<and> rp_pending s \<le> 29"
    using h sok by (cases h) (auto simp: sem_ok_def rp_held_sems_def split: if_splits)
  with inv show ?thesis by (auto simp: rp_inv_def rp_pending_def)
qed

theorem rp_linearizable_witness:
  "\<exists>s. reach rp_exec rp_init s \<and> rp_ops s = [True, False] \<and> rp_ins s = [97] \<and> rp_outs s = [97]"
proof -
  obtain s where s: "reach rp_exec rp_init s" "rp_ops s = [True, False]"
    using rp_reachable_ops [of "[True, False]"] by (auto simp: MAX_CNT_CLNT_def)
  have "\<exists>b. buffer_run rp_put rp_get [True, False] rp_buf0 = (b, [97], [97])"
    by (simp add: rp_put_def rp_get_def rp_buf0_def BUFFER_SIZE_def rp_sid_def rp_next_def Let_def
        c_rem_nonneg to_schar_def)
  then have "rp_ins s = [97] \<and> rp_outs s = [97]" using rp_linearizable [OF s(1)] s(2) by auto
  with s show ?thesis by blast
qed

text \<open>C4: as long as no more than 26 letters were ever pending, the consumers get the letters
  in the order the producers stored them, and at most 26 are waiting.\<close>

theorem rp_fifo:
  assumes "reach rp_exec rp_init s" and "buffer_guards 26 (rp_ops s) 0"
  shows "\<exists>rest. rp_ins s = rp_outs s @ rest \<and> length rest \<le> 26"
  using rp_fifo_run [OF rp_run_of [OF assms(1)] assms(2)] .

theorem rp_fifo_witness:
  "\<exists>s rest. reach rp_exec rp_init s \<and> rp_ops s = [True, True, False] \<and>
     rp_ins s = rp_outs s @ rest \<and> length rest \<le> 26"
proof -
  obtain s where s: "reach rp_exec rp_init s" "rp_ops s = [True, True, False]"
    using rp_reachable_ops [of "[True, True, False]"] by (auto simp: MAX_CNT_CLNT_def)
  have "buffer_guards 26 (rp_ops s) 0" by (simp add: s(2))
  from rp_fifo [OF s(1) this] s show ?thesis by blast
qed

text \<open>The semaphore SE starts at 29 although the ring has 26 cells: 27 producers can run
  before the first consumer, which then gets the letter of the last of them instead of the first.\<close>

theorem rp_overwrite:
  "\<exists>s. reach rp_exec rp_init s \<and> rp_ops s = replicate 27 True @ [False] \<and>
     rp_ins s ! 0 = 97 \<and> rp_outs s = [123]"
proof -
  let ?es = "replicate 27 True @ [False]"
  have "buffer_guards 29 ?es 0" by (simp add: numeral_eq_Suc)
  moreover have "length ?es \<le> MAX_CNT_CLNT" by (simp add: MAX_CNT_CLNT_def)
  ultimately obtain s where s: "reach rp_exec rp_init s" "rp_ops s = ?es" by (rule rp_reachable_ops)
  obtain b ins where b: "buffer_run rp_put rp_get ?es rp_buf0 = (b, ins, [123])" "ins ! 0 = 97"
    using rp_overfull by blast
  have "(b, ins, [123]) = (rp_done s, rp_ins s, rp_outs s)"
    using rp_run_of [OF s(1)] unfolding s(2) b(1) .
  then have "rp_ins s ! 0 = 97 \<and> rp_outs s = [123]" using b(2) by (simp only: prod.inject)
  with s show ?thesis by blast
qed

text \<open>The letter cell is never set back: the k-th producer stores the character 97 + k, reduced
  to a signed char, so that from the 27th on it is no lower-case letter.\<close>

theorem rp_letters:
  assumes "reach rp_exec rp_init s"
  shows "rp_ins s = map (\<lambda>k. to_schar (97 + int k)) [0..<length (rp_ins s)]"
proof -
  have "rp_buf0 ! 2 = to_schar (97 + int 0)" by (simp add: rp_buf0_def BUFFER_SIZE_def to_schar_def)
  from rp_letters_run [OF rp_run_of [OF assms] rp_buf0_ok this] show ?thesis by simp
qed

theorem rp_letters_witness:
  "\<exists>s. reach rp_exec rp_init s \<and> length (rp_ins s) = 2 \<and> rp_ins s = [97, 98]"
proof -
  obtain s where s: "reach rp_exec rp_init s" "rp_ops s = [True, True]"
    using rp_reachable_ops [of "[True, True]"] by (auto simp: MAX_CNT_CLNT_def)
  have "length (rp_ins s) = 2"
    using rp_reach_two [OF s] .
  moreover have "rp_ins s = [97, 98]"
    using rp_letters [OF s(1)] unfolding calculation by (simp add: upt_rec to_schar_def)
  ultimately show ?thesis using s by blast
qed

text \<open>The answer to a poll with a valid index is the character in the client's cell when
  that is a lower-case letter, and a dash otherwise; nothing but the static answer changes.\<close>

theorem rp_poll_answer:
  assumes "i < MAX_CNT_CLNT"
  shows "map_option (map_option rq_result \<circ> snd) (rp_service m \<lparr>rq_idx = int i, rq_type = ty, rq_result = 45\<rparr> s) =
      Some (Some (if is_lower (rp_result s i) then rp_result s i else 45)) \<and>
    map_option (rp_phase \<circ> fst) (rp_service m \<lparr>rq_idx = int i, rq_type = ty, rq_result = 45\<rparr> s) =
      Some (rp_phase s)"
  using assms by (simp add: rp_service_def Let_def)

theorem rp_poll_answer_witness:
  "map_option (map_option rq_result \<circ> snd) (rp_service True \<lparr>rq_idx = 0, rq_type = 112, rq_result = 45\<rparr> rp_init) =
     Some (Some 45)"
  using rp_poll_answer [of 0 True 112 rp_init] by (simp add: MAX_CNT_CLNT_def rp_init_eq is_lower_def)

text \<open>A client that only ever gets dashes never reports a letter: it polls until the time
  check ends the loop and then prints what it was last told.\<close>

theorem rp_client_dashes:
  assumes "\<forall>a \<in> set as. \<exists>r' t. a = (Some r', t) \<and> \<not> is_lower (rq_result r')"
    and "\<not> is_lower (rq_result r)" and "rp_client ty (Some r) as = RPrinted i ty' c"
  shows "i = rq_idx r \<and> ty' = ty \<and> \<not> is_lower c"
proof -
  obtain r' where r': "rp_poll (Some r) as = Some (Some r')" "c = (if rq_result r' = 0 then 45 else rq_result r')"
    "i = rq_idx r" "ty' = ty"
    using assms(3) by (auto simp: rp_client_def split: option.splits)
  have "\<not> is_lower (rq_result r')" by (rule rp_poll_dashes [OF assms(2,1) r'(1)])
  then show ?thesis using r' by (auto simp: is_lower_def)
qed

theorem rp_client_dashes_witness:
  "\<exists>c. rp_client 112 (Some \<lparr>rq_idx = 26, rq_type = 0, rq_result = 45\<rparr>)
       [(Some \<lparr>rq_idx = 26, rq_type = 0, rq_result = 45\<rparr>, True)] = RPrinted 26 112 c \<and> \<not> is_lower c"
proof -
  let ?r = "\<lparr>rq_idx = 26, rq_type = 0, rq_result = 45\<rparr>"
  have "rp_client 112 (Some ?r) [(Some ?r, True)] = RPrinted 26 112 45"
    by (simp add: rp_client_def is_lower_def)
  moreover have "\<forall>a \<in> set [(Some ?r, True)]. \<exists>r' t. a = (Some r', t) \<and> \<not> is_lower (rq_result r')"
    "\<not> is_lower (rq_result ?r)" by (auto simp: is_lower_def)
  ultimately show ?thesis using rp_client_dashes [of "[(Some ?r, True)]" ?r] by blast
qed

text \<open>A failed poll ends in a null pointer: the loop is left and its result dereferenced.\<close>

lemma rp_client_null:
  "\<not> is_lower (rq_result r) \<Longrightarrow> rp_client ty (Some r) ((None, b) # as) = RNullPointer"
  by (simp add: rp_client_def)

end
