(* ===== verification/Calculators.thy ===== *)
theory Calculators
  imports Prelude
begin

section \<open>The calculators\<close>

text \<open>
  Three servers evaluate one of four operations on two floating-point numbers: lab-rpc/calculator,
  lab-socket/task-03, and lab-rpc/bakery (theory Bakery). The numbers are values of a type \<open>'f\<close>
  whose operations are the fields of \<open>flt\<close>: the models use of the C types
  \<^verbatim>\<open>float\<close> and \<^verbatim>\<open>double\<close> only these.
\<close>

record 'f flt =
  f_add :: "'f \<Rightarrow> 'f \<Rightarrow> 'f"
  f_sub :: "'f \<Rightarrow> 'f \<Rightarrow> 'f"
  f_mul :: "'f \<Rightarrow> 'f \<Rightarrow> 'f"
  f_div :: "'f \<Rightarrow> 'f \<Rightarrow> 'f"
  f_zero :: 'f
  f_inf :: 'f
  f_eq :: "'f \<Rightarrow> 'f \<Rightarrow> bool"

text \<open>An instance to evaluate with: integers, with an extra element for infinity.\<close>

definition int_flt :: "int option flt" where
  "int_flt = \<lparr>
     f_add = (\<lambda>x y. case (x, y) of (Some a, Some b) \<Rightarrow> Some (a + b) | _ \<Rightarrow> None),
     f_sub = (\<lambda>x y. case (x, y) of (Some a, Some b) \<Rightarrow> Some (a - b) | _ \<Rightarrow> None),
     f_mul = (\<lambda>x y. case (x, y) of (Some a, Some b) \<Rightarrow> Some (a * b) | _ \<Rightarrow> None),
     f_div = (\<lambda>x y. case (x, y) of (Some a, Some b) \<Rightarrow> if b = 0 then None else Some (a div b) | _ \<Rightarrow> None),
     f_zero = Some 0, f_inf = None, f_eq = (=)\<rparr>"

subsection \<open>The RPC calculator\<close>

definition ADD :: int where "ADD = 0"
definition SUB :: int where "SUB = 1"
definition MUL :: int where "MUL = 2"
definition DIV :: int where "DIV = 3"

lemmas op_codes = ADD_def SUB_def MUL_def DIV_def

record 'f calc_request =
  ca_op :: int
  ca_arg1 :: 'f
  ca_arg2 :: 'f

text \<open>
  \<^verbatim>\<open>calculator_proc_1_svc\<close>: the first argument after the operations is what the static
  \<^verbatim>\<open>result\<close> holds, which an invalid operation leaves alone.
\<close>

definition calculator_proc :: "'f flt \<Rightarrow> 'f \<Rightarrow> 'f calc_request \<Rightarrow> 'f" where
  "calculator_proc F result r =
     (if ca_op r = ADD then f_add F (ca_arg1 r) (ca_arg2 r)
      else if ca_op r = SUB then f_sub F (ca_arg1 r) (ca_arg2 r)
      else if ca_op r = MUL then f_mul F (ca_arg1 r) (ca_arg2 r)
      else if ca_op r = DIV then
        (if \<not> f_eq F (ca_arg2 r) (f_zero F) then f_div F (ca_arg1 r) (ca_arg2 r) else f_zero F)
      else result)"

text \<open>
  The client reads one character for the operation and exits on any but 0 to 3; \<^term>\<open>None\<close> is
  the exit.
\<close>

definition calculator_client_op :: "int \<Rightarrow> int option" where
  "calculator_client_op c = (if 51 < c \<or> c < 48 then None else Some (c - 48))"

subsection \<open>The socket calculator\<close>

text \<open>\<^verbatim>\<open>main\<close> of task-03, the evaluation of one request; the operation is a character.\<close>

definition socket_calc :: "'f flt \<Rightarrow> int \<Rightarrow> 'f \<Rightarrow> 'f \<Rightarrow> 'f" where
  "socket_calc F op num1 num2 =
     (if op = 43 then f_add F num1 num2
      else if op = 45 then f_sub F num1 num2
      else if op = 42 then f_mul F num1 num2
      else if op = 47 \<and> \<not> f_eq F num2 (f_zero F) then f_div F num1 num2
      else f_zero F)"

text \<open>
  The loop around it: each turn holds the loop flag, whether \<^verbatim>\<open>accept\<close> succeeded, what the four
  calls of \<^verbatim>\<open>recv\<close> delivered (\<^term>\<open>None\<close> when one of them did not), and whether \<^verbatim>\<open>send\<close>
  succeeded. The result lists the answers sent and counts the client sockets opened and closed.
\<close>

record 'f calc_turn =
  ct_flag :: bool
  ct_accept :: bool
  ct_request :: "('f \<times> 'f \<times> int) option"
  ct_send :: bool

fun socket_calc_loop :: "'f flt \<Rightarrow> 'f calc_turn list \<Rightarrow> 'f list \<times> nat \<times> nat" where
  "socket_calc_loop F [] = ([], 0, 0)"
| "socket_calc_loop F (t # ts) =
     (if \<not> ct_flag t then ([], 0, 0)
      else if \<not> ct_accept t then socket_calc_loop F ts
      else
        let (out, opened, closed) = socket_calc_loop F ts in
        (case ct_request t of
           None \<Rightarrow> (out, Suc opened, Suc closed)
         | Some (a, b, op) \<Rightarrow>
             (if ct_send t then socket_calc F op a b # out else out, Suc opened, Suc closed)))"

text \<open>The character of task-03 for each operation code.\<close>

definition op_char :: "int \<Rightarrow> int" where
  "op_char op = (if op = ADD then 43 else if op = SUB then 45 else if op = MUL then 42 else 47)"


subsection \<open>Properties\<close>

text \<open>For every operation that its client can ask for, the RPC calculator returns what the
  socket calculator returns for the corresponding character, whatever was computed before; any
  other operation gets the previous result.\<close>

theorem calculators_agree:
  "(case calculator_client_op c of
      Some op \<Rightarrow> calculator_proc F old \<lparr>ca_op = op, ca_arg1 = x, ca_arg2 = y\<rparr> = socket_calc F (op_char op) x y
    | None \<Rightarrow> calculator_proc F old \<lparr>ca_op = c - 48, ca_arg1 = x, ca_arg2 = y\<rparr> = old)"
proof (cases "calculator_client_op c")
  case None
  then have "c - 48 \<noteq> ADD \<and> c - 48 \<noteq> SUB \<and> c - 48 \<noteq> MUL \<and> c - 48 \<noteq> DIV"
    by (auto simp: calculator_client_op_def op_codes split: if_splits)
  with None show ?thesis by (simp add: calculator_proc_def)
next
  case (Some op)
  then have "op = ADD \<or> op = SUB \<or> op = MUL \<or> op = DIV"
    by (auto simp: calculator_client_op_def op_codes split: if_splits)
  with Some show ?thesis by (auto simp: calculator_proc_def socket_calc_def op_char_def op_codes)
qed

text \<open>Every connection that the socket calculator accepts is closed again.\<close>

lemma socket_calc_closes: "fst (snd (socket_calc_loop F ts)) = snd (snd (socket_calc_loop F ts))"
  by (induction F ts rule: socket_calc_loop.induct) (auto simp: Let_def split: option.splits prod.splits)

end
