(* ===== verification/Bakery.thy ===== *)
theory Bakery
  imports Calculators
begin

section \<open>The bakery server\<close>

text \<open>
  Model of lab-rpc/bakery: the two procedures of the server, which hand out numbers and serve the
  client with the smallest one, and the polling client. The server runs one procedure at a time, so
  a call is one step; the index a client sends is not checked, and a call with an index outside the
  arrays, or when the next number does not fit an \<^verbatim>\<open>int\<close>, is \<^term>\<open>None\<close>.
\<close>

subsection \<open>State and operations\<close>

definition MAX_CLNT_CNT :: nat where "MAX_CLNT_CNT = 128"

record 'f bk_request =
  bq_pid :: int
  bq_idx :: int
  bq_op :: int
  bq_arg1 :: 'f
  bq_arg2 :: 'f

record 'f bk_state =
  choosing :: "bool list"
  numbers :: "int list"
  pids :: "int list"
  bk_result :: 'f

definition bk_start :: "'f flt \<Rightarrow> 'f bk_state" where
  "bk_start F = \<lparr>choosing = replicate MAX_CLNT_CNT False, numbers = replicate MAX_CLNT_CNT 0,
     pids = replicate MAX_CLNT_CNT 0, bk_result = f_zero F\<rparr>"

fun max_from :: "int \<Rightarrow> int list \<Rightarrow> int" where
  "max_from res [] = res"
| "max_from res (n # ns) = max_from (if n > res then n else res) ns"

definition max_number :: "'f bk_state \<Rightarrow> int" where
  "max_number s = max_from (numbers s ! 0) (tl (numbers s))"

definition bk_index_ok :: "'f bk_request \<Rightarrow> bool" where
  "bk_index_ok r \<longleftrightarrow> 0 \<le> bq_idx r \<and> bq_idx r < int MAX_CLNT_CNT"

definition get_number :: "'f bk_request \<Rightarrow> 'f bk_state \<Rightarrow> ('f bk_state \<times> int) option" where
  "get_number r s =
     (if bk_index_ok r then
        let i = nat (bq_idx r);
            s1 = s\<lparr>pids := (pids s)[i := bq_pid r], choosing := (choosing s)[i := True]\<rparr>;
            n = max_number s1 + 1 in
        if is_c_int n then
          Some (s1\<lparr>numbers := (numbers s1)[i := n], choosing := (choosing s1)[i := False]\<rparr>, n)
        else None
      else None)"

text \<open>The test of the loop for client \<open>i\<close> against the caller \<open>j\<close>.\<close>

definition has_priority :: "'f bk_state \<Rightarrow> nat \<Rightarrow> nat \<Rightarrow> bool" where
  "has_priority s i j \<longleftrightarrow> numbers s ! i \<noteq> 0 \<and>
     (numbers s ! i < numbers s ! j \<or> numbers s ! i = numbers s ! j \<and> pids s ! i < pids s ! j)"

definition bk_blocker :: "'f bk_state \<Rightarrow> nat \<Rightarrow> nat option" where
  "bk_blocker s j = find (\<lambda>i. choosing s ! i \<or> has_priority s i j) [0..<MAX_CLNT_CNT]"

text \<open>The switch: a division by zero and an unknown operation keep the static result.\<close>

definition bk_compute :: "'f flt \<Rightarrow> 'f \<Rightarrow> 'f bk_request \<Rightarrow> 'f" where
  "bk_compute F result r =
     (if bq_op r = ADD then f_add F (bq_arg1 r) (bq_arg2 r)
      else if bq_op r = SUB then f_sub F (bq_arg1 r) (bq_arg2 r)
      else if bq_op r = MUL then f_mul F (bq_arg1 r) (bq_arg2 r)
      else if bq_op r = DIV then
        (if f_eq F (bq_arg2 r) (f_zero F) then result else f_div F (bq_arg1 r) (bq_arg2 r))
      else result)"

text \<open>The flag of the result says whether the caller was served (it is not part of the answer).\<close>

definition bakery_service :: "'f flt \<Rightarrow> 'f bk_request \<Rightarrow> 'f bk_state \<Rightarrow> ('f bk_state \<times> bool) option" where
  "bakery_service F r s =
     (if bk_index_ok r then
        let j = nat (bq_idx r) in
        case bk_blocker s j of
          Some i \<Rightarrow> Some (s\<lparr>bk_result := f_inf F\<rparr>, False)
        | None \<Rightarrow>
            Some (s\<lparr>bk_result := bk_compute F (bk_result s) r, numbers := (numbers s)[j := 0],
              choosing := (choosing s)[j := False]\<rparr>, True)
      else None)"

datatype 'f bk_event = GetNumber "'f bk_request" | Service "'f bk_request"

fun bk_exec :: "'f flt \<Rightarrow> 'f bk_state \<Rightarrow> 'f bk_event \<Rightarrow> 'f bk_state option" where
  "bk_exec F s (GetNumber r) = map_option fst (get_number r s)"
| "bk_exec F s (Service r) = map_option fst (bakery_service F r s)"

subsection \<open>Invariant\<close>

definition bk_inv :: "'f bk_state \<Rightarrow> bool" where
  "bk_inv s \<longleftrightarrow> length (numbers s) = 128 \<and> length (pids s) = 128 \<and> length (choosing s) = 128 \<and>
     (\<forall>b \<in> set (choosing s). \<not> b) \<and> (\<forall>n \<in> set (numbers s). 0 \<le> n)"

lemma max_from_ge: "res \<le> max_from res ns \<and> (\<forall>n \<in> set ns. n \<le> max_from res ns)"
proof (induction ns arbitrary: res)
  case (Cons a ns)
  show ?case using Cons.IH [of a] Cons.IH [of res] by auto
qed simp

lemma max_number_ge:
  assumes "length (numbers s) = 128" and "i < 128"
  shows "numbers s ! i \<le> max_number s"
proof -
  obtain n ns where ns: "numbers s = n # ns" using assms by (cases "numbers s") auto
  then have "numbers s ! i \<in> insert n (set ns)" using assms nth_mem [of i "numbers s"] by simp
  then show ?thesis using max_from_ge [of n ns] by (auto simp: max_number_def ns)
qed

lemma get_number_effect:
  assumes "bk_inv s" and "get_number r s = Some (t, n)"
  shows "bk_inv t" and "numbers t = (numbers s)[nat (bq_idx r) := n]"
    and "i < 128 \<Longrightarrow> numbers s ! i < n" and "pids t = (pids s)[nat (bq_idx r) := bq_pid r]"
    and "nat (bq_idx r) < 128"
proof -
  let ?j = "nat (bq_idx r)"
  have len: "length (numbers s) = 128" using assms(1) by (simp add: bk_inv_def)
  have eq: "n = max_number s + 1" "numbers t = (numbers s)[?j := n]" "pids t = (pids s)[?j := bq_pid r]"
    "choosing t = (choosing s)[?j := False]"
    using assms(2) by (auto simp: get_number_def max_number_def Let_def split: if_splits)
  show j: "?j < 128"
    using assms(2) by (auto simp: get_number_def bk_index_ok_def MAX_CLNT_CNT_def split: if_splits)
  have lt: "k < 128 \<Longrightarrow> numbers s ! k < n" for k using max_number_ge [OF len, of k] eq by simp
  then show "i < 128 \<Longrightarrow> numbers s ! i < n" .
  have "0 \<le> numbers s ! 0" using assms(1) len by (simp add: bk_inv_def)
  with lt [of 0] have "0 \<le> n" by simp
  then have "\<forall>m \<in> set (numbers t). 0 \<le> m"
    unfolding eq(2) using assms(1) by (intro all_nth_update) (auto simp: bk_inv_def)
  moreover have "\<forall>c \<in> set (choosing t). \<not> c"
    unfolding eq(4) using assms(1) by (intro all_nth_update) (auto simp: bk_inv_def)
  ultimately show "bk_inv t" using assms(1) eq by (simp add: bk_inv_def)
  show "numbers t = (numbers s)[?j := n]" "pids t = (pids s)[?j := bq_pid r]" using eq by simp_all
qed

lemma bakery_service_effect:
  assumes "bakery_service F r s = Some (t, served)"
  shows "numbers t = (if served then (numbers s)[nat (bq_idx r) := 0] else numbers s)"
    and "pids t = pids s"
    and "choosing t = (if served then (choosing s)[nat (bq_idx r) := False] else choosing s)"
    and "served \<longleftrightarrow> bk_blocker s (nat (bq_idx r)) = None"
    and "bk_result t = (if served then bk_compute F (bk_result s) r else f_inf F)"
    and "nat (bq_idx r) < 128"
  using assms
  by (auto simp: bakery_service_def bk_index_ok_def MAX_CLNT_CNT_def Let_def split: if_splits option.splits)

interpretation bk: invariant_system "bk_exec F" "bk_start F" bk_inv for F
proof
  show "bk_inv (bk_start F)" by (simp add: bk_inv_def bk_start_def MAX_CLNT_CNT_def)
next
  fix s e t
  assume inv: "bk_inv s" and ex: "bk_exec F s e = Some t"
  show "bk_inv t"
  proof (cases e)
    case (GetNumber r)
    with ex get_number_effect(1) [OF inv] show ?thesis by auto
  next
    case (Service r)
    with ex obtain b where b: "bakery_service F r s = Some (t, b)" by auto
    note eff = bakery_service_effect [OF b]
    have "\<forall>m \<in> set ((numbers s)[nat (bq_idx r) := 0]). 0 \<le> m"
      using inv by (intro all_nth_update) (auto simp: bk_inv_def)
    moreover have "\<forall>c \<in> set ((choosing s)[nat (bq_idx r) := False]). \<not> c"
      using inv by (intro all_nth_update) (auto simp: bk_inv_def)
    ultimately show ?thesis using eff(1-3) inv by (cases b) (auto simp: bk_inv_def)
  qed
qed

text \<open>The scan finds nobody exactly when no client has priority.\<close>

lemma bk_blocker_none:
  assumes "bk_inv s"
  shows "bk_blocker s j = None \<longleftrightarrow> (\<forall>i < 128. \<not> has_priority s i j)"
proof -
  have "\<not> choosing s ! i" if "i < 128" for i
    using assms that nth_mem [of i "choosing s"] unfolding bk_inv_def by metis
  then have "(choosing s ! i \<or> has_priority s i j) = has_priority s i j" if "i < 128" for i
    using that by simp
  then show ?thesis by (auto simp: bk_blocker_def find_None_iff MAX_CLNT_CNT_def)
qed

subsection \<open>Someone can always be served\<close>

text \<open>What a client holds, in the order in which the server looks at it: by number, and then by process id.\<close>

datatype ticket = Ticket (ticket_number: int) (ticket_pid: int)

instantiation ticket :: linorder
begin

definition less_eq_ticket :: "ticket \<Rightarrow> ticket \<Rightarrow> bool" where
  "less_eq_ticket x y \<longleftrightarrow> ticket_number x < ticket_number y \<or>
     ticket_number x = ticket_number y \<and> ticket_pid x \<le> ticket_pid y"

definition less_ticket :: "ticket \<Rightarrow> ticket \<Rightarrow> bool" where
  "less_ticket x y \<longleftrightarrow> ticket_number x < ticket_number y \<or>
     ticket_number x = ticket_number y \<and> ticket_pid x < ticket_pid y"

instance
  by standard (auto simp: less_eq_ticket_def less_ticket_def intro: ticket.expand)

end

definition ticket_of :: "'f bk_state \<Rightarrow> nat \<Rightarrow> ticket" where
  "ticket_of s i = Ticket (numbers s ! i) (pids s ! i)"

lemma has_priority_ticket: "has_priority s i j \<longleftrightarrow> numbers s ! i \<noteq> 0 \<and> ticket_of s i < ticket_of s j"
  by (simp add: has_priority_def ticket_of_def less_ticket_def)

lemma bk_someone:
  assumes "bk_inv s" and "i < 128" and "numbers s ! i \<noteq> 0"
  shows "\<exists>j < 128. numbers s ! j \<noteq> 0 \<and> bk_blocker s j = None"
proof -
  let ?A = "{j. j < 128 \<and> numbers s ! j \<noteq> 0}"
  have A: "?A \<noteq> {}" "finite ?A" using assms by auto
  then have "Min (ticket_of s ` ?A) \<in> ticket_of s ` ?A" by (intro Min_in) auto
  then obtain j where j: "j \<in> ?A" "ticket_of s j = Min (ticket_of s ` ?A)" by auto
  then have "\<not> ticket_of s k < ticket_of s j" if "k \<in> ?A" for k
    using that A(2) by (simp add: not_less)
  with j(1) show ?thesis by (auto simp: bk_blocker_none [OF assms(1)] has_priority_ticket)
qed

subsection \<open>First come, first served\<close>

fun bk_event_idx :: "'f bk_event \<Rightarrow> nat" where
  "bk_event_idx (GetNumber r) = nat (bq_idx r)"
| "bk_event_idx (Service r) = nat (bq_idx r)"

fun is_get :: "'f bk_event \<Rightarrow> bool" where
  "is_get (GetNumber _) = True"
| "is_get (Service _) = False"

text \<open>The clients that are served in a run, in this order.\<close>

fun bk_serves :: "'f flt \<Rightarrow> 'f bk_state \<Rightarrow> 'f bk_event \<Rightarrow> bool" where
  "bk_serves F s (GetNumber r) = False"
| "bk_serves F s (Service r) = (case bakery_service F r s of None \<Rightarrow> False | Some (t, served) \<Rightarrow> served)"

fun bk_served :: "'f flt \<Rightarrow> 'f bk_state \<Rightarrow> 'f bk_event list \<Rightarrow> nat list" where
  "bk_served F s [] = []"
| "bk_served F s (e # es) =
     (if bk_serves F s e then [bk_event_idx e] else []) @
     (case bk_exec F s e of None \<Rightarrow> [] | Some t \<Rightarrow> bk_served F t es)"

text \<open>Until client \<open>a\<close> is served, client \<open>b\<close> with a larger number keeps it and is refused.\<close>

lemma bk_waits_step:
  assumes inv: "bk_inv s" and ab: "a < 128" "b < 128" "0 < numbers s ! a" "numbers s ! a < numbers s ! b"
    and e: "is_get e \<Longrightarrow> bk_event_idx e \<noteq> a \<and> bk_event_idx e \<noteq> b" "bk_serves F s e \<Longrightarrow> bk_event_idx e \<noteq> a"
    and ex: "bk_exec F s e = Some t"
  shows "numbers t ! a = numbers s ! a \<and> numbers t ! b = numbers s ! b"
proof (cases e)
  case (GetNumber r)
  with ex obtain n where n: "get_number r s = Some (t, n)" by auto
  from get_number_effect(2) [OF inv n] e(1) GetNumber show ?thesis by simp
next
  case (Service r)
  with ex obtain d where d: "bakery_service F r s = Some (t, d)" by auto
  note eff = bakery_service_effect [OF d]
  have "has_priority s a b" using ab by (simp add: has_priority_def)
  then have "bk_blocker s b \<noteq> None" using ab by (auto simp: bk_blocker_none [OF inv])
  then have "d \<Longrightarrow> nat (bq_idx r) \<noteq> b" using eff(4) by auto
  moreover have "d \<Longrightarrow> nat (bq_idx r) \<noteq> a" using e(2) Service d by simp
  ultimately show ?thesis using eff(1) by (cases d) simp_all
qed

lemma bk_waits_run:
  "run (bk_exec F) s es = Some t \<Longrightarrow> bk_inv s \<Longrightarrow> a < 128 \<Longrightarrow> b < 128 \<Longrightarrow> 0 < numbers s ! a \<Longrightarrow>
     numbers s ! a < numbers s ! b \<Longrightarrow>
     \<forall>e \<in> set es. is_get e \<longrightarrow> bk_event_idx e \<noteq> a \<and> bk_event_idx e \<noteq> b \<Longrightarrow> a \<notin> set (bk_served F s es) \<Longrightarrow>
     bk_inv t \<and> numbers t ! a = numbers s ! a \<and> numbers t ! b = numbers s ! b"
proof (induction es arbitrary: s)
  case Nil
  then show ?case by simp
next
  case (Cons e es)
  then obtain u where u: "bk_exec F s e = Some u" "run (bk_exec F) u es = Some t"
    by (auto split: option.splits)
  have e: "is_get e \<Longrightarrow> bk_event_idx e \<noteq> a \<and> bk_event_idx e \<noteq> b" "bk_serves F s e \<Longrightarrow> bk_event_idx e \<noteq> a"
    using Cons.prems(7,8) by auto
  have rest: "a \<notin> set (bk_served F u es)" using Cons.prems(8) u(1) by simp
  note st = bk_waits_step [OF Cons.prems(2-6) e u(1)]
  have "bk_inv u" by (rule bk.inv_exec [OF Cons.prems(2) u(1)])
  from Cons.IH [OF u(2) this Cons.prems(3,4) _ _ _ rest] st Cons.prems(5-7) show ?case by simp
qed

lemma bk_behind:
  assumes "reach (bk_exec F) (bk_start F) s" and "get_number r s = Some (t, n)"
    and "a < 128" and "numbers s ! a \<noteq> 0" and "a \<noteq> nat (bq_idx r)"
    and "run (bk_exec F) t es = Some u"
    and "\<forall>e \<in> set es. is_get e \<longrightarrow> bk_event_idx e \<noteq> a \<and> bk_event_idx e \<noteq> nat (bq_idx r)"
    and "a \<notin> set (bk_served F t es)"
    and "nat (bq_idx q) = nat (bq_idx r)" and "bakery_service F q u = Some (v, served)"
  shows "\<not> served"
proof -
  have inv: "bk_inv s" by (rule bk.reach_inv [OF assms(1)])
  note eff = get_number_effect [OF inv assms(2)]
  let ?b = "nat (bq_idx r)"
  have "0 \<le> numbers s ! a" using inv assms(3) by (simp add: bk_inv_def)
  then have pos: "0 < numbers t ! a" using assms(4,5) eff(2) by simp
  have len: "length (numbers s) = 128" using inv by (simp add: bk_inv_def)
  have lt: "numbers t ! a < numbers t ! ?b" using eff(2,3,5) assms(3,5) len by simp
  note w = bk_waits_run [OF assms(6) eff(1) assms(3) eff(5) pos lt assms(7,8)]
  then have "has_priority u a ?b" using pos lt by (simp add: has_priority_def)
  then have "bk_blocker u ?b \<noteq> None" using w assms(3) by (auto simp: bk_blocker_none)
  with bakery_service_effect(4) [OF assms(10)] assms(9) show ?thesis by simp
qed

lemma bk_served_idx: "i \<in> set (bk_served F s es) \<Longrightarrow> \<exists>e \<in> set es. \<not> is_get e \<and> bk_event_idx e = i"
  by (induction es arbitrary: s) (fastforce split: if_splits option.splits elim: bk_serves.elims)+

lemma bk_zero_served:
  assumes inv: "bk_inv s" and "bk_index_ok r" and "numbers s ! nat (bq_idx r) = 0"
  shows "map_option snd (bakery_service F r s) = Some True"
proof -
  have "\<not> has_priority s i (nat (bq_idx r))" if "i < 128" for i
  proof -
    have "0 \<le> numbers s ! i" using inv that by (simp add: bk_inv_def)
    then show ?thesis using assms(3) by (auto simp: has_priority_def)
  qed
  then have "bk_blocker s (nat (bq_idx r)) = None" by (simp add: bk_blocker_none [OF inv])
  then show ?thesis using assms(2) by (simp add: bakery_service_def Let_def)
qed

text \<open>A client that holds no number has none until it asks for one.\<close>

lemma bk_zero_kept:
  "run (bk_exec F) s es = Some t \<Longrightarrow> bk_inv s \<Longrightarrow> numbers s ! j = 0 \<Longrightarrow>
     \<forall>e \<in> set es. \<not> (is_get e \<and> bk_event_idx e = j) \<Longrightarrow> bk_inv t \<and> numbers t ! j = 0"
proof (induction es arbitrary: s)
  case Nil
  then show ?case by simp
next
  case (Cons e es)
  then obtain u where u: "bk_exec F s e = Some u" "run (bk_exec F) u es = Some t"
    by (auto split: option.splits)
  have "numbers u ! j = 0"
  proof (cases e)
    case (GetNumber r)
    with u obtain n where n: "get_number r s = Some (u, n)" by auto
    from get_number_effect(2) [OF Cons.prems(2) n] Cons.prems(3,4) GetNumber show ?thesis by simp
  next
    case (Service r)
    with u obtain d where d: "bakery_service F r s = Some (u, d)" by auto
    have len: "length (numbers s) = 128" using Cons.prems(2) by (simp add: bk_inv_def)
    from bakery_service_effect(1,6) [OF d] Cons.prems(3) len show ?thesis
      by (cases "nat (bq_idx r) = j"; cases d) simp_all
  qed
  with Cons.IH [OF u(2) bk.inv_exec [OF Cons.prems(2) u(1)]] Cons.prems(4) show ?case by simp
qed

subsection \<open>Two clients never hold the same number\<close>

definition bk_no_tie :: "'f bk_state \<Rightarrow> bool" where
  "bk_no_tie s \<longleftrightarrow> (\<forall>i < 128. \<forall>j < 128. numbers s ! i = numbers s ! j \<and> numbers s ! i \<noteq> 0 \<longrightarrow> i = j)"

lemma bk_no_tieD:
  "bk_no_tie s \<Longrightarrow> i < 128 \<Longrightarrow> j < 128 \<Longrightarrow> numbers s ! i = numbers s ! j \<Longrightarrow> i \<noteq> j \<Longrightarrow> numbers s ! i = 0"
  unfolding bk_no_tie_def by metis

lemma bk_no_tie_update:
  assumes "bk_no_tie s" and "length (numbers s) = 128" and "numbers t = (numbers s)[k := n]"
    and "n = 0 \<or> (\<forall>i < 128. numbers s ! i \<noteq> n)"
  shows "bk_no_tie t"
  unfolding bk_no_tie_def
proof (intro allI impI)
  fix i j :: nat
  assume ij: "i < 128" "j < 128" "numbers t ! i = numbers t ! j \<and> numbers t ! i \<noteq> 0"
  have "numbers t ! m = (if k = m then n else numbers s ! m)" if "m < 128" for m
    using assms(2,3) that by (cases "k = m") auto
  then show "i = j" using bk_no_tieD [OF assms(1) ij(1,2)] ij assms(4) by (auto split: if_splits)
qed

lemma bk_no_tie_exec:
  assumes inv: "bk_inv s" and tie: "bk_no_tie s" and ex: "bk_exec F s e = Some t"
  shows "bk_no_tie t"
proof -
  have len: "length (numbers s) = 128" using inv by (simp add: bk_inv_def)
  show ?thesis
  proof (cases e)
    case (GetNumber r)
    then obtain n where n: "get_number r s = Some (t, n)" using ex by auto
    note eff = get_number_effect [OF inv n]
    have "\<forall>i < 128. numbers s ! i \<noteq> n" using eff(3) by auto
    then show ?thesis using bk_no_tie_update [OF tie len eff(2)] by blast
  next
    case (Service r)
    then obtain b where b: "bakery_service F r s = Some (t, b)" using ex by auto
    show ?thesis
      using bakery_service_effect(1) [OF b] bk_no_tie_update [OF tie len, of t _ 0] tie
      by (cases b) (auto simp: bk_no_tie_def)
  qed
qed

lemma bk_no_tie_start: "bk_no_tie (bk_start F)"
  by (simp add: bk_no_tie_def bk_start_def MAX_CLNT_CNT_def)

interpretation bk_tie: invariant_system "bk_exec F" "bk_start F" "\<lambda>s. bk_inv s \<and> bk_no_tie s" for F
  by unfold_locales (blast intro: bk.inv_start bk_no_tie_start bk.inv_exec bk_no_tie_exec)+

subsection \<open>The client\<close>

text \<open>
  The loop of \<^verbatim>\<open>bakery_prog_1\<close> on given answers: it stops at a failed call, at an answer
  other than infinity, or after \<^verbatim>\<open>ATTEMPTS\<close> refusals. The last answer is then dereferenced.
\<close>

definition ATTEMPTS :: nat where "ATTEMPTS = 30"

datatype 'f bk_outcome = BkNull | BkGot 'f | BkExhausted | BkPolling

fun bk_attempts :: "'f flt \<Rightarrow> nat \<Rightarrow> 'f option list \<Rightarrow> 'f bk_outcome" where
  "bk_attempts F at as =
     (if at < ATTEMPTS then
        (case as of
           [] \<Rightarrow> BkPolling
         | None # _ \<Rightarrow> BkNull
         | Some x # as' \<Rightarrow>
             if f_eq F x (f_inf F) then
               (if at + 1 < ATTEMPTS then bk_attempts F (at + 1) as' else BkExhausted)
             else BkGot x)
      else BkExhausted)"

declare bk_attempts.simps [simp del]

lemma bk_attempts_refused:
  "n + at = ATTEMPTS \<Longrightarrow> f_eq F (f_inf F) (f_inf F) \<Longrightarrow>
     bk_attempts F at (replicate n (Some (f_inf F)) @ rest) = BkExhausted"
proof (induction n arbitrary: at)
  case 0
  then show ?case by (subst bk_attempts.simps) simp
next
  case (Suc n)
  then show ?case by (subst bk_attempts.simps) simp
qed

lemma bakery_service_total: "bk_index_ok r \<Longrightarrow> bakery_service F r s \<noteq> None"
  by (cases "bk_blocker s (nat (bq_idx r))") (simp_all add: bakery_service_def Let_def)

lemma bakery_service_some:
  assumes "bk_inv s" and "bk_index_ok r"
  shows "\<exists>t. bakery_service F r s = Some (t, \<forall>i < 128. \<not> has_priority s i (nat (bq_idx r)))"
proof -
  obtain t b where t: "bakery_service F r s = Some (t, b)" using bakery_service_total [OF assms(2), of F s] by auto
  with bakery_service_effect(4) [OF t] bk_blocker_none [OF assms(1)] show ?thesis by simp
qed

lemma bk_fresh_state: "reach (bk_exec F) (bk_start F) (bk_start F)"
  by (rule reach.reach_init)

definition bk_req :: "int \<Rightarrow> int \<Rightarrow> int \<Rightarrow> int \<Rightarrow> int \<Rightarrow> int option bk_request" where
  "bk_req pid idx op x y =
     \<lparr>bq_pid = pid, bq_idx = idx, bq_op = op, bq_arg1 = Some x, bq_arg2 = Some y\<rparr>"

subsection \<open>Properties\<close>

text \<open>C22: a caller is served only when no other client with a number comes before it in the order
  of numbers and, for equal numbers, of process ids; as long as there is a number, some client
  that holds one would be served.\<close>

theorem bk_least_served:
  assumes "reach (bk_exec F) (bk_start F) s" and "bakery_service F r s = Some (t, served)"
  shows "(served \<longleftrightarrow> (\<forall>i < 128. \<not> has_priority s i (nat (bq_idx r)))) \<and>
    ((\<exists>i < 128. numbers s ! i \<noteq> 0) \<longleftrightarrow> (\<exists>j < 128. numbers s ! j \<noteq> 0 \<and> bk_blocker s j = None))"
proof -
  have inv: "bk_inv s" by (rule bk.reach_inv [OF assms(1)])
  show ?thesis
    using bk_blocker_none [OF inv] bakery_service_effect(4) [OF assms(2)] bk_someone [OF inv] by blast
qed

theorem bk_least_served_witness:
  "\<exists>t. bakery_service int_flt (bk_req 7 5 0 1 2) (bk_start int_flt) = Some (t, True) \<and>
     (\<forall>i < 128. \<not> has_priority (bk_start int_flt) i 5)"
proof -
  have ex: "bakery_service int_flt (bk_req 7 5 0 1 2) (bk_start int_flt) \<noteq> None"
    by (rule bakery_service_total) (simp add: bk_index_ok_def bk_req_def MAX_CLNT_CNT_def)
  then obtain t b where t: "bakery_service int_flt (bk_req 7 5 0 1 2) (bk_start int_flt) = Some (t, b)" by auto
  have "\<not> has_priority (bk_start int_flt) i 5" if "i < 128" for i
    using that by (simp add: has_priority_def bk_start_def MAX_CLNT_CNT_def)
  with bk_least_served [OF bk_fresh_state t] t show ?thesis by (simp add: bk_req_def)
qed

text \<open>C23: First come, first served: when client b takes its number while client a holds one, and neither asks for
  another number, b is served only after a has been served, however often a, b and the others ask to be served in
  between, and are refused. A client that gives up keeps its number and therefore blocks all that came after it.\<close>

theorem bk_first_come:
  assumes "reach (bk_exec F) (bk_start F) s" and "get_number r s = Some (t, n)"
    and "a < 128" and "numbers s ! a \<noteq> 0" and "a \<noteq> nat (bq_idx r)"
    and "run (bk_exec F) t es = Some u"
    and "\<forall>e \<in> set es. is_get e \<longrightarrow> bk_event_idx e \<noteq> a \<and> bk_event_idx e \<noteq> nat (bq_idx r)"
    and "nat (bq_idx q) = nat (bq_idx r)" and "bakery_service F q u = Some (v, True)"
  shows "a \<in> set (bk_served F t es)"
  using bk_behind [OF assms(1-7) _ assms(8,9)] by blast

text \<open>Client 0 takes number 1 and client 1 number 2; client 1 asks first and is refused, client 0 is served, and then
  client 1.\<close>

lemma bk_two_numbers:
  "\<exists>s t. get_number (bk_req 10 0 0 1 2) (bk_start int_flt) = Some (s, 1) \<and> numbers s ! 0 = 1 \<and>
     get_number (bk_req 11 1 0 3 4) s = Some (t, 2)"
proof -
  have n0: "numbers (bk_start int_flt) = 0 # replicate 127 0" by (simp add: bk_start_def MAX_CLNT_CNT_def numeral_eq_Suc)
  have mx: "max_from 0 (replicate n 0) = 0" "max_from 1 (replicate n 0) = 1" for n by (induction n) simp_all
  have "\<exists>s. get_number (bk_req 10 0 0 1 2) (bk_start int_flt) = Some (s, 1) \<and> numbers s = 1 # replicate 127 0"
    by (simp add: get_number_def bk_req_def bk_index_ok_def MAX_CLNT_CNT_def max_number_def Let_def n0 mx
        is_c_int_def INT_MIN_def INT_MAX_def)
  then obtain s where s: "get_number (bk_req 10 0 0 1 2) (bk_start int_flt) = Some (s, 1)"
    "numbers s = 1 # replicate 127 0" by blast
  have "\<exists>t. get_number (bk_req 11 1 0 3 4) s = Some (t, 2)"
    by (simp add: get_number_def bk_req_def bk_index_ok_def MAX_CLNT_CNT_def max_number_def Let_def s(2) mx
        is_c_int_def INT_MIN_def INT_MAX_def)
  then show ?thesis using s by auto
qed

theorem bk_first_come_witness:
  "\<exists>s t u v w. get_number (bk_req 10 0 0 1 2) (bk_start int_flt) = Some (s, 1) \<and>
     get_number (bk_req 11 1 0 3 4) s = Some (t, 2) \<and>
     run (bk_exec int_flt) t [Service (bk_req 11 1 0 3 4), Service (bk_req 10 0 0 1 2)] = Some u \<and>
     bakery_service int_flt (bk_req 11 1 0 3 4) u = Some (v, True) \<and>
     0 \<in> set (bk_served int_flt t [Service (bk_req 11 1 0 3 4), Service (bk_req 10 0 0 1 2)])"
proof -
  obtain s t where s: "get_number (bk_req 10 0 0 1 2) (bk_start int_flt) = Some (s, 1)" "numbers s ! 0 = 1"
    and t: "get_number (bk_req 11 1 0 3 4) s = Some (t, 2)" using bk_two_numbers by blast
  have "bk_exec int_flt (bk_start int_flt) (GetNumber (bk_req 10 0 0 1 2)) = Some s" using s(1) by simp
  with bk_fresh_state have r: "reach (bk_exec int_flt) (bk_start int_flt) s" by (rule reach.reach_step)
  have len: "length (numbers (bk_start int_flt)) = 128" by (simp add: bk_start_def MAX_CLNT_CNT_def)
  have nt: "numbers t ! i = (if i = 1 then 2 else if i = 0 then 1 else 0)" if "i < 128" for i
    using that get_number_effect(2) [OF bk.inv_start s(1)] get_number_effect(2) [OF bk.reach_inv [OF r] t]
    by (simp add: bk_req_def nth_list_update len) (simp add: bk_start_def MAX_CLNT_CNT_def)
  have it: "bk_inv t" by (rule get_number_effect(1) [OF bk.reach_inv [OF r] t])
  have ok: "bk_index_ok (bk_req 11 1 0 3 4)" "bk_index_ok (bk_req 10 0 0 1 2)"
    by (simp_all add: bk_index_ok_def bk_req_def MAX_CLNT_CNT_def)
  have idx: "nat (bq_idx (bk_req 11 1 0 3 4)) = 1" "nat (bq_idx (bk_req 10 0 0 1 2)) = 0" by (simp_all add: bk_req_def)
  have "has_priority t 0 1" by (simp add: has_priority_def nt)
  then have first: "(\<forall>i < 128. \<not> has_priority t i 1) = False" using zero_less_numeral by blast
  then obtain x where x: "bakery_service int_flt (bk_req 11 1 0 3 4) t = Some (x, False)"
    using bakery_service_some [OF it ok(1), of int_flt] unfolding idx first by blast
  have ix: "bk_inv x" using bk.inv_exec [OF it, of int_flt "Service (bk_req 11 1 0 3 4)" x] x by simp
  have nx: "numbers x = numbers t" using bakery_service_effect(1) [OF x] by simp
  have "(\<forall>i < 128. \<not> has_priority x i 0) = True" using nt by (auto simp: has_priority_def nx)
  then obtain u where u: "bakery_service int_flt (bk_req 10 0 0 1 2) x = Some (u, True)"
    using bakery_service_some [OF ix ok(2), of int_flt] unfolding idx by auto
  have iu: "bk_inv u" using bk.inv_exec [OF ix, of int_flt "Service (bk_req 10 0 0 1 2)" u] u by simp
  have nu: "numbers u = (numbers t)[0 := 0]" using bakery_service_effect(1) [OF u] nx by (simp add: bk_req_def)
  have lt: "length (numbers t) = 128" using it by (simp add: bk_inv_def)
  have "(\<forall>i < 128. \<not> has_priority u i 1) = True"
    using nt by (auto simp: has_priority_def nu nth_list_update lt)
  then obtain v where v: "bakery_service int_flt (bk_req 11 1 0 3 4) u = Some (v, True)"
    using bakery_service_some [OF iu ok(1), of int_flt] unfolding idx by auto
  have rn: "run (bk_exec int_flt) t [Service (bk_req 11 1 0 3 4), Service (bk_req 10 0 0 1 2)] = Some u"
    using x u by simp
  have "0 \<in> set (bk_served int_flt t [Service (bk_req 11 1 0 3 4), Service (bk_req 10 0 0 1 2)])"
    by (rule bk_first_come [OF r t _ _ _ rn _ _ v]) (simp_all add: s(2), simp_all add: bk_req_def)
  then show ?thesis using s(1) t rn v by blast
qed

text \<open>Two clients never hold the same number, and nobody is ever seen choosing: the server runs one call at a time, so
  that the comparison of process ids and the wait for a client that is choosing decide nothing.\<close>

theorem bk_no_ties:
  assumes "reach (bk_exec F) (bk_start F) s" and "i < 128" and "j < 128"
  shows "(has_priority s i j \<longleftrightarrow> numbers s ! i \<noteq> 0 \<and> numbers s ! i < numbers s ! j) \<and>
    (i \<noteq> j \<and> numbers s ! i = numbers s ! j \<longrightarrow> numbers s ! i = 0) \<and> \<not> choosing s ! i"
proof -
  have inv: "bk_inv s" "bk_no_tie s" using bk_tie.reach_inv [OF assms(1)] by simp_all
  have "\<not> choosing s ! i" using inv(1) assms(2) nth_mem [of i "choosing s"] unfolding bk_inv_def by metis
  moreover note tie = bk_no_tieD [OF inv(2) assms(2,3)]
  moreover have "numbers s ! i = numbers s ! j \<Longrightarrow> numbers s ! i \<noteq> 0 \<Longrightarrow> i = j" using tie by blast
  then have "has_priority s i j \<longleftrightarrow> numbers s ! i \<noteq> 0 \<and> numbers s ! i < numbers s ! j"
    by (auto simp: has_priority_def)
  ultimately show ?thesis by blast
qed

theorem bk_no_ties_witness: "\<not> choosing (bk_start int_flt) ! 5 \<and> \<not> has_priority (bk_start int_flt) 5 6"
  using bk_no_ties [OF bk_fresh_state, of 5 6 int_flt] by (simp add: bk_start_def MAX_CLNT_CNT_def)

text \<open>A served division by zero or unknown operation returns what the server computed or refused
  last, which is infinity after any refusal, not the 0.0 that the message announces.\<close>

theorem bk_stale_result:
  assumes "bakery_service F r s = Some (t, True)"
    and "bq_op r \<notin> {ADD, SUB, MUL, DIV} \<or> bq_op r = DIV \<and> f_eq F (bq_arg2 r) (f_zero F)"
  shows "bk_result t = bk_result s \<and>
    (bakery_service F q s' = Some (s, False) \<longrightarrow> bk_result t = f_inf F)"
  using bakery_service_effect(5) [OF assms(1)] assms(2) bakery_service_effect(5) [of F q s' s False]
  by (auto simp: bk_compute_def op_codes)

theorem bk_stale_result_witness:
  "\<exists>t. bakery_service int_flt (bk_req 7 5 9 1 2) ((bk_start int_flt)\<lparr>bk_result := Some 42\<rparr>) = Some (t, True) \<and>
     bk_result t = Some 42"
proof -
  let ?s = "(bk_start int_flt)\<lparr>bk_result := Some 42\<rparr>"
  have "bk_inv ?s" using bk.inv_start [of int_flt] by (auto simp: bk_inv_def)
  then have "bk_blocker ?s 5 = None"
    by (auto simp: bk_blocker_none has_priority_def bk_start_def MAX_CLNT_CNT_def)
  then obtain t where t: "bakery_service int_flt (bk_req 7 5 9 1 2) ?s = Some (t, True)"
    by (simp add: bakery_service_def bk_index_ok_def bk_req_def MAX_CLNT_CNT_def Let_def)
  with bk_stale_result [OF t] show ?thesis by (simp add: bk_req_def op_codes)
qed

text \<open>A client without a number is served at once, whoever is waiting: the number 0 stands
  both for having none and for the smallest.\<close>

theorem bk_zero_bypasses:
  assumes "reach (bk_exec F) (bk_start F) s" and "bk_index_ok r" and "numbers s ! nat (bq_idx r) = 0"
  shows "map_option snd (bakery_service F r s) = Some True"
  by (rule bk_zero_served [OF bk.reach_inv [OF assms(1)] assms(2,3)])

theorem bk_zero_bypasses_witness:
  "map_option snd (bakery_service int_flt (bk_req 7 5 0 1 2) (bk_start int_flt)) = Some True"
  using bk_zero_bypasses [OF bk_fresh_state, of "bk_req 7 5 0 1 2" int_flt]
  by (simp add: bk_req_def bk_index_ok_def MAX_CLNT_CNT_def bk_start_def)

text \<open>The client gives up after exactly thirty refusals, and then keeps its number on the server.\<close>

theorem bk_client_gives_up:
  assumes "f_eq F (f_inf F) (f_inf F)"
  shows "bk_attempts F 0 (replicate 30 (Some (f_inf F)) @ rest) = BkExhausted \<and>
    bk_attempts F 0 (replicate 29 (Some (f_inf F))) = BkPolling"
proof -
  have "bk_attempts F at (replicate n (Some (f_inf F))) = BkPolling" if "n + at < ATTEMPTS" for n at
    using that
  proof (induction n arbitrary: at)
    case (Suc n)
    then show ?case by (subst bk_attempts.simps) (simp add: assms)
  qed (subst bk_attempts.simps, simp)
  then show ?thesis using bk_attempts_refused [of 30 0 F rest] assms by (simp add: ATTEMPTS_def)
qed

theorem bk_client_gives_up_witness:
  "bk_attempts int_flt 0 (replicate 30 (Some None)) = BkExhausted"
  using bk_client_gives_up [of int_flt "[]"] by (simp add: int_flt_def)

end
