(* ===== verification/Sock_Letters.thy ===== *)
theory Sock_Letters
  imports Prelude
begin

section \<open>The letters the socket servers hand out\<close>

text \<open>
  What the three servers of lab-socket (task-04, task-05, task-06) and their clients share: the
  shared buffer of 52 characters, its initialisation, the copy a reader gets, the
  slot a writer takes, and the client's search and its round of two requests.
\<close>

definition SHM_BUFFER_SIZE :: nat where "SHM_BUFFER_SIZE = 52"
definition STR_BUFFER_SIZE :: nat where "STR_BUFFER_SIZE = 255"
definition DASH :: int where "DASH = 45"

subsection \<open>Initialisation\<close>

text \<open>The loop \<^verbatim>\<open>for (char c = first; c <= last && index < SHM_BUFFER_SIZE; ++c)\<close>.\<close>

function sv_fill :: "int \<Rightarrow> int \<Rightarrow> nat \<Rightarrow> int list \<Rightarrow> nat \<times> int list" where
  "sv_fill c lim index b =
     (if c \<le> lim \<and> index < SHM_BUFFER_SIZE then sv_fill (c + 1) lim (index + 1) (b[index := c])
      else (index, b))"
  by pat_completeness auto
termination by (relation "measure (\<lambda>(c, lim, _). nat (lim + 1 - c))") auto

declare sv_fill.simps [simp del]

definition sv_init :: "int list \<Rightarrow> int list" where
  "sv_init old =
     (let (i, b) = sv_fill 97 122 0 old; (_, b') = sv_fill 65 90 i b in b')"

definition sv_letters :: "int list" where
  "sv_letters = map (\<lambda>k. 97 + int k) [0..<26] @ map (\<lambda>k. 65 + int k) [0..<26]"

lemma sv_fill_run:
  "i + n \<le> 52 \<Longrightarrow> length b = 52 \<Longrightarrow>
     sv_fill c (c + int n - 1) i b = (i + n, take i b @ map (\<lambda>k. c + int k) [0..<n] @ drop (i + n) b)"
proof (induction n arbitrary: c i b)
  case 0
  then show ?case by (subst sv_fill.simps) simp
next
  case (Suc n)
  have "sv_fill c (c + int (Suc n) - 1) i b = sv_fill (c + 1) (c + 1 + int n - 1) (i + 1) (b[i := c])"
    using Suc.prems by (subst sv_fill.simps) (simp add: SHM_BUFFER_SIZE_def)
  also have "\<dots> = (i + 1 + n, take (i + 1) (b[i := c]) @ map (\<lambda>k. c + 1 + int k) [0..<n] @
      drop (i + 1 + n) (b[i := c]))"
    using Suc.prems by (intro Suc.IH) auto
  also have "take (i + 1) (b[i := c]) = take i b @ [c]"
    using Suc.prems by (simp add: take_Suc_snoc)
  also have "map (\<lambda>k. c + 1 + int k) [0..<n] = map (\<lambda>k. c + int k) (map Suc [0..<n])"
    by simp
  finally show ?case
    using Suc.prems by (simp add: upt_conv_Cons map_Suc_upt del: upt_Suc)
qed

lemma sv_init_eq: "length old = 52 \<Longrightarrow> sv_init old = sv_letters"
  using sv_fill_run [of 0 26 old 97]
    sv_fill_run [of 26 26 "map (\<lambda>k. 97 + int k) [0..<26] @ drop 26 old" 65]
  by (simp add: sv_init_def sv_letters_def del: upt_Suc)

lemma sv_letters_length [simp]: "length sv_letters = 52"
  by (simp add: sv_letters_def)

lemma sv_letters_nth:
  "k < 52 \<Longrightarrow> sv_letters ! k = (if k < 26 then 97 + int k else 65 + int (k - 26))"
  by (simp add: sv_letters_def nth_append)

lemma sv_letters_distinct: "distinct sv_letters"
  unfolding distinct_conv_nth by (auto simp: sv_letters_nth)


subsection \<open>Requests\<close>

definition is_alpha :: "int \<Rightarrow> bool" where
  "is_alpha c \<longleftrightarrow> 97 \<le> c \<and> c \<le> 122 \<or> 65 \<le> c \<and> c \<le> 90"

lemma sv_letters_alpha: "k < 52 \<Longrightarrow> is_alpha (sv_letters ! k) \<and> sv_letters ! k \<noteq> DASH \<and> sv_letters ! k \<noteq> 0"
  by (auto simp: sv_letters_nth is_alpha_def DASH_def)

text \<open>\<^verbatim>\<open>strncpy\<close> of the C library, and the copy that \<^verbatim>\<open>reader\<close> sends.\<close>

definition strncpy :: "int list \<Rightarrow> nat \<Rightarrow> int list" where
  "strncpy src n = (let s = takeWhile (\<lambda>c. c \<noteq> 0) (take n src) in s @ replicate (n - length s) 0)"

definition sv_reader_copy :: "int list \<Rightarrow> int list" where
  "sv_reader_copy b = strncpy b SHM_BUFFER_SIZE @ [0]"

text \<open>
  What \<^verbatim>\<open>writer\<close> finds at the index a client sent, and what it leaves there. The three
  texts of a reply are those of the servers.
\<close>

datatype sv_msg = MBadIndex | MOccupied | MLetter int

definition sv_bad_index :: "int \<Rightarrow> bool" where
  "sv_bad_index idx \<longleftrightarrow> idx < 0 \<or> int SHM_BUFFER_SIZE \<le> idx"

definition sv_writer_take :: "int \<Rightarrow> int list \<Rightarrow> int list \<times> sv_msg" where
  "sv_writer_take idx b =
     (if sv_bad_index idx then (b, MBadIndex)
      else let ch = b ! nat idx in
        if ch = DASH then (b, MOccupied) else (b[nat idx := DASH], MLetter ch))"

datatype sv_server = ForkServer | ThreadServer | SelectServer

fun sv_text :: "sv_server \<Rightarrow> sv_msg \<Rightarrow> string" where
  "sv_text ForkServer MBadIndex = ''error: buffer empty.''"
| "sv_text ThreadServer MBadIndex = ''error: the selected index is occupied.''"
| "sv_text SelectServer MBadIndex = ''buffer empty''"
| "sv_text SelectServer MOccupied = ''Symbol occupied''"
| "sv_text _ MOccupied = ''error: the selected symbol is occupied.''"
| "sv_text _ (MLetter c) = [char_of (nat c)]"

text \<open>\<^verbatim>\<open>find_first_unoccupied_index\<close>: \<^verbatim>\<open>strpbrk\<close> with the 52 letters.\<close>

fun strpbrk_from :: "nat \<Rightarrow> int list \<Rightarrow> nat option" where
  "strpbrk_from i [] = None"
| "strpbrk_from i (c # cs) =
     (if c = 0 then None else if is_alpha c then Some i else strpbrk_from (Suc i) cs)"

definition find_first_unoccupied_index :: "int list \<Rightarrow> int" where
  "find_first_unoccupied_index b = (case strpbrk_from 0 b of Some i \<Rightarrow> int i | None \<Rightarrow> - 1)"

text \<open>
  The buffer while it is in use: each slot holds its letter or a dash.
\<close>

definition sv_buf_ok :: "int list \<Rightarrow> bool" where
  "sv_buf_ok b \<longleftrightarrow> length b = 52 \<and> (\<forall>k < 52. b ! k = sv_letters ! k \<or> b ! k = DASH)"

lemma sv_buf_ok_init: "length old = 52 \<Longrightarrow> sv_buf_ok (sv_init old)"
  by (simp add: sv_init_eq sv_buf_ok_def)

lemma sv_buf_ok_dash: "sv_buf_ok b \<Longrightarrow> sv_buf_ok (b[k := DASH])"
  by (cases "k < 52") (auto simp: sv_buf_ok_def nth_list_update)

lemma sv_buf_ok_take: "sv_buf_ok b \<Longrightarrow> sv_buf_ok (fst (sv_writer_take idx b))"
  by (simp add: sv_writer_take_def Let_def sv_buf_ok_dash)

lemma sv_buf_ok_taken: "sv_writer_take idx b = (b', m) \<Longrightarrow> sv_buf_ok b \<Longrightarrow> sv_buf_ok b'"
  using sv_buf_ok_take [of b idx] by simp

lemma sv_buf_ok_letters: "sv_buf_ok sv_letters"
  by (simp add: sv_buf_ok_def)

lemma sv_reader_copy_eq:
  assumes "sv_buf_ok b"
  shows "sv_reader_copy b = b @ [0]"
proof -
  have "\<forall>c \<in> set b. c \<noteq> 0"
  proof
    fix c assume "c \<in> set b"
    then obtain k where "k < 52" "c = b ! k" using assms by (auto simp: in_set_conv_nth sv_buf_ok_def)
    then show "c \<noteq> 0" using assms sv_letters_alpha [of k] by (auto simp: sv_buf_ok_def DASH_def)
  qed
  then have "takeWhile (\<lambda>c. c \<noteq> 0) b = b" by simp
  with assms show ?thesis
    by (simp del: takeWhile_eq_all_conv add: sv_reader_copy_def strncpy_def sv_buf_ok_def SHM_BUFFER_SIZE_def Let_def)
qed

text \<open>The search returns the first slot that still holds its letter.\<close>

lemma strpbrk_dashes:
  "strpbrk_from i (replicate k DASH @ cs) = strpbrk_from (i + k) cs"
  by (induction k arbitrary: i) (simp_all add: DASH_def is_alpha_def)

text \<open>The buffer after the first \<open>n\<close> letters have been taken.\<close>

definition sv_taken :: "nat \<Rightarrow> int list" where
  "sv_taken n = replicate n DASH @ drop n sv_letters"

lemma sv_taken_ok: "n \<le> 52 \<Longrightarrow> sv_buf_ok (sv_taken n)"
  by (auto simp: sv_buf_ok_def sv_taken_def nth_append)

lemma sv_taken_find:
  assumes "n < 52"
  shows "find_first_unoccupied_index (sv_reader_copy (sv_taken n)) = int n"
proof -
  have "drop n sv_letters = sv_letters ! n # drop (Suc n) sv_letters"
    using assms by (simp add: Cons_nth_drop_Suc)
  then show ?thesis
    using assms sv_letters_alpha [of n] sv_taken_ok [of n]
    by (simp add: sv_reader_copy_eq find_first_unoccupied_index_def sv_taken_def strpbrk_dashes)
qed

lemma sv_taken_find_none: "find_first_unoccupied_index (sv_reader_copy (sv_taken 52)) = - 1"
  using sv_taken_ok [of 52]
  by (simp add: sv_reader_copy_eq find_first_unoccupied_index_def sv_taken_def strpbrk_dashes)

lemma sv_taken_take:
  assumes "n < 52"
  shows "sv_writer_take (int n) (sv_taken n) = (sv_taken (Suc n), MLetter (sv_letters ! n))"
proof -
  have d: "drop n sv_letters = sv_letters ! n # drop (Suc n) sv_letters"
    using assms by (simp add: Cons_nth_drop_Suc)
  have "(sv_taken n)[n := DASH] = sv_taken (Suc n)"
    by (simp add: sv_taken_def d list_update_append replicate_append_same [symmetric])
  moreover have "sv_taken n ! n = sv_letters ! n" by (simp add: sv_taken_def d nth_append)
  ultimately show ?thesis
    using assms sv_letters_alpha [of n]
    by (simp add: sv_writer_take_def sv_bad_index_def SHM_BUFFER_SIZE_def Let_def)
qed


subsection \<open>The round of a client\<close>

text \<open>
  One turn of the loop of \<^verbatim>\<open>client_process\<close> or \<^verbatim>\<open>client_thread\<close>: two connections, the first to
  read the buffer, the second to ask for the first letter in it. Nine system calls can fail; the
  turn ends the client at the first failure, with its socket closed unless the failing call
  was to create it. The result names the request and the answer, whether the duration was logged,
  and the number of sockets the turn leaves open: the client of task-04 closes its second
  socket only on errors.
\<close>

datatype cl_call = Socket1 | Connect1 | SendOp1 | RecvBuf | Socket2 | Connect2 | SendOp2 | SendIdx | RecvResult

record cl_result =
  cl_failed :: "cl_call option"
  cl_index :: "int option"
  cl_logged :: bool
  cl_open :: nat

definition cl_calls :: "cl_call list" where
  "cl_calls = [Socket1, Connect1, SendOp1, RecvBuf, Socket2, Connect2, SendOp2, SendIdx, RecvResult]"

definition cl_round :: "sv_server \<Rightarrow> (cl_call \<Rightarrow> bool) \<Rightarrow> int list \<Rightarrow> string \<Rightarrow> cl_result" where
  "cl_round sv ok buf answer =
     (case find (\<lambda>c. \<not> ok c) cl_calls of
        Some c \<Rightarrow> \<lparr>cl_failed = Some c, cl_index = None, cl_logged = False, cl_open = 0\<rparr>
      | None \<Rightarrow>
          let i = to_schar (find_first_unoccupied_index buf) in
          \<lparr>cl_failed = None, cl_index = Some i, cl_logged = (0 \<le> i \<and> length answer = 1),
           cl_open = (if sv = ForkServer then 1 else 0)\<rparr>)"

lemma cl_find_none: "find (\<lambda>c. False) xs = None"
  by (induction xs) auto

text \<open>The three client programs.\<close>

definition fork_client_round :: "(cl_call \<Rightarrow> bool) \<Rightarrow> int list \<Rightarrow> string \<Rightarrow> cl_result" where
  "fork_client_round = cl_round ForkServer"

definition thread_client_round :: "(cl_call \<Rightarrow> bool) \<Rightarrow> int list \<Rightarrow> string \<Rightarrow> cl_result" where
  "thread_client_round = cl_round ThreadServer"

definition select_client_round :: "(cl_call \<Rightarrow> bool) \<Rightarrow> int list \<Rightarrow> string \<Rightarrow> cl_result" where
  "select_client_round = cl_round SelectServer"


subsection \<open>Properties\<close>

text \<open>The search of the clients on the copy of a well-formed buffer in which the first n letters
  have been taken returns n, and -1 when all have been; the writer then hands out letter n.\<close>

theorem sv_search_and_take:
  assumes "n \<le> 52"
  shows "find_first_unoccupied_index (sv_reader_copy (sv_taken n)) = (if n < 52 then int n else - 1) \<and>
    snd (sv_writer_take (find_first_unoccupied_index (sv_reader_copy (sv_taken n))) (sv_taken n)) =
      (if n < 52 then MLetter (sv_letters ! n) else MBadIndex)"
proof (cases "n < 52")
  case True
  then show ?thesis by (simp add: sv_taken_find sv_taken_take)
next
  case False
  with assms have "n = 52" by simp
  then show ?thesis by (simp add: sv_taken_find_none sv_writer_take_def sv_bad_index_def)
qed

theorem sv_search_and_take_witness:
  "snd (sv_writer_take 30 (sv_taken 30)) = MLetter 69"
  using sv_search_and_take [of 30] by (auto simp: sv_letters_nth)

text \<open>\<^verbatim>\<open>main\<close> fills the buffer with a to z and A to Z, whatever the segment held before.\<close>

theorem sv_init_letters:
  assumes "length old = 52"
  shows "sv_init old = map (\<lambda>k. 97 + int k) [0..<26] @ map (\<lambda>k. 65 + int k) [0..<26]"
  using sv_init_eq [OF assms] by (simp add: sv_letters_def)

theorem sv_init_letters_witness: "sv_init (replicate 52 7) ! 51 = 90"
  using sv_init_letters [of "replicate 52 7"] by (simp add: nth_append)

text \<open>The client of the process server never closes the socket of its second connection:
  each round leaves one open; the two other clients leave none.\<close>

theorem fork_client_leaks:
  "(\<Sum>(buf, answer) \<leftarrow> rs. cl_open (fork_client_round (\<lambda>_. True) buf answer)) = length rs \<and>
   (\<Sum>(buf, answer) \<leftarrow> rs. cl_open (thread_client_round (\<lambda>_. True) buf answer)) = 0 \<and>
   (\<Sum>(buf, answer) \<leftarrow> rs. cl_open (select_client_round (\<lambda>_. True) buf answer)) = 0"
proof -
  have "(\<Sum>(buf, answer) \<leftarrow> rs. cl_open (cl_round sv (\<lambda>_. True) buf answer)) =
      (if sv = ForkServer then length rs else 0)" for sv
    by (induction rs) (auto simp: cl_round_def cl_find_none Let_def)
  then show ?thesis
    by (simp add: fork_client_round_def thread_client_round_def select_client_round_def)
qed

end
