(* ===== verification/Sock_Server.thy ===== *)
theory Sock_Server
  imports Rw_Lock Sock_Letters
begin

section \<open>The concurrent letter servers\<close>

text \<open>
  Model of lab-socket/task-04/server.c (a process for each connection) and of
  lab-socket/task-05/server.c (a thread for each). Both guard the shared buffer with the same four
  tables of semaphore operations and run the same \<^verbatim>\<open>reader\<close> and \<^verbatim>\<open>writer\<close>; where they differ, a
  parameter says which server is meant. A connection is an actor of Rw\_Lock; the index that
  writer \<open>i\<close> receives from its client is \<open>idx i\<close>.
\<close>

subsection \<open>Semaphore tables\<close>

definition SEM_WAITING_READERS :: nat where "SEM_WAITING_READERS = 0"
definition SEM_ACTIVE_READERS :: nat where "SEM_ACTIVE_READERS = 1"
definition SEM_ACTIVE_WRITER :: nat where "SEM_ACTIVE_WRITER = 2"
definition SEM_WAITING_WRITERS :: nat where "SEM_WAITING_WRITERS = 3"
definition SEM_COUNT :: nat where "SEM_COUNT = 4"

definition start_read :: "sembuf list" where
  "start_read = [sb SEM_WAITING_READERS 1, sb SEM_ACTIVE_WRITER 0, sb SEM_WAITING_WRITERS 0,
     sb SEM_WAITING_READERS (- 1), sb SEM_ACTIVE_READERS 1]"

definition stop_read :: "sembuf list" where
  "stop_read = [sb SEM_ACTIVE_READERS (- 1)]"

definition start_write :: "sembuf list" where
  "start_write = [sb SEM_WAITING_WRITERS 1, sb SEM_ACTIVE_READERS 0, sb SEM_ACTIVE_WRITER 1,
     sb SEM_WAITING_WRITERS (- 1)]"

definition stop_write :: "sembuf list" where
  "stop_write = [sb SEM_ACTIVE_WRITER (- 1)]"

definition ss_tables :: rw_tables where
  "ss_tables = \<lparr>t_start_read = start_read, t_stop_read = stop_read,
     t_start_write = start_write, t_stop_write = stop_write\<rparr>"

lemmas ss_indices = SEM_WAITING_READERS_def SEM_ACTIVE_READERS_def SEM_ACTIVE_WRITER_def
  SEM_WAITING_WRITERS_def SEM_COUNT_def

lemmas ss_table_defs = ss_indices ss_tables_def start_read_def stop_read_def start_write_def stop_write_def

text \<open>The loop of \<^verbatim>\<open>SETVAL\<close> calls in \<^verbatim>\<open>main\<close>, on what the set held before.\<close>

fun ss_setvals :: "nat \<Rightarrow> nat \<Rightarrow> int list \<Rightarrow> errno + int list" where
  "ss_setvals 0 i v = Inr v"
| "ss_setvals (Suc n) i v = (case setval i 0 v of Inl e \<Rightarrow> Inl e | Inr v' \<Rightarrow> ss_setvals n (Suc i) v')"

definition ss_sems0 :: "int list" where
  "ss_sems0 = [0, 0, 0, 0]"

lemma ss_setvals_all: "length v = 4 \<Longrightarrow> ss_setvals SEM_COUNT 0 v = Inr ss_sems0"
  by (auto simp: ss_indices numeral_eq_Suc setval_def SEMVMX_def ss_sems0_def length_Suc_conv)


subsection \<open>The handlers of the connections\<close>

text \<open>
  \<open>HCopied\<close> is a reader that holds its copy, \<open>HSaw\<close> a writer that has read the slot but not
  yet written to it, \<open>HReply\<close> a writer with its message ready, \<open>HLost\<close> a handler that
  ended without the call that gives the semaphore back.
\<close>

datatype ss_phase =
    HWaiting | HEntered | HCopied "int list" | HSaw int | HReply sv_msg | HStopping | HDone | HFailed | HLost

record ss_sys =
  ss_sems :: "int list"
  ss_buf :: "int list"
  ss_phase :: "rw_actor \<Rightarrow> ss_phase"
  ss_sent :: "(rw_actor \<times> sv_msg) list"
  ss_copies :: "(rw_actor \<times> int list) list"

datatype ss_event = HStart rw_actor | HStep rw_actor | HSend rw_actor bool | HStop rw_actor

definition ss_goto :: "rw_actor \<Rightarrow> ss_phase \<Rightarrow> ss_sys \<Rightarrow> ss_sys" where
  "ss_goto a p s = s\<lparr>ss_phase := (ss_phase s)(a := p)\<rparr>"

text \<open>The statements of \<^verbatim>\<open>reader\<close> and \<^verbatim>\<open>writer\<close> between the semaphore and the reply.\<close>

fun ss_step :: "(nat \<Rightarrow> int) \<Rightarrow> ss_sys \<Rightarrow> rw_actor \<Rightarrow> ss_sys option" where
  "ss_step idx s (Reader i) =
     (if ss_phase s (Reader i) = HEntered
      then Some (ss_goto (Reader i) (HCopied (sv_reader_copy (ss_buf s))) s) else None)"
| "ss_step idx s (Writer i) =
     (case ss_phase s (Writer i) of
        HEntered \<Rightarrow>
          if sv_bad_index (idx i) then Some (ss_goto (Writer i) (HReply MBadIndex) s)
          else Some (ss_goto (Writer i) (HSaw (ss_buf s ! nat (idx i))) s)
      | HSaw ch \<Rightarrow>
          if ch = DASH then Some (ss_goto (Writer i) (HReply MOccupied) s)
          else Some (ss_goto (Writer i) (HReply (MLetter ch)) (s\<lparr>ss_buf := (ss_buf s)[nat (idx i) := DASH]\<rparr>))
      | _ \<Rightarrow> None)"

text \<open>
  The call of \<^verbatim>\<open>send\<close>, which may fail. After a bad index the writer returns either way, after a
  failed send both return (task-05) or end their process (task-04): the semaphore is not
  given back.
\<close>

fun ss_send :: "ss_sys \<Rightarrow> rw_actor \<Rightarrow> bool \<Rightarrow> ss_sys option" where
  "ss_send s (Reader i) ok =
     (case ss_phase s (Reader i) of
        HCopied b \<Rightarrow>
          if ok then Some (ss_goto (Reader i) HStopping (s\<lparr>ss_copies := ss_copies s @ [(Reader i, b)]\<rparr>))
          else Some (ss_goto (Reader i) HLost s)
      | _ \<Rightarrow> None)"
| "ss_send s (Writer i) ok =
     (case ss_phase s (Writer i) of
        HReply m \<Rightarrow>
          let s' = (if ok then s\<lparr>ss_sent := ss_sent s @ [(Writer i, m)]\<rparr> else s) in
          if m = MBadIndex then Some (ss_goto (Writer i) HLost s')
          else if ok then Some (ss_goto (Writer i) HStopping s')
          else Some (ss_goto (Writer i) HLost s')
      | _ \<Rightarrow> None)"

fun ss_exec :: "(nat \<Rightarrow> int) \<Rightarrow> ss_sys \<Rightarrow> ss_event \<Rightarrow> ss_sys option" where
  "ss_exec idx s (HStart a) =
     (if ss_phase s a = HWaiting then
        (case semop (start_ops ss_tables a) (ss_sems s) of
           Done v \<Rightarrow> Some (ss_goto a HEntered (s\<lparr>ss_sems := v\<rparr>))
         | Sleep \<Rightarrow> None
         | Fail _ \<Rightarrow> Some (ss_goto a HFailed s))
      else None)"
| "ss_exec idx s (HStep a) = ss_step idx s a"
| "ss_exec idx s (HSend a ok) = ss_send s a ok"
| "ss_exec idx s (HStop a) =
     (if ss_phase s a = HStopping then
        (case semop (stop_ops ss_tables a) (ss_sems s) of
           Done v \<Rightarrow> Some (ss_goto a HDone (s\<lparr>ss_sems := v\<rparr>))
         | Sleep \<Rightarrow> None
         | Fail _ \<Rightarrow> Some (ss_goto a HLost s))
      else None)"

definition ss_init :: "int list \<Rightarrow> ss_sys" where
  "ss_init old = \<lparr>ss_sems = ss_sems0, ss_buf = sv_init old, ss_phase = (\<lambda>_. HWaiting), ss_sent = [],
     ss_copies = []\<rparr>"


text \<open>
  What a connection asks for. \<^verbatim>\<open>recv\<close> of one byte fails, finds the connection closed, or delivers
  the byte; only the failure is tested for, so that a closed connection leaves the variable with
  whatever it held (\<open>g\<close>, \<open>h\<close>).
\<close>

datatype recv1 = RFail | REof | RByte int

fun recv_char :: "recv1 \<Rightarrow> int \<Rightarrow> int option" where
  "recv_char RFail g = None"
| "recv_char REof g = Some g"
| "recv_char (RByte c) g = Some c"

definition OP_READER :: int where "OP_READER = 114"
definition OP_WRITER :: int where "OP_WRITER = 119"

datatype ss_job = JReader | JWriter int | JInvalid | JNone

definition handle_client :: "int \<Rightarrow> int \<Rightarrow> recv1 \<Rightarrow> recv1 \<Rightarrow> ss_job" where
  "handle_client g h op idx =
     (case recv_char op g of
        None \<Rightarrow> JNone
      | Some c \<Rightarrow>
          if c = OP_READER then JReader
          else if c = OP_WRITER then
            (case recv_char idx h of None \<Rightarrow> JNone | Some i \<Rightarrow> JWriter i)
          else JInvalid)"

text \<open>The child of the process server: the job and the exit status when the job itself returns.\<close>

definition fork_child :: "int \<Rightarrow> int \<Rightarrow> recv1 \<Rightarrow> recv1 \<Rightarrow> ss_job \<times> int" where
  "fork_child g h op idx =
     (case recv_char op g of
        None \<Rightarrow> (JNone, 1)
      | Some c \<Rightarrow>
          if c = OP_READER then (JReader, 0)
          else if c = OP_WRITER then
            (case recv_char idx h of None \<Rightarrow> (JNone, 1) | Some i \<Rightarrow> (JWriter i, 0))
          else (JInvalid, 0))"


subsection \<open>The tables against the lock interface\<close>

lemma ss_start_read_guard: "semop start_read v = Done v' \<Longrightarrow> v ! SEM_ACTIVE_WRITER = 0"
  using semop_zero_guard [of "[sb SEM_WAITING_READERS 1]" "sb SEM_ACTIVE_WRITER 0" _ v v']
  by (simp add: start_read_def ss_indices)

lemma ss_start_write_guard: "semop start_write v = Done v' \<Longrightarrow> v ! SEM_ACTIVE_READERS = 0"
  using semop_zero_guard [of "[sb SEM_WAITING_WRITERS 1]" "sb SEM_ACTIVE_READERS 0" _ v v']
  by (simp add: start_write_def ss_indices)

interpretation ss: rw_excl ss_tables SEM_ACTIVE_READERS SEM_ACTIVE_WRITER ss_sems0
proof
  fix v v'
  show "semop (t_start_read ss_tables) v = Done v' \<Longrightarrow> v ! SEM_ACTIVE_WRITER = 0"
    using ss_start_read_guard by (simp add: ss_tables_def)
  show "semop (t_start_write ss_tables) v = Done v' \<Longrightarrow> v ! SEM_ACTIVE_READERS = 0"
    using ss_start_write_guard by (simp add: ss_tables_def)
qed (simp_all add: ss_table_defs ss_sems0_def sem_ok_def SEMVMX_def)

fun ss_inside :: "ss_phase \<Rightarrow> bool" where
  "ss_inside HWaiting = False"
| "ss_inside HDone = False"
| "ss_inside HFailed = False"
| "ss_inside _ = True"

definition ss_abst :: "ss_sys \<Rightarrow> rw_sys" where
  "ss_abst s = \<lparr>rw_sems = ss_sems s, rw_in = (\<lambda>a. ss_inside (ss_phase s a))\<rparr>"

lemma ss_goto_sel [simp]:
  "ss_sems (ss_goto a p s) = ss_sems s" "ss_buf (ss_goto a p s) = ss_buf s"
  "ss_sent (ss_goto a p s) = ss_sent s" "ss_copies (ss_goto a p s) = ss_copies s"
  "ss_phase (ss_goto a p s) = (ss_phase s)(a := p)"
  by (simp_all add: ss_goto_def)

lemma ss_abst_sel [simp]:
  "rw_sems (ss_abst s) = ss_sems s" "rw_in (ss_abst s) a = ss_inside (ss_phase s a)"
  by (simp_all add: ss_abst_def)

lemma ss_init_sel [simp]:
  "ss_sems (ss_init old) = ss_sems0" "ss_buf (ss_init old) = sv_init old" "ss_phase (ss_init old) a = HWaiting"
  "ss_sent (ss_init old) = []" "ss_copies (ss_init old) = []"
  by (simp_all add: ss_init_def)

lemma ss_abst_unchanged:
  "ss_inside p = ss_inside (ss_phase s a) \<Longrightarrow> ss_abst (ss_goto a p s) = ss_abst s"
  by (auto simp: ss_abst_def)

lemma ss_step_abst:
  assumes ex: "ss_exec idx s e = Some t"
  shows "ss_abst t = ss_abst s \<or> (\<exists>f. rw_exec ss_tables (ss_abst s) f = Some (ss_abst t))"
proof (cases e)
  case (HStart a)
  then have ph: "ss_phase s a = HWaiting" using ex by (simp split: if_splits)
  show ?thesis
  proof (cases "semop (start_ops ss_tables a) (ss_sems s)")
    case (Done v)
    then have "rw_exec ss_tables (ss_abst s) (Enter a) = Some (ss_abst t)"
      using ex HStart ph by (auto simp: ss_abst_def fun_eq_iff)
    then show ?thesis by blast
  qed (use ex HStart ph in \<open>auto simp: ss_abst_unchanged\<close>)
next
  case (HStop a)
  then have ph: "ss_phase s a = HStopping" using ex by (simp split: if_splits)
  show ?thesis
  proof (cases "semop (stop_ops ss_tables a) (ss_sems s)")
    case (Done v)
    then have "rw_exec ss_tables (ss_abst s) (Leave a) = Some (ss_abst t)"
      using ex HStop ph by (auto simp: ss_abst_def fun_eq_iff)
    then show ?thesis by blast
  qed (use ex HStop ph in \<open>auto simp: ss_abst_unchanged\<close>)
next
  case (HStep a)
  with ex show ?thesis
    by (cases a) (auto split: if_splits ss_phase.splits simp: ss_abst_def fun_eq_iff)
next
  case (HSend a ok)
  with ex show ?thesis
    by (cases a) (auto split: if_splits ss_phase.splits simp: ss_abst_def fun_eq_iff Let_def)
qed

interpretation ss_sim: simulation "ss_exec idx" "ss_init old" "\<lambda>_. True"
    "rw_exec ss_tables" "rw_start ss_sems0" ss_abst for idx old
proof
  show "ss_abst (ss_init old) = rw_start ss_sems0" by (simp add: ss_abst_def rw_start_def)
qed (simp_all add: ss_step_abst)


subsection \<open>The buffer and the replies\<close>

definition ss_letter_ok :: "(nat \<Rightarrow> int) \<Rightarrow> nat \<Rightarrow> int \<Rightarrow> bool" where
  "ss_letter_ok idx i c \<longleftrightarrow> \<not> sv_bad_index (idx i) \<and> c = sv_letters ! nat (idx i)"

definition ss_data_inv :: "(nat \<Rightarrow> int) \<Rightarrow> ss_sys \<Rightarrow> bool" where
  "ss_data_inv idx s \<longleftrightarrow> sv_buf_ok (ss_buf s) \<and>
     (\<forall>i ch. ss_phase s (Writer i) = HSaw ch \<longrightarrow>
        \<not> sv_bad_index (idx i) \<and> (ss_letter_ok idx i ch \<or> ch = DASH)) \<and>
     (\<forall>i ch. ss_phase s (Writer i) = HReply (MLetter ch) \<longrightarrow>
        ss_letter_ok idx i ch \<and> ss_buf s ! nat (idx i) = DASH) \<and>
     (\<forall>i ch. (Writer i, MLetter ch) \<in> set (ss_sent s) \<longrightarrow>
        ss_letter_ok idx i ch \<and> ss_buf s ! nat (idx i) = DASH)"

lemma bad_index_range: "\<not> sv_bad_index i \<Longrightarrow> nat i < 52 \<and> 0 \<le> i"
  by (auto simp: sv_bad_index_def SHM_BUFFER_SIZE_def)

lemma nth_dash: "b ! k = DASH \<Longrightarrow> b[j := DASH] ! k = DASH"
  by (cases "j < length b") (auto simp: nth_list_update list_update_beyond)

lemma ss_data_goto:
  assumes "ss_data_inv idx s" and "\<And>ch. p \<noteq> HSaw ch" and "\<And>ch. p \<noteq> HReply (MLetter ch)"
  shows "ss_data_inv idx (ss_goto a p s)"
  using assms by (auto simp: ss_data_inv_def)

lemma ss_data_frame: "ss_data_inv idx s \<Longrightarrow> ss_data_inv idx (s\<lparr>ss_sems := v\<rparr>)"
  "ss_data_inv idx s \<Longrightarrow> ss_data_inv idx (s\<lparr>ss_copies := cs\<rparr>)"
  by (simp_all add: ss_data_inv_def)

lemma ss_data_step:
  assumes inv: "ss_data_inv idx s" and ex: "ss_step idx s a = Some t"
  shows "ss_data_inv idx t"
proof (cases a)
  case (Reader i)
  with ex show ?thesis by (auto split: if_splits intro!: ss_data_goto [OF inv])
next
  case (Writer i)
  show ?thesis
  proof (cases "ss_phase s (Writer i)")
    case HEntered
    show ?thesis
    proof (cases "sv_bad_index (idx i)")
      case True
      with ex Writer HEntered show ?thesis by (auto intro!: ss_data_goto [OF inv])
    next
      case False
      then have "ss_letter_ok idx i (ss_buf s ! nat (idx i)) \<or> ss_buf s ! nat (idx i) = DASH"
        using inv bad_index_range [OF False] by (auto simp: ss_data_inv_def sv_buf_ok_def ss_letter_ok_def)
      with ex Writer HEntered False inv show ?thesis
        by (auto simp: ss_data_inv_def split: if_splits) blast+
    qed
  next
    case (HSaw ch)
    show ?thesis
    proof (cases "ch = DASH")
      case True
      with ex Writer HSaw show ?thesis by (auto intro!: ss_data_goto [OF inv])
    next
      case False
      with inv HSaw have l: "ss_letter_ok idx i ch" by (auto simp: ss_data_inv_def)
      have t: "t = ss_goto (Writer i) (HReply (MLetter ch)) (s\<lparr>ss_buf := (ss_buf s)[nat (idx i) := DASH]\<rparr>)"
        using ex Writer HSaw False by simp
      have len: "length (ss_buf s) = 52" using inv by (simp add: ss_data_inv_def sv_buf_ok_def)
      have "(ss_buf s)[nat (idx i) := DASH] ! nat (idx i) = DASH"
        using l len bad_index_range by (simp add: ss_letter_ok_def)
      with inv l show ?thesis
        unfolding t ss_data_inv_def by (auto simp: sv_buf_ok_dash nth_dash)
    qed
  qed (use ex Writer in simp_all)
qed

lemma ss_data_send:
  assumes inv: "ss_data_inv idx s" and ex: "ss_send s a ok = Some t"
  shows "ss_data_inv idx t"
proof (cases a)
  case (Reader i)
  with ex show ?thesis
    by (auto split: ss_phase.splits if_splits intro!: ss_data_goto ss_data_frame inv)
next
  case (Writer i)
  then obtain m where m: "ss_phase s (Writer i) = HReply m"
    using ex by (auto split: ss_phase.splits)
  let ?s' = "if ok then s\<lparr>ss_sent := ss_sent s @ [(Writer i, m)]\<rparr> else s"
  have "ss_data_inv idx ?s'" using inv m by (auto simp: ss_data_inv_def)
  moreover have "t = ss_goto (Writer i) (if m = MBadIndex \<or> \<not> ok then HLost else HStopping) ?s'"
    using ex Writer m by (auto simp: Let_def split: if_splits)
  ultimately show ?thesis by (auto intro: ss_data_goto)
qed

interpretation ss_data: invariant_system "ss_exec idx" "ss_init old" "\<lambda>s. length old = 52 \<longrightarrow> ss_data_inv idx s"
  for idx old
proof
  show "length old = 52 \<longrightarrow> ss_data_inv idx (ss_init old)"
    by (simp add: ss_data_inv_def sv_buf_ok_init)
next
  fix s e t
  assume inv: "length old = 52 \<longrightarrow> ss_data_inv idx s" and ex: "ss_exec idx s e = Some t"
  show "length old = 52 \<longrightarrow> ss_data_inv idx t"
  proof
    assume "length old = 52"
    with inv have i: "ss_data_inv idx s" by simp
    show "ss_data_inv idx t"
    proof (cases e)
      case (HStart a)
      with ex show ?thesis
        by (auto split: if_splits semresult.splits intro!: ss_data_goto ss_data_frame i)
    next
      case (HStop a)
      with ex show ?thesis
        by (auto split: if_splits semresult.splits intro!: ss_data_goto ss_data_frame i)
    qed (use ex ss_data_step [OF i] ss_data_send [OF i] in auto)
  qed
qed


subsection \<open>Waiting counters and lost connections\<close>

lemma ss_semop_eval:
  "semop start_read [0, r, w, 0] = (if w = 0 then Done [0, r + 1, w, 0] else Sleep)"
  "semop start_write [0, r, w, 0] = (if r = 0 then Done [0, r, w + 1, 0] else Sleep)"
  "0 < r \<Longrightarrow> semop stop_read [0, r, w, 0] = Done [0, r - 1, w, 0]"
  "0 < w \<Longrightarrow> semop stop_write [0, r, w, 0] = Done [0, r, w - 1, 0]"
  if "0 \<le> r" "r < SEMVMX" "0 \<le> w" "w < SEMVMX"
  using that by (auto simp: ss_table_defs semop_def sem_simps SEMVMX_def)

lemma ss_read_sleeps: "w \<noteq> 0 \<Longrightarrow> semop start_read [0, r, w, 0] = Sleep"
  by (simp add: ss_table_defs semop_def sem_simps SEMVMX_def)

lemma ss_reach_abst:
  "reach (ss_exec idx) (ss_init old) s \<Longrightarrow> reach (rw_exec ss_tables) (rw_start ss_sems0) (ss_abst s)"
  by (rule ss_sim.reach_abst)

text \<open>The two waiting counters go up and down within one call: nobody ever sees them above 0.\<close>

definition ss_quiet_sems :: "ss_sys \<Rightarrow> bool" where
  "ss_quiet_sems s \<longleftrightarrow> ss_sems s ! SEM_WAITING_READERS = 0 \<and> ss_sems s ! SEM_WAITING_WRITERS = 0"

lemma ss_net_waiting:
  "net (start_ops ss_tables a) SEM_WAITING_READERS = 0" "net (start_ops ss_tables a) SEM_WAITING_WRITERS = 0"
  "net (stop_ops ss_tables a) SEM_WAITING_READERS = 0" "net (stop_ops ss_tables a) SEM_WAITING_WRITERS = 0"
  by (cases a; simp add: ss_table_defs)+

lemma ss_waiting_kept:
  "semop (start_ops ss_tables a) v = Done v' \<Longrightarrow> v' ! SEM_WAITING_READERS = v ! SEM_WAITING_READERS"
  "semop (start_ops ss_tables a) v = Done v' \<Longrightarrow> v' ! SEM_WAITING_WRITERS = v ! SEM_WAITING_WRITERS"
  "semop (stop_ops ss_tables a) v = Done v' \<Longrightarrow> v' ! SEM_WAITING_READERS = v ! SEM_WAITING_READERS"
  "semop (stop_ops ss_tables a) v = Done v' \<Longrightarrow> v' ! SEM_WAITING_WRITERS = v ! SEM_WAITING_WRITERS"
  by (simp_all add: semop_effect [of _ v v'] ss_net_waiting)

interpretation ss_wait: invariant_system "ss_exec idx" "ss_init old" ss_quiet_sems for idx old
proof
  show "ss_quiet_sems (ss_init old)" by (simp add: ss_quiet_sems_def ss_sems0_def ss_indices)
next
  fix s e t
  assume inv: "ss_quiet_sems s" and ex: "ss_exec idx s e = Some t"
  show "ss_quiet_sems t"
  proof (cases e)
    case (HStart a)
    with ex inv show ?thesis
      by (auto simp: ss_quiet_sems_def ss_waiting_kept split: if_splits semresult.splits)
  next
    case (HStop a)
    with ex inv show ?thesis
      by (auto simp: ss_quiet_sems_def ss_waiting_kept split: if_splits semresult.splits)
  next
    case (HStep a)
    with ex inv show ?thesis
      by (cases a) (auto simp: ss_quiet_sems_def split: if_splits ss_phase.splits)
  next
    case (HSend a ok)
    with ex inv show ?thesis
      by (cases a) (auto simp: ss_quiet_sems_def Let_def split: if_splits ss_phase.splits)
  qed
qed

lemma ss_sems_eq:
  assumes r: "reach (ss_exec idx) (ss_init old) s"
  shows "ss_sems s = [0, ss_sems s ! SEM_ACTIVE_READERS, ss_sems s ! SEM_ACTIVE_WRITER, 0] \<and> sem_ok (ss_sems s)"
proof -
  have "ss.counts (ss_abst s)"
    by (rule ss.sys.reach_inv [OF ss_reach_abst [OF r]])
  then have "length (ss_sems s) = 4" "sem_ok (ss_sems s)"
    unfolding ss.counts_def by (simp_all add: ss_sems0_def)
  moreover have "ss_sems s ! 0 = 0" "ss_sems s ! 3 = 0"
    using ss_wait.reach_inv [OF r] by (simp_all add: ss_quiet_sems_def ss_indices)
  ultimately show ?thesis by (auto simp: ss_indices numeral_eq_Suc length_Suc_conv)
qed

text \<open>A handler that has been lost stays lost: no event touches its phase.\<close>

lemma ss_lost_step:
  assumes "ss_exec idx s e = Some t" and "ss_phase s a = HLost"
  shows "ss_phase t a = HLost"
proof (cases e)
  case (HStep b)
  with assms show ?thesis by (cases b) (auto split: if_splits ss_phase.splits)
next
  case (HSend b ok)
  with assms show ?thesis by (cases b) (auto simp: Let_def split: if_splits ss_phase.splits)
qed (use assms in \<open>auto split: if_splits semresult.splits\<close>)

lemma ss_lost_reach: "reach (ss_exec idx) s t \<Longrightarrow> ss_phase s a = HLost \<Longrightarrow> ss_phase t a = HLost"
  by (induction rule: reach.induct) (auto dest: ss_lost_step)

lemma ss_reader_blocked:
  assumes r: "reach (ss_exec idx) (ss_init old) s" and "ss_inside (ss_phase s (Writer j))"
  shows "ss_exec idx s (HStart (Reader i)) = None"
proof -
  have nz: "ss_sems s ! SEM_ACTIVE_WRITER \<noteq> 0"
    using ss.no_writers [OF ss_reach_abst [OF r], of j] assms(2) by auto
  obtain x w where v: "ss_sems s = [0, x, w, 0]" using ss_sems_eq [OF r] by blast
  with nz have "w \<noteq> 0" by (simp add: ss_indices)
  then have "semop start_read (ss_sems s) = Sleep" by (simp add: v ss_read_sleeps)
  then show ?thesis by (simp add: ss_tables_def)
qed


text \<open>While a reader holds its copy, no writer changes the buffer under it.\<close>

definition ss_copy_ok :: "ss_sys \<Rightarrow> bool" where
  "ss_copy_ok s \<longleftrightarrow> (\<forall>i b. ss_phase s (Reader i) = HCopied b \<longrightarrow> b = sv_reader_copy (ss_buf s))"

lemma ss_excl:
  "reach (ss_exec idx) (ss_init old) s \<Longrightarrow> ss_inside (ss_phase s (Reader i)) \<Longrightarrow>
     \<not> ss_inside (ss_phase s (Writer j))"
  using ss.reader_writer_excl [OF ss_reach_abst, of idx old s i j] by simp

lemma ss_buf_step:
  assumes "ss_exec idx s e = Some t"
  shows "ss_buf t = ss_buf s \<or> (\<exists>j ch. ss_phase s (Writer j) = HSaw ch)"
proof (cases e)
  case (HStep a)
  with assms show ?thesis by (cases a) (auto split: if_splits ss_phase.splits intro!: exI)
next
  case (HSend a ok)
  with assms show ?thesis by (cases a) (auto split: if_splits ss_phase.splits simp: Let_def)
qed (use assms in \<open>auto split: if_splits semresult.splits\<close>)

lemma ss_copied_step:
  assumes "ss_exec idx s e = Some t" and "ss_phase t (Reader i) = HCopied b"
  shows "ss_phase s (Reader i) = HCopied b \<or> b = sv_reader_copy (ss_buf t) \<and> ss_buf t = ss_buf s"
proof (cases e)
  case (HStep a)
  with assms show ?thesis by (cases a) (auto split: if_splits ss_phase.splits)
next
  case (HSend a ok)
  with assms show ?thesis by (cases a) (auto split: if_splits ss_phase.splits simp: Let_def)
qed (use assms in \<open>auto split: if_splits semresult.splits\<close>)

lemma ss_copy_reach: "reach (ss_exec idx) (ss_init old) s \<Longrightarrow> ss_copy_ok s"
proof (induction rule: reach.induct)
  case reach_init
  show ?case by (simp add: ss_copy_ok_def)
next
  case (reach_step s e t)
  show ?case unfolding ss_copy_ok_def
  proof (intro allI impI)
    fix i b
    assume b: "ss_phase t (Reader i) = HCopied b"
    from ss_copied_step [OF reach_step.hyps(2) b] show "b = sv_reader_copy (ss_buf t)"
    proof
      assume old: "ss_phase s (Reader i) = HCopied b"
      then have "ss_inside (ss_phase s (Reader i))" by simp
      then have "\<not> ss_inside (ss_phase s (Writer j))" for j using ss_excl [OF reach_step.hyps(1)] by blast
      then have "ss_phase s (Writer j) \<noteq> HSaw ch" for j ch by (metis ss_inside.simps(6))
      then have "ss_buf t = ss_buf s" using ss_buf_step [OF reach_step.hyps(2)] by blast
      with old reach_step.IH show ?thesis by (simp add: ss_copy_ok_def)
    qed simp
  qed
qed


subsection \<open>\<^verbatim>\<open>main\<close>\<close>

text \<open>
  The calls that set the server up, in their order; every failure ends it with
  \<^verbatim>\<open>EXIT_FAILURE\<close>. Then the loop that accepts connections: a turn holds the loop flag as
  tested and the answers of the calls of that turn.
\<close>

datatype ss_call = CSocket | CSetsockopt | CBind | CListen | CFtok | CShmget | CShmat | CSemget | CSetval nat

definition ss_setup :: "ss_call list" where
  "ss_setup = [CSocket, CSetsockopt, CBind, CListen, CFtok, CShmget, CShmat, CSemget,
     CSetval 0, CSetval 1, CSetval 2, CSetval 3]"

record ss_turn =
  tn_flag :: bool
  tn_malloc :: bool
  tn_accept :: bool
  tn_sockopt :: bool
  tn_spawn :: bool

datatype ss_end = Served | Died | StillServing

text \<open>
  The number of handlers started, how the loop ends, and the number of times that
  \<^verbatim>\<open>close(*client_sock_fd)\<close> reads memory that was freed on the line before.
\<close>

fun ss_loop :: "sv_server \<Rightarrow> ss_turn list \<Rightarrow> nat \<times> ss_end \<times> nat" where
  "ss_loop sv [] = (0, StillServing, 0)"
| "ss_loop sv (t # ts) =
     (if \<not> tn_flag t then (0, Served, 0)
      else if sv = ThreadServer then
        if \<not> tn_malloc t then ss_loop sv ts
        else if \<not> tn_accept t then (0, Served, 0)
        else if \<not> tn_spawn t then let (n, e, f) = ss_loop sv ts in (n, e, Suc f)
        else let (n, e, f) = ss_loop sv ts in (Suc n, e, f)
      else
        if \<not> tn_accept t then (0, Served, 0)
        else if \<not> tn_sockopt t then (0, Died, 0)
        else if \<not> tn_spawn t then (0, Died, 0)
        else let (n, e, f) = ss_loop sv ts in (Suc n, e, f))"

text \<open>The IPC objects that exist when a call of the set-up fails.\<close>

fun ss_objects_at :: "ss_call \<Rightarrow> ipc_object list" where
  "ss_objects_at CShmat = [SharedMemory]"
| "ss_objects_at CSemget = [SharedMemory]"
| "ss_objects_at (CSetval _) = [SharedMemory, SemaphoreSet]"
| "ss_objects_at _ = []"

definition ss_main :: "sv_server \<Rightarrow> (ss_call \<Rightarrow> bool) \<Rightarrow> ss_turn list \<Rightarrow> main_result option" where
  "ss_main sv ok ts =
     (case find (\<lambda>c. \<not> ok c) ss_setup of
        Some c \<Rightarrow> Some \<lparr>exit_status = 1, children = 0, left_behind = ss_objects_at c, reports = []\<rparr>
      | None \<Rightarrow>
          let (n, e, f) = ss_loop sv ts in
          (case e of
             StillServing \<Rightarrow> None
           | Died \<Rightarrow> Some \<lparr>exit_status = 1, children = n, left_behind = [SharedMemory, SemaphoreSet], reports = []\<rparr>
           | Served \<Rightarrow> Some \<lparr>exit_status = 0, children = n, left_behind = [], reports = []\<rparr>))"

lemma ss_loop_thread: "fst (snd (ss_loop ThreadServer ts)) \<noteq> Died"
  by (induction ts) (auto simp: Let_def split: prod.splits)


subsection \<open>Schedules\<close>

lemma ss_eval0:
  "semop start_write [0, 0, 0, 0] = Done [0, 0, 1, 0]"
  "semop start_write [0, 0, 1, 0] = Done [0, 0, 2, 0]"
  "semop start_read [0, 0, 0, 0] = Done [0, 1, 0, 0]"
  by (simp_all add: ss_semop_eval SEMVMX_def)

lemma ss_tables_sel [simp]:
  "t_start_read ss_tables = start_read" "t_stop_read ss_tables = stop_read"
  "t_start_write ss_tables = start_write" "t_stop_write ss_tables = stop_write"
  by (simp_all add: ss_tables_def)

abbreviation ss_old :: "int list" where "ss_old \<equiv> replicate 52 0"

lemma ss_old_init: "sv_init ss_old = sv_letters" "ss_buf (ss_init ss_old) ! 0 = 97"
  by (simp_all add: sv_init_eq sv_letters_nth)


subsection \<open>Properties\<close>

text \<open>C5: a reader and a writer are never inside together, so no reader copies the buffer while
  it is being changed: the copy it is about to send is the buffer as it is.\<close>

theorem ss_reader_writer_exclusion:
  assumes "reach (ss_exec idx) (ss_init old) s" and "ss_inside (ss_phase s (Reader i))"
  shows "\<not> ss_inside (ss_phase s (Writer j)) \<and>
    (ss_phase s (Reader i) = HCopied b \<longrightarrow> b = sv_reader_copy (ss_buf s))"
  using ss_excl [OF assms] ss_copy_reach [OF assms(1)] by (simp add: ss_copy_ok_def)

theorem ss_reader_writer_exclusion_witness:
  "\<exists>s. run (ss_exec (\<lambda>_. 0)) (ss_init ss_old) [HStart (Reader 0), HStep (Reader 0)] = Some s \<and>
     ss_inside (ss_phase s (Reader 0)) \<and> \<not> ss_inside (ss_phase s (Writer 5))"
proof -
  have "\<exists>s. run (ss_exec (\<lambda>_. 0)) (ss_init ss_old) [HStart (Reader 0), HStep (Reader 0)] = Some s \<and>
      ss_inside (ss_phase s (Reader 0))"
    by (simp add: ss_sems0_def ss_eval0)
  then obtain s where s: "run (ss_exec (\<lambda>_. 0)) (ss_init ss_old) [HStart (Reader 0), HStep (Reader 0)] = Some s"
    "ss_inside (ss_phase s (Reader 0))" by blast
  with ss_reader_writer_exclusion [OF run_reach_init [OF s(1)] s(2), of 5] show ?thesis by blast
qed

text \<open>C6: a letter that a writer sends is the initial letter of the slot its client asked for, and
  that slot holds a dash from then on; all other slots hold their letter or a dash.\<close>

theorem ss_letters_sent:
  assumes "length old = 52" and "reach (ss_exec idx) (ss_init old) s"
    and "(Writer i, MLetter c) \<in> set (ss_sent s)"
  shows "c = sv_letters ! nat (idx i) \<and> ss_buf s ! nat (idx i) = DASH \<and> sv_buf_ok (ss_buf s)"
  using ss_data.reach_inv [OF assms(2)] assms(1,3)
  by (auto simp: ss_data_inv_def ss_letter_ok_def)

theorem ss_letters_sent_witness:
  "\<exists>s. run (ss_exec (\<lambda>_. 0)) (ss_init ss_old)
       [HStart (Writer 0), HStep (Writer 0), HStep (Writer 0), HSend (Writer 0) True] = Some s \<and>
     (Writer 0, MLetter 97) \<in> set (ss_sent s) \<and> ss_buf s ! 0 = DASH"
proof -
  have "\<exists>s. run (ss_exec (\<lambda>_. 0)) (ss_init ss_old)
       [HStart (Writer 0), HStep (Writer 0), HStep (Writer 0), HSend (Writer 0) True] = Some s \<and>
     (Writer 0, MLetter 97) \<in> set (ss_sent s)"
    by (simp add: ss_sems0_def ss_eval0 ss_old_init sv_bad_index_def SHM_BUFFER_SIZE_def DASH_def
        sv_letters_nth Let_def)
  then obtain s where s: "run (ss_exec (\<lambda>_. 0)) (ss_init ss_old)
       [HStart (Writer 0), HStep (Writer 0), HStep (Writer 0), HSend (Writer 0) True] = Some s"
     "(Writer 0, MLetter 97) \<in> set (ss_sent s)" by blast
  have "length ss_old = 52" by simp
  from ss_letters_sent [OF this run_reach_init [OF s(1)] s(2)] s show ?thesis by auto
qed

text \<open>Writers do not exclude each other: \<^verbatim>\<open>start_write\<close> never waits for ACTIVE_WRITER, so two
  of them can be inside at once and send the same letter to two clients.\<close>

theorem ss_double_handout:
  "\<exists>s. reach (ss_exec (\<lambda>_. 0)) (ss_init ss_old) s \<and>
     ss_sent s = [(Writer 0, MLetter 97), (Writer 1, MLetter 97)]"
proof -
  have "\<exists>s. run (ss_exec (\<lambda>_. 0)) (ss_init ss_old)
     [HStart (Writer 0), HStart (Writer 1), HStep (Writer 0), HStep (Writer 1), HStep (Writer 0),
      HStep (Writer 1), HSend (Writer 0) True, HSend (Writer 1) True] = Some s \<and>
     ss_sent s = [(Writer 0, MLetter 97), (Writer 1, MLetter 97)]"
    by (simp add: ss_sems0_def ss_eval0 ss_old_init sv_bad_index_def SHM_BUFFER_SIZE_def DASH_def
        sv_letters_nth Let_def)
  then show ?thesis using run_reach_init [of "ss_exec (\<lambda>_. 0)" "ss_init ss_old"] by blast
qed

text \<open>The counter of waiting writers is never seen above 0, so writers have no priority: a
  reader that finds no writer inside enters, however many writers are waiting.\<close>

theorem ss_no_writer_priority:
  assumes "reach (ss_exec idx) (ss_init old) s" and "ss_phase s (Reader i) = HWaiting"
    and "ss_sems s ! SEM_ACTIVE_WRITER = 0" and "ss_sems s ! SEM_ACTIVE_READERS < SEMVMX"
  shows "ss_sems s ! SEM_WAITING_WRITERS = 0 \<and>
    (\<exists>t. ss_exec idx s (HStart (Reader i)) = Some t \<and> ss_phase t (Reader i) = HEntered)"
proof -
  obtain r w where v: "ss_sems s = [0, r, w, 0]" "sem_ok (ss_sems s)" using ss_sems_eq [OF assms(1)] by blast
  then have "semop start_read (ss_sems s) = Done [0, r + 1, 0, 0]"
    using assms(3,4) ss_semop_eval(1) [of r w] by (simp add: sem_ok_def ss_indices SEMVMX_def)
  with assms(2) v show ?thesis by (simp add: ss_indices)
qed

theorem ss_no_writer_priority_witness:
  "\<exists>t. ss_exec (\<lambda>_. 0) (ss_init ss_old) (HStart (Reader 3)) = Some t \<and> ss_phase t (Reader 3) = HEntered"
proof -
  have "reach (ss_exec (\<lambda>_. 0)) (ss_init ss_old) (ss_init ss_old)" by (rule reach.reach_init)
  from ss_no_writer_priority [OF this, of 3] show ?thesis
    by (simp add: ss_sems0_def ss_indices SEMVMX_def)
qed

text \<open>A writer whose index is out of range, or whose reply cannot be sent, ends without
  \<^verbatim>\<open>stop_write\<close>: from then on no reader ever gets in.\<close>

theorem ss_lost_writer:
  assumes "reach (ss_exec idx) (ss_init old) s" and "ss_phase s (Writer j) = HLost"
    and "reach (ss_exec idx) s t"
  shows "ss_exec idx t (HStart (Reader i)) = None"
proof -
  have "ss_phase t (Writer j) = HLost" by (rule ss_lost_reach [OF assms(3,2)])
  then show ?thesis
    using ss_reader_blocked [OF reach_trans [OF assms(3,1)], of j i] by simp
qed

theorem ss_lost_writer_witness:
  "\<exists>s. run (ss_exec (\<lambda>_. - 1)) (ss_init ss_old) [HStart (Writer 0), HStep (Writer 0), HSend (Writer 0) True] = Some s \<and>
     ss_sent s = [(Writer 0, MBadIndex)] \<and> ss_exec (\<lambda>_. - 1) s (HStart (Reader 0)) = None"
proof -
  have "\<exists>s. run (ss_exec (\<lambda>_. - 1)) (ss_init ss_old) [HStart (Writer 0), HStep (Writer 0), HSend (Writer 0) True] = Some s \<and>
     ss_sent s = [(Writer 0, MBadIndex)] \<and> ss_phase s (Writer 0) = HLost"
    by (simp add: ss_sems0_def ss_eval0 sv_bad_index_def Let_def)
  then obtain s where s: "run (ss_exec (\<lambda>_. - 1)) (ss_init ss_old) [HStart (Writer 0), HStep (Writer 0), HSend (Writer 0) True] = Some s"
    "ss_sent s = [(Writer 0, MBadIndex)]" "ss_phase s (Writer 0) = HLost" by blast
  from ss_lost_writer [OF run_reach_init [OF s(1)] s(3) reach.reach_init, of 0] s show ?thesis by blast
qed

text \<open>\<^verbatim>\<open>main\<close> ends with status 0 only when it has removed the segment and the semaphores;
  a failure of the loop of the process server, or of a call after \<^verbatim>\<open>shmget\<close>, leaves
  them behind. The thread server never dies in its loop.\<close>

theorem ss_main_outcome:
  "(case ss_main sv ok ts of
      None \<Rightarrow> fst (snd (ss_loop sv ts)) = StillServing
    | Some r \<Rightarrow>
        (if exit_status r = 0 then left_behind r = [] \<and> fst (snd (ss_loop sv ts)) = Served
         else exit_status r = 1 \<and>
           (case find (\<lambda>c. \<not> ok c) ss_setup of
              Some c \<Rightarrow> left_behind r = ss_objects_at c
            | None \<Rightarrow> left_behind r = [SharedMemory, SemaphoreSet] \<and> sv \<noteq> ThreadServer)))"
  using ss_loop_thread [of ts]
  by (cases "ss_loop sv ts")
    (auto simp: ss_main_def Let_def split: option.splits ss_end.splits)


text \<open>Both servers start the same job for the same bytes, and only a failed \<^verbatim>\<open>recv\<close> makes them give
  up: a client that connects and closes at once may start a reader or a writer, depending on
  what the variable for the operation happens to hold.\<close>

theorem ss_dispatch:
  "fst (fork_child g h op idx) = handle_client g h op idx \<and>
   (handle_client g h op idx = JNone \<longleftrightarrow> op = RFail \<or> recv_char op g = Some OP_WRITER \<and> idx = RFail) \<and>
   (snd (fork_child g h op idx) = 1 \<longleftrightarrow> handle_client g h op idx = JNone) \<and>
   handle_client OP_WRITER h REof REof = JWriter h"
  by (cases op; cases idx) (auto simp: fork_child_def handle_client_def OP_READER_def OP_WRITER_def)

end
