(* ===== verification/Sock_Select.thy ===== *)
theory Sock_Select
  imports Sock_Letters
begin

section \<open>The select server\<close>

text \<open>
  Model of lab-socket/task-06/server.c: one process that serves its connections one after the
  other. \<^verbatim>\<open>client_service\<close> is a function of what \<^verbatim>\<open>recv\<close> delivers; the main loop passes over all
  descriptors up to the largest one after each \<^verbatim>\<open>select\<close>.
\<close>

subsection \<open>Serving one connection\<close>

text \<open>
  \<^verbatim>\<open>recv\<close> of one byte: \<^term>\<open>None\<close> stands for a result of 0 or less. A reply carries the number of
  bytes sent: a bad index sends \<^verbatim>\<open>SHM_BUFFER_SIZE\<close> bytes, any other answer to a writer
  \<^verbatim>\<open>STR_BUFFER_SIZE\<close>; a reader gets the buffer without the terminating zero.
\<close>

datatype se_reply = RCopy "int list" | RText string nat

record se_state =
  se_buf :: "int list"
  se_flag :: bool
  se_listening :: bool

definition se_sig_handler :: "se_state \<Rightarrow> se_state" where
  "se_sig_handler s = s\<lparr>se_flag := False, se_listening := False\<rparr>"

definition se_writer :: "int \<Rightarrow> se_state \<Rightarrow> se_state \<times> se_reply" where
  "se_writer idx s =
     (let (b, m) = sv_writer_take idx (se_buf s) in
      if m = MBadIndex then (se_sig_handler s, RText (sv_text SelectServer m) SHM_BUFFER_SIZE)
      else (s\<lparr>se_buf := b\<rparr>, RText (sv_text SelectServer m) STR_BUFFER_SIZE))"

definition se_reader :: "se_state \<Rightarrow> se_reply" where
  "se_reader s = RCopy (take SHM_BUFFER_SIZE (sv_reader_copy (se_buf s)))"

record se_service =
  sr_state :: se_state
  sr_reply :: "se_reply option"
  sr_closes :: nat

definition SE_READER :: int where "SE_READER = 114"
definition SE_WRITER :: int where "SE_WRITER = 119"

text \<open>
  \<^verbatim>\<open>client_service\<close>, with the number of times it closes the descriptor: twice when the index of a
  writer does not arrive.
\<close>

definition client_service :: "int option \<Rightarrow> int option \<Rightarrow> se_state \<Rightarrow> se_service" where
  "client_service op idx s =
     (case op of
        None \<Rightarrow> \<lparr>sr_state = s, sr_reply = None, sr_closes = 1\<rparr>
      | Some c \<Rightarrow>
          if c = SE_READER then \<lparr>sr_state = s, sr_reply = Some (se_reader s), sr_closes = 1\<rparr>
          else if c = SE_WRITER then
            (case idx of
               None \<Rightarrow> \<lparr>sr_state = s, sr_reply = None, sr_closes = 2\<rparr>
             | Some i \<Rightarrow>
                 let (s', r) = se_writer i s in
                 \<lparr>sr_state = s', sr_reply = Some r, sr_closes = 1\<rparr>)
          else \<lparr>sr_state = s, sr_reply = None, sr_closes = 1\<rparr>)"

definition se_start :: "int list \<Rightarrow> se_state" where
  "se_start old = \<lparr>se_buf = sv_init old, se_flag = True, se_listening = True\<rparr>"


subsection \<open>Sequences of requests\<close>

type_synonym se_request = "int option \<times> int option"

fun se_serve_all :: "se_request list \<Rightarrow> se_state \<Rightarrow> se_state \<times> se_reply list" where
  "se_serve_all [] s = (s, [])"
| "se_serve_all ((op, idx) # rs) s =
     (let r = client_service op idx s; (s', out) = se_serve_all rs (sr_state r) in
      (s', (case sr_reply r of None \<Rightarrow> out | Some m \<Rightarrow> m # out)))"

text \<open>The letters among the replies: the texts of one character.\<close>

definition se_letters :: "se_reply list \<Rightarrow> char list" where
  "se_letters rs = concat (map (\<lambda>r. case r of RText [c] _ \<Rightarrow> [c] | _ \<Rightarrow> []) rs)"

lemma se_letters_simps [simp]:
  "se_letters [] = []"
  "se_letters (r # rs) = (case r of RText [c] _ \<Rightarrow> c # se_letters rs | _ \<Rightarrow> se_letters rs)"
  by (auto simp: se_letters_def split: se_reply.splits list.splits)

text \<open>The letters still to be had.\<close>

definition se_left :: "int list \<Rightarrow> char set" where
  "se_left b = {char_of (nat (sv_letters ! k)) | k. k < 52 \<and> b ! k \<noteq> DASH}"

lemma letter_char_inj:
  assumes "j < 52" and "k < 52"
    and "char_of (nat (sv_letters ! j)) = (char_of (nat (sv_letters ! k)) :: char)"
  shows "j = k"
proof -
  have r: "nat (sv_letters ! i) mod 256 = nat (sv_letters ! i)" "0 \<le> sv_letters ! i" if "i < 52" for i
    using that by (auto simp: sv_letters_nth)
  have "nat (sv_letters ! j) mod 256 = nat (sv_letters ! k) mod 256"
    using arg_cong [OF assms(3), of "of_char :: char \<Rightarrow> nat"] by simp
  then have "sv_letters ! j = sv_letters ! k"
    unfolding r(1) [OF assms(1)] r(1) [OF assms(2)]
    using r(2) [OF assms(1)] r(2) [OF assms(2)] by (simp add: eq_nat_nat_iff)
  then show ?thesis using sv_letters_distinct assms(1,2) by (simp add: nth_eq_iff_index_eq)
qed

lemma se_left_take:
  assumes "sv_buf_ok b" and "k < 52" and "b ! k \<noteq> DASH"
  shows "char_of (nat (b ! k)) \<in> se_left b"
    and "se_left (b[k := DASH]) = se_left b - {char_of (nat (b ! k))}"
proof -
  have eq: "b ! k = sv_letters ! k" using assms by (auto simp: sv_buf_ok_def)
  have len: "length b = 52" using assms(1) by (simp add: sv_buf_ok_def)
  show "char_of (nat (b ! k)) \<in> se_left b" using assms eq by (auto simp: se_left_def)
  show "se_left (b[k := DASH]) = se_left b - {char_of (nat (b ! k))}"
    using assms(2) len eq
    by (auto simp: se_left_def nth_list_update dest: letter_char_inj split: if_splits)
qed

text \<open>
  One connection: the buffer stays well formed, and a letter in the reply was there before and is
  gone afterwards.
\<close>

lemma client_service_effect:
  assumes ok: "sv_buf_ok (se_buf s)" and r: "r = client_service op idx s"
  shows "sv_buf_ok (se_buf (sr_state r))"
    and "(case sr_reply r of Some (RText [c] _) \<Rightarrow>
            c \<in> se_left (se_buf s) \<and> se_left (se_buf (sr_state r)) = se_left (se_buf s) - {c}
          | _ \<Rightarrow> se_left (se_buf (sr_state r)) = se_left (se_buf s))"
proof -
  show "sv_buf_ok (se_buf (sr_state r))"
    using ok
    by (auto simp: r client_service_def se_writer_def se_sig_handler_def Let_def
        split: option.splits prod.splits dest: sv_buf_ok_taken)
  consider (same) "sr_state r = s" "\<And>t n. sr_reply r \<noteq> Some (RText t n)"
    | (writer) i where "op = Some SE_WRITER" "idx = Some i"
  proof (cases "\<exists>i. op = Some SE_WRITER \<and> idx = Some i")
    case False
    then have "sr_state r = s \<and> (\<forall>t n. sr_reply r \<noteq> Some (RText t n))"
      by (auto simp: r client_service_def se_reader_def split: option.splits)
    then show thesis using same by blast
  qed (use writer in blast)
  then show "case sr_reply r of Some (RText [c] _) \<Rightarrow>
            c \<in> se_left (se_buf s) \<and> se_left (se_buf (sr_state r)) = se_left (se_buf s) - {c}
          | _ \<Rightarrow> se_left (se_buf (sr_state r)) = se_left (se_buf s)"
  proof cases
    case same
    then show ?thesis by (auto split: option.splits se_reply.splits)
  next
    case writer
    have r': "r = (let (s', m) = se_writer i s in \<lparr>sr_state = s', sr_reply = Some m, sr_closes = 1\<rparr>)"
      using writer by (simp add: r client_service_def SE_READER_def SE_WRITER_def)
    show ?thesis
    proof (cases "sv_bad_index i \<or> se_buf s ! nat i = DASH")
      case True
      then show ?thesis
        by (auto simp: r' se_writer_def sv_writer_take_def se_sig_handler_def Let_def)
    next
      case False
      then have "nat i < 52" by (auto simp: sv_bad_index_def SHM_BUFFER_SIZE_def)
      from se_left_take [OF ok this] False show ?thesis
        by (auto simp: r' se_writer_def sv_writer_take_def Let_def)
    qed
  qed
qed

lemma se_serve_all_letters:
  "sv_buf_ok (se_buf s) \<Longrightarrow> se_serve_all rs s = (t, out) \<Longrightarrow>
     distinct (se_letters out) \<and> set (se_letters out) \<subseteq> se_left (se_buf s) \<and>
     se_left (se_buf t) = se_left (se_buf s) - set (se_letters out)"
proof (induction rs arbitrary: s out)
  case Nil
  then show ?case by simp
next
  case (Cons q rs)
  obtain op idx where q: "q = (op, idx)" by (cases q)
  define r where "r = client_service op idx s"
  obtain out' where rec: "se_serve_all rs (sr_state r) = (t, out')"
    and out: "out = (case sr_reply r of None \<Rightarrow> out' | Some m \<Rightarrow> m # out')"
    using Cons.prems(2) by (auto simp: q r_def Let_def split: prod.splits)
  note eff = client_service_effect [OF Cons.prems(1) r_def]
  from Cons.IH [OF eff(1) rec] eff(2) show ?case
    by (auto simp: out split: option.splits se_reply.splits list.splits)
qed


subsection \<open>Rounds of a client\<close>

text \<open>A client alone with the server: it reads the buffer, then asks for the first letter in it.\<close>

definition se_client_round :: "se_state \<Rightarrow> se_state \<times> se_reply list" where
  "se_client_round s =
     (let r = client_service (Some SE_READER) None s;
          copy = (case sr_reply r of Some (RCopy b) \<Rightarrow> b @ [0] | _ \<Rightarrow> []);
          i = to_schar (find_first_unoccupied_index copy);
          w = client_service (Some SE_WRITER) (Some i) (sr_state r)
      in (sr_state w, case sr_reply w of Some m \<Rightarrow> [m] | None \<Rightarrow> []))"

fun se_rounds :: "nat \<Rightarrow> se_state \<Rightarrow> se_state \<times> se_reply list" where
  "se_rounds 0 s = (s, [])"
| "se_rounds (Suc n) s = (let (s1, out) = se_rounds n s; (s2, m) = se_client_round s1 in (s2, out @ m))"

lemma se_client_round_eq:
  assumes "se_buf s = sv_taken n" and "n < 52"
  shows "se_client_round s =
    (s\<lparr>se_buf := sv_taken (Suc n)\<rparr>, [RText [char_of (nat (sv_letters ! n))] STR_BUFFER_SIZE])"
proof -
  have ok: "sv_buf_ok (sv_taken n)" using assms(2) by (simp add: sv_taken_ok)
  have "take SHM_BUFFER_SIZE (sv_reader_copy (sv_taken n)) @ [0] = sv_reader_copy (sv_taken n)"
    using ok by (simp add: sv_reader_copy_eq SHM_BUFFER_SIZE_def sv_buf_ok_def)
  moreover have "to_schar (int n) = int n" using assms(2) by (simp add: to_schar_id)
  ultimately show ?thesis
    using assms sv_taken_find [OF assms(2)] sv_taken_take [OF assms(2)]
    by (simp add: se_client_round_def client_service_def SE_READER_def SE_WRITER_def se_reader_def
        se_writer_def Let_def)
qed

lemma se_client_round_end:
  assumes "se_buf s = sv_taken 52"
  shows "se_client_round s = (se_sig_handler s, [RText ''buffer empty'' SHM_BUFFER_SIZE])"
proof -
  have ok: "sv_buf_ok (sv_taken 52)" by (simp add: sv_taken_ok)
  have "take SHM_BUFFER_SIZE (sv_reader_copy (sv_taken 52)) @ [0] = sv_reader_copy (sv_taken 52)"
    using ok by (simp add: sv_reader_copy_eq SHM_BUFFER_SIZE_def sv_buf_ok_def)
  then show ?thesis
    using assms sv_taken_find_none
    by (simp add: se_client_round_def client_service_def SE_READER_def SE_WRITER_def se_reader_def
        se_writer_def Let_def sv_writer_take_def sv_bad_index_def to_schar_def)
qed

lemma se_rounds_eq:
  "length old = 52 \<Longrightarrow> n \<le> 52 \<Longrightarrow>
     se_rounds n (se_start old) = ((se_start old)\<lparr>se_buf := sv_taken n\<rparr>,
       map (\<lambda>k. RText [char_of (nat (sv_letters ! k))] STR_BUFFER_SIZE) [0..<n])"
proof (induction n)
  case 0
  then show ?case by (simp add: se_start_def sv_taken_def sv_init_eq)
next
  case (Suc n)
  then show ?case using se_client_round_eq [of "(se_start old)\<lparr>se_buf := sv_taken n\<rparr>" n] by simp
qed


subsection \<open>The main loop\<close>

text \<open>
  One pass after \<^verbatim>\<open>select\<close>. The bound of the loop is read again at each turn, so a descriptor
  that \<^verbatim>\<open>accept\<close> returns is already visited in this pass when it is larger than the
  listening one. \<open>net\<close> says what \<^verbatim>\<open>recv\<close> delivers on each descriptor, \<open>accepted\<close> what \<^verbatim>\<open>accept\<close>
  returns. The set that \<^verbatim>\<open>select\<close> has filled in, \<^verbatim>\<open>read_fds\<close>, is not looked at.
\<close>

record se_loop =
  lp_state :: se_state
  lp_master :: "nat set"
  lp_active :: nat
  lp_log :: "(nat \<times> nat) list"

function se_pass :: "nat \<Rightarrow> nat option \<Rightarrow> (nat \<Rightarrow> se_request) \<Rightarrow> nat \<Rightarrow> se_loop \<Rightarrow> se_loop" where
  "se_pass listen accepted net fd l =
     (if fd \<le> lp_active l then
        if fd = listen then
          (case accepted of
             None \<Rightarrow> se_pass listen accepted net (Suc fd) l
           | Some c \<Rightarrow> se_pass listen accepted net (Suc fd)
               (l\<lparr>lp_master := insert c (lp_master l), lp_active := max c (lp_active l)\<rparr>))
        else
          let r = client_service (fst (net fd)) (snd (net fd)) (lp_state l) in
          se_pass listen accepted net (Suc fd)
            (l\<lparr>lp_state := sr_state r, lp_master := lp_master l - {fd}, lp_log := lp_log l @ [(fd, sr_closes r)]\<rparr>)
      else l)"
  by pat_completeness auto
termination
  by (relation "measures [\<lambda>(listen, _, _, fd, _). Suc listen - fd, \<lambda>(_, _, _, fd, l). Suc (lp_active l) - fd]")
    auto

declare se_pass.simps [simp del]

text \<open>Every descriptor from the current one up to the bound, the listening one excepted, is served and closed.\<close>

lemma client_service_closes: "0 < sr_closes (client_service op idx s)"
  by (auto simp: client_service_def Let_def split: option.splits prod.splits)

lemma se_pass_log_mono: "set (lp_log l) \<subseteq> set (lp_log (se_pass listen accepted net fd l))"
proof (induction listen accepted net fd l rule: se_pass.induct)
  case (1 listen accepted net fd l)
  show ?case
    by (subst se_pass.simps) (use 1 in \<open>auto simp: Let_def split: option.splits\<close>)
qed

lemma se_pass_serves:
  "fd \<le> k \<Longrightarrow> k \<le> lp_active l \<Longrightarrow> k \<noteq> listen \<Longrightarrow>
     \<exists>n > 0. (k, n) \<in> set (lp_log (se_pass listen accepted net fd l))"
proof (induction listen accepted net fd l rule: se_pass.induct)
  case (1 listen accepted net fd l)
  show ?case
  proof (cases "fd = listen")
    case True
    with 1 show ?thesis by (subst se_pass.simps) (auto split: option.splits)
  next
    case False
    define r where "r = client_service (fst (net fd)) (snd (net fd)) (lp_state l)"
    define l' where "l' = l\<lparr>lp_state := sr_state r, lp_master := lp_master l - {fd},
      lp_log := lp_log l @ [(fd, sr_closes r)]\<rparr>"
    have p: "se_pass listen accepted net fd l = se_pass listen accepted net (Suc fd) l'"
      using 1(4,5) False by (subst se_pass.simps) (simp add: r_def l'_def Let_def)
    show ?thesis
    proof (cases "k = fd")
      case True
      have "(fd, sr_closes r) \<in> set (lp_log (se_pass listen accepted net (Suc fd) l'))"
        using se_pass_log_mono [of l' listen accepted net "Suc fd"] by (auto simp: l'_def)
      then show ?thesis using True p client_service_closes by (auto simp: r_def)
    next
      case nk: False
      have "fd \<le> lp_active l" using 1(4,5) by simp
      from 1(3) [OF this False r_def] nk 1(4-6) show ?thesis
        by (simp add: p l'_def)
    qed
  qed
qed

text \<open>The loop around it, on the answers of \<^verbatim>\<open>select\<close>.\<close>

record se_turn =
  st_select :: bool
  st_accept :: "nat option"
  st_net :: "nat \<Rightarrow> se_request"

fun se_main_loop :: "nat \<Rightarrow> se_turn list \<Rightarrow> se_loop \<Rightarrow> se_loop" where
  "se_main_loop listen [] l = l"
| "se_main_loop listen (t # ts) l =
     (if \<not> se_flag (lp_state l) then l
      else if \<not> st_select t then l
      else se_main_loop listen ts (se_pass listen (st_accept t) (st_net t) 0 l))"

definition se_loop_start :: "nat \<Rightarrow> int list \<Rightarrow> se_loop" where
  "se_loop_start listen old = \<lparr>lp_state = se_start old, lp_master = {listen}, lp_active = listen, lp_log = []\<rparr>"


lemma char_98: "char_of (98 :: nat) = CHR ''b''"
  by code_simp


subsection \<open>Properties\<close>

text \<open>C10: over any sequence of connections no letter is handed out twice, and every letter handed
  out was in the buffer before; the letters still there are exactly the others.\<close>

theorem se_at_most_once:
  assumes "length old = 52" and "se_serve_all rs (se_start old) = (t, out)"
  shows "distinct (se_letters out) \<and> se_left (se_buf t) = se_left sv_letters - set (se_letters out)"
  using se_serve_all_letters [of "se_start old" rs t out] assms
  by (simp add: se_start_def sv_buf_ok_letters sv_init_eq)

theorem se_at_most_once_witness:
  "se_letters (snd (se_serve_all [(Some 119, Some 1), (Some 119, Some 1)] (se_start (replicate 52 0)))) = ''b'' \<and>
   distinct (se_letters (snd (se_serve_all [(Some 119, Some 1), (Some 119, Some 1)] (se_start (replicate 52 0)))))"
proof -
  let ?r = "se_serve_all [(Some 119, Some 1), (Some 119, Some 1)] (se_start (replicate 52 0))"
  have "se_letters (snd ?r) = ''b''"
    by (simp add: client_service_def SE_READER_def SE_WRITER_def se_writer_def sv_writer_take_def
        sv_bad_index_def SHM_BUFFER_SIZE_def se_start_def sv_init_eq sv_letters_nth DASH_def Let_def
        nth_list_update char_98)
  moreover have "length (replicate 52 (0::int)) = 52" by simp
  ultimately show ?thesis using se_at_most_once [of "replicate 52 0" _ "fst ?r" "snd ?r"] by simp
qed

text \<open>C36: Clients that run one after the other get the letters a to z, then A to Z, one each; the
  next client is told that the buffer is empty, and the server has stopped.\<close>

theorem se_rounds_in_order:
  assumes "length old = 52"
  shows "se_letters (snd (se_rounds 52 (se_start old))) = map (\<lambda>k. char_of (nat (sv_letters ! k))) [0..<52] \<and>
    snd (se_rounds 53 (se_start old)) = snd (se_rounds 52 (se_start old)) @ [RText ''buffer empty'' 52] \<and>
    \<not> se_flag (fst (se_rounds 53 (se_start old)))"
proof -
  have r52: "se_rounds 52 (se_start old) = ((se_start old)\<lparr>se_buf := sv_taken 52\<rparr>,
      map (\<lambda>k. RText [char_of (nat (sv_letters ! k))] STR_BUFFER_SIZE) [0..<52])"
    using se_rounds_eq [OF assms, of 52] by simp
  have "se_letters (map (\<lambda>k. RText [f k] n) ks) = map f ks" for f :: "nat \<Rightarrow> char" and n ks
    by (induction ks) simp_all
  then have l: "se_letters (snd (se_rounds 52 (se_start old))) = map (\<lambda>k. char_of (nat (sv_letters ! k))) [0..<52]"
    by (simp only: r52 snd_conv)
  have "se_rounds 53 (se_start old) = se_rounds (Suc 52) (se_start old)" by simp
  also have "\<dots> = (se_sig_handler ((se_start old)\<lparr>se_buf := sv_taken 52\<rparr>),
      snd (se_rounds 52 (se_start old)) @ [RText ''buffer empty'' 52])"
    using se_client_round_end [of "(se_start old)\<lparr>se_buf := sv_taken 52\<rparr>"]
    unfolding se_rounds.simps(2) r52 by (simp add: SHM_BUFFER_SIZE_def del: upt_Suc)
  finally show ?thesis using l by (simp add: se_sig_handler_def)
qed

theorem se_rounds_in_order_witness:
  "\<not> se_flag (fst (se_rounds 53 (se_start (replicate 52 0))))"
  using se_rounds_in_order [of "replicate 52 0"] by simp

text \<open>A pass serves and closes every descriptor from 0 to the largest known one except the
  listening socket, whether \<^verbatim>\<open>select\<close> has reported it or not, the standard streams included.\<close>

theorem se_pass_closes_all:
  assumes "k \<le> lp_active l" and "k \<noteq> listen"
  shows "\<exists>n > 0. (k, n) \<in> set (lp_log (se_pass listen accepted net 0 l))"
  using se_pass_serves [of 0 k l listen accepted net] assms by simp

theorem se_pass_closes_all_witness:
  "\<exists>n > 0. (2, n) \<in> set (lp_log (se_pass 3 (Some 4) (\<lambda>_. (None, None)) 0 (se_loop_start 3 (replicate 52 0))))"
  using se_pass_closes_all [of 2 "se_loop_start 3 (replicate 52 0)" 3] by (simp add: se_loop_start_def)

end
