(* ===== verification/Letter_Clients.thy ===== *)
theory Letter_Clients
  imports Sock_Select Sysv_Sem
begin

section \<open>The clients of the letter servers\<close>

text \<open>
  Model of lab-socket/task-04, task-05 and task-06/client.c as concurrent programs, and of them
  together with the sequential server of task-06. Ten processes (task-04), ten or five threads
  (task-05, task-06) repeat the round of Sock_Letters. The index that a round finds goes through
  the global variable \<^verbatim>\<open>first_unoccupied_idx\<close>: each process has its own, the threads share one.
  The same holds for \<^verbatim>\<open>loop_flag\<close> and for the log file, which the handler of SIGINT closes. The
  properties are in Letter_Rounds.
\<close>

subsection \<open>State\<close>

text \<open>
  A client is before its loop test, before one of the nine system calls of
  \<^typ>\<open>cl_call\<close>, or at one of three statements between them: it has the copy of the buffer and will store
  the index, it has the answer and will decide whether to log, it will write to the log.
  \<open>LGone\<close> says whether the loop flag ended it, or a failed call.
\<close>

datatype lc_pc = LTop | LBefore cl_call | LGot "int list" | LAnswer string | LLogging | LGone bool

text \<open>
  A connection: the bytes sent that the server has not read, or the reply that the client
  has not read (\<^term>\<open>None\<close>: closed without one). \<open>HungUp\<close> is a connection that the client
  has left before the server came to it.
\<close>

datatype lc_conn = NoConn | Conn "int list" | Answered "se_reply option" | HungUp "int list"

record lc_sys =
  lc_pc :: "nat \<Rightarrow> lc_pc"
  lc_conn :: "nat \<Rightarrow> lc_conn"
  lc_index :: "nat \<Rightarrow> int"
  lc_flag :: "nat \<Rightarrow> bool"
  lc_log_open :: "nat \<Rightarrow> bool"
  lc_lines :: "nat list"
  lc_bad_lines :: "nat list"
  lc_bad_closes :: nat
  lc_found :: "nat \<Rightarrow> int"
  lc_got :: "(nat \<times> string) list"
  lc_leaked :: "nat \<Rightarrow> nat"

text \<open>
  \<open>lc_lines\<close> names the client of each line in the log, \<open>lc_bad_lines\<close> that of each
  \<^verbatim>\<open>fprintf\<close> on the closed file. \<open>lc_found\<close> (the index the client has itself found) and
  \<open>lc_got\<close> (the answers received) only record.
\<close>

datatype lc_event =
    LTest nat | LCall nat bool string | LStore nat | LDecide nat | LLog nat | LSignal nat
  | LReply nat "se_reply option"

text \<open>Which copy of the globals a client uses.\<close>

definition lc_slot :: "sv_server \<Rightarrow> nat \<Rightarrow> nat" where
  "lc_slot sv i = (if sv = ForkServer then i else 0)"

definition lc_goto :: "nat \<Rightarrow> lc_pc \<Rightarrow> lc_sys \<Rightarrow> lc_sys" where
  "lc_goto i p s = s\<lparr>lc_pc := (lc_pc s)(i := p)\<rparr>"

definition lc_link :: "nat \<Rightarrow> lc_conn \<Rightarrow> lc_sys \<Rightarrow> lc_sys" where
  "lc_link i k s = s\<lparr>lc_conn := (lc_conn s)(i := k)\<rparr>"

definition lc_start :: lc_sys where
  "lc_start = \<lparr>lc_pc = (\<lambda>_. LTop), lc_conn = (\<lambda>_. NoConn), lc_index = (\<lambda>_. 0), lc_flag = (\<lambda>_. True),
     lc_log_open = (\<lambda>_. True), lc_lines = [], lc_bad_lines = [], lc_bad_closes = 0, lc_found = (\<lambda>_. 0),
     lc_got = [], lc_leaked = (\<lambda>_. 0)\<rparr>"


subsection \<open>What the client reads\<close>

text \<open>
  The buffer of the first request is all zeros before \<^verbatim>\<open>recv\<close>; the one of the second
  is not initialised, so that its contents after an empty answer (\<open>junk\<close>) are arbitrary.
\<close>

definition lc_text_bytes :: "string \<Rightarrow> int list" where
  "lc_text_bytes t = map (\<lambda>c. int (of_char c)) t"

fun lc_copy :: "se_reply option \<Rightarrow> int list" where
  "lc_copy (Some (RCopy b)) = b @ [0]"
| "lc_copy (Some (RText t n)) = lc_text_bytes t @ [0]"
| "lc_copy None = [0]"

fun lc_text :: "string \<Rightarrow> se_reply option \<Rightarrow> string" where
  "lc_text junk (Some (RText t n)) = t"
| "lc_text junk (Some (RCopy b)) = map (\<lambda>c. char_of (nat c)) (takeWhile (\<lambda>c. c \<noteq> 0) b)"
| "lc_text junk None = junk"


subsection \<open>Steps\<close>

text \<open>A failed call: the client closes its socket and ends.\<close>

definition lc_fail :: "nat \<Rightarrow> lc_sys \<Rightarrow> lc_sys" where
  "lc_fail i s =
     lc_goto i (LGone False) (lc_link i (case lc_conn s i of Conn w \<Rightarrow> HungUp w | HungUp w \<Rightarrow> HungUp w | _ \<Rightarrow> NoConn) s)"

definition lc_send :: "nat \<Rightarrow> int \<Rightarrow> cl_call \<Rightarrow> lc_sys \<Rightarrow> lc_sys option" where
  "lc_send i c nxt s =
     (case lc_conn s i of
        Conn w \<Rightarrow> Some (lc_goto i (LBefore nxt) (lc_link i (Conn (w @ [c])) s))
      | _ \<Rightarrow> None)"

text \<open>The nine calls when they succeed. Only the client of task-04 keeps its second socket open.\<close>

fun lc_call :: "sv_server \<Rightarrow> nat \<Rightarrow> string \<Rightarrow> cl_call \<Rightarrow> lc_sys \<Rightarrow> lc_sys option" where
  "lc_call sv i junk Socket1 s = Some (lc_goto i (LBefore Connect1) s)"
| "lc_call sv i junk Connect1 s = Some (lc_goto i (LBefore SendOp1) (lc_link i (Conn []) s))"
| "lc_call sv i junk SendOp1 s = lc_send i SE_READER RecvBuf s"
| "lc_call sv i junk RecvBuf s =
     (case lc_conn s i of
        Answered r \<Rightarrow> Some (lc_goto i (LGot (lc_copy r)) (lc_link i NoConn s))
      | _ \<Rightarrow> None)"
| "lc_call sv i junk Socket2 s = Some (lc_goto i (LBefore Connect2) s)"
| "lc_call sv i junk Connect2 s = Some (lc_goto i (LBefore SendOp2) (lc_link i (Conn []) s))"
| "lc_call sv i junk SendOp2 s = lc_send i SE_WRITER SendIdx s"
| "lc_call sv i junk SendIdx s = lc_send i (lc_index s (lc_slot sv i)) RecvResult s"
| "lc_call sv i junk RecvResult s =
     (case lc_conn s i of
        Answered r \<Rightarrow>
          Some (lc_goto i (LAnswer (lc_text junk r)) (lc_link i NoConn
            (s\<lparr>lc_got := lc_got s @ [(i, lc_text junk r)],
               lc_leaked := (lc_leaked s)(i := lc_leaked s i + (if sv = ForkServer then 1 else 0))\<rparr>)))
      | _ \<Rightarrow> None)"

text \<open>The handler of SIGINT, in the copy of the globals that it runs in.\<close>

definition lc_sig_handler :: "nat \<Rightarrow> lc_sys \<Rightarrow> lc_sys" where
  "lc_sig_handler k s =
     (if lc_log_open s k then s\<lparr>lc_log_open := (lc_log_open s)(k := False), lc_flag := (lc_flag s)(k := False)\<rparr>
      else s\<lparr>lc_bad_closes := Suc (lc_bad_closes s), lc_flag := (lc_flag s)(k := False)\<rparr>)"

text \<open>The request on a connection, once the server can read it to its end.\<close>

fun lc_request :: "lc_conn \<Rightarrow> se_request option" where
  "lc_request (Conn [c]) = (if c = SE_WRITER then None else Some (Some c, None))"
| "lc_request (Conn [c, i]) = Some (Some c, Some i)"
| "lc_request (HungUp []) = Some (None, None)"
| "lc_request (HungUp [c]) = Some (Some c, None)"
| "lc_request (HungUp (c # i # w)) = Some (Some c, Some i)"
| "lc_request _ = None"

fun lc_exec :: "sv_server \<Rightarrow> lc_sys \<Rightarrow> lc_event \<Rightarrow> lc_sys option" where
  "lc_exec sv s (LTest i) =
     (if lc_pc s i = LTop
      then Some (lc_goto i (if lc_flag s (lc_slot sv i) then LBefore Socket1 else LGone True) s) else None)"
| "lc_exec sv s (LCall i ok junk) =
     (case lc_pc s i of
        LBefore c \<Rightarrow> if ok then lc_call sv i junk c s else Some (lc_fail i s)
      | _ \<Rightarrow> None)"
| "lc_exec sv s (LStore i) =
     (case lc_pc s i of
        LGot b \<Rightarrow>
          let x = to_schar (find_first_unoccupied_index b) in
          Some (lc_goto i (LBefore Socket2)
            (s\<lparr>lc_index := (lc_index s)(lc_slot sv i := x), lc_found := (lc_found s)(i := x)\<rparr>))
      | _ \<Rightarrow> None)"
| "lc_exec sv s (LDecide i) =
     (case lc_pc s i of
        LAnswer t \<Rightarrow>
          Some (lc_goto i (if 0 \<le> lc_index s (lc_slot sv i) \<and> length t = 1 then LLogging else LTop) s)
      | _ \<Rightarrow> None)"
| "lc_exec sv s (LLog i) =
     (if lc_pc s i = LLogging then
        Some (lc_goto i LTop
          (if lc_log_open s (lc_slot sv i) then s\<lparr>lc_lines := lc_lines s @ [i]\<rparr>
           else s\<lparr>lc_bad_lines := lc_bad_lines s @ [i]\<rparr>))
      else None)"
| "lc_exec sv s (LSignal k) = Some (lc_sig_handler k s)"
| "lc_exec sv s (LReply i r) =
     (case lc_conn s i of
        Conn w \<Rightarrow> if lc_request (Conn w) = None then None else Some (lc_link i (Answered r) s)
      | HungUp w \<Rightarrow> Some (lc_link i NoConn s)
      | _ \<Rightarrow> None)"


subsection \<open>Together with the sequential server\<close>

text \<open>
  The server takes one connection at a time and answers it with \<^verbatim>\<open>client_service\<close>. It may do so
  in any order, also after its own shutdown has begun: the pass over the descriptors goes on.
\<close>

datatype ls_event = LClient lc_event | LServe nat

fun ls_exec :: "sv_server \<Rightarrow> lc_sys \<times> se_state \<Rightarrow> ls_event \<Rightarrow> (lc_sys \<times> se_state) option" where
  "ls_exec sv (c, s) (LClient e) =
     (case e of
        LReply i r \<Rightarrow> None
      | _ \<Rightarrow> (case lc_exec sv c e of None \<Rightarrow> None | Some c' \<Rightarrow> Some (c', s)))"
| "ls_exec sv (c, s) (LServe i) =
     (case lc_request (lc_conn c i) of
        None \<Rightarrow> None
      | Some (op, idx) \<Rightarrow>
          let r = client_service op idx s in
          (case lc_exec sv c (LReply i (sr_reply r)) of None \<Rightarrow> None | Some c' \<Rightarrow> Some (c', sr_state r)))"

definition ls_start :: "int list \<Rightarrow> lc_sys \<times> se_state" where
  "ls_start old = (lc_start, se_start old)"


subsection \<open>No letter twice\<close>

text \<open>The letters among the answers received; the answers with a letter that are on their way.\<close>

definition lc_letters :: "lc_sys \<Rightarrow> char list" where
  "lc_letters c = concat (map (\<lambda>(i, t). if length t = 1 then t else []) (lc_got c))"

fun lc_flight :: "lc_conn \<Rightarrow> char option" where
  "lc_flight (Answered (Some (RText [ch] n))) = Some ch"
| "lc_flight _ = None"

definition ls_alphabet :: "char set" where
  "ls_alphabet = se_left sv_letters"

lemma se_left_alphabet: "se_left b \<subseteq> ls_alphabet"
  using sv_letters_alpha by (auto simp: se_left_def ls_alphabet_def)

lemma ls_alphabet_card: "finite ls_alphabet \<and> card ls_alphabet \<le> 52"
proof -
  have "ls_alphabet \<subseteq> (\<lambda>k. char_of (nat (sv_letters ! k))) ` {..<52}"
    by (auto simp: se_left_def ls_alphabet_def)
  moreover have "card ((\<lambda>k. char_of (nat (sv_letters ! k)) :: char) ` {..<52}) \<le> 52"
    using card_image_le [of "{..<52::nat}" "\<lambda>k. char_of (nat (sv_letters ! k)) :: char"] by simp
  ultimately show ?thesis
    by (meson card_mono finite_imageI finite_lessThan finite_subset order_trans)
qed

text \<open>
  The bookkeeping of letters: those received, those left in the buffer and those on their way
  are different from each other.
\<close>

definition ls_fair :: "char list \<Rightarrow> char set \<Rightarrow> (nat \<Rightarrow> char option) \<Rightarrow> bool" where
  "ls_fair got left fl \<longleftrightarrow>
     distinct got \<and> set got \<inter> left = {} \<and> set got \<subseteq> ls_alphabet \<and> left \<subseteq> ls_alphabet \<and>
     (\<forall>i ch. fl i = Some ch \<longrightarrow> ch \<notin> set got \<and> ch \<notin> left \<and> ch \<in> ls_alphabet) \<and>
     (\<forall>i j ch. fl i = Some ch \<longrightarrow> fl j = Some ch \<longrightarrow> i = j)"

lemma ls_fair_drop: "ls_fair got left fl \<Longrightarrow> ls_fair got left (fl(i := None))"
  unfolding ls_fair_def by (auto split: if_splits)

lemma ls_fair_got: "ls_fair got left fl \<Longrightarrow> fl i = Some ch \<Longrightarrow> ls_fair (got @ [ch]) left (fl(i := None))"
  unfolding ls_fair_def by (auto split: if_splits)

lemma ls_fair_hand: "ls_fair got left fl \<Longrightarrow> ch \<in> left \<Longrightarrow> ls_fair got (left - {ch}) (fl(i := Some ch))"
  unfolding ls_fair_def by (auto split: if_splits)

lemma ls_fair_lose: "ls_fair got left fl \<Longrightarrow> ls_fair got (left - A) fl"
  unfolding ls_fair_def by auto

text \<open>What the connection of a client can be at each of its statements.\<close>

fun lc_shape :: "lc_pc \<Rightarrow> lc_conn \<Rightarrow> bool" where
  "lc_shape (LBefore SendOp1) k \<longleftrightarrow> k = Conn []"
| "lc_shape (LBefore RecvBuf) k \<longleftrightarrow> k = Conn [SE_READER] \<or> (\<exists>b. k = Answered (Some (RCopy b)))"
| "lc_shape (LBefore SendOp2) k \<longleftrightarrow> k = Conn []"
| "lc_shape (LBefore SendIdx) k \<longleftrightarrow> k = Conn [SE_WRITER]"
| "lc_shape (LBefore RecvResult) k \<longleftrightarrow>
     (\<exists>x. k = Conn [SE_WRITER, x]) \<or> (\<exists>t n. k = Answered (Some (RText t n)))"
| "lc_shape (LGone b) k \<longleftrightarrow> k = NoConn \<or> (\<exists>w. k = HungUp w)"
| "lc_shape _ k \<longleftrightarrow> k = NoConn"

definition ls_inv :: "lc_sys \<times> se_state \<Rightarrow> bool" where
  "ls_inv cs \<longleftrightarrow>
     sv_buf_ok (se_buf (snd cs)) \<and> (\<forall>i. lc_shape (lc_pc (fst cs) i) (lc_conn (fst cs) i)) \<and>
     ls_fair (lc_letters (fst cs)) (se_left (se_buf (snd cs))) (\<lambda>i. lc_flight (lc_conn (fst cs) i))"

lemma ls_inv_start: "length old = 52 \<Longrightarrow> ls_inv (ls_start old)"
  using se_left_alphabet
  by (simp add: ls_inv_def ls_start_def lc_start_def se_start_def sv_buf_ok_init lc_letters_def ls_fair_def)

lemmas lc_upd = lc_goto_def lc_link_def lc_fail_def lc_sig_handler_def

text \<open>The replies that a connection gets from the server.\<close>

lemma client_service_reader: "\<exists>b. sr_reply (client_service (Some SE_READER) None s) = Some (RCopy b)"
  by (simp add: client_service_def se_reader_def)

lemma client_service_writer: "\<exists>t n. sr_reply (client_service (Some SE_WRITER) (Some x) s) = Some (RText t n)"
  by (auto simp: client_service_def SE_READER_def SE_WRITER_def se_writer_def Let_def split: prod.splits)

text \<open>What the shape says of a client between two calls, of a request, and of an abandoned connection.\<close>

lemma lc_shape_idle:
  assumes "\<forall>i. lc_shape (lc_pc c i) (lc_conn c i)"
  shows "lc_pc c i = LTop \<Longrightarrow> lc_conn c i = NoConn" "lc_pc c i = LGot b \<Longrightarrow> lc_conn c i = NoConn"
    "lc_pc c i = LAnswer t \<Longrightarrow> lc_conn c i = NoConn" "lc_pc c i = LLogging \<Longrightarrow> lc_conn c i = NoConn"
  using assms by (metis lc_shape.simps)+

lemma lc_shape_request:
  assumes "lc_shape p (Conn w)" and "lc_request (Conn w) = Some (op, idx)"
  shows "(p = LBefore RecvBuf \<and> op = Some SE_READER \<and> idx = None) \<or>
    (p = LBefore RecvResult \<and> op = Some SE_WRITER \<and> (\<exists>x. idx = Some x))"
  using assms by (cases "(p, Conn w)" rule: lc_shape.cases) (auto split: if_splits)

lemma lc_shape_hung: "lc_shape p (HungUp w) \<Longrightarrow> \<exists>b. p = LGone b"
  by (cases "(p, HungUp w)" rule: lc_shape.cases) auto

text \<open>A client step other than the receipt of a result drops a letter on its way or leaves all as it is.\<close>

lemma lc_exec_shape:
  assumes "lc_exec sv c e = Some c'" and "\<forall>i. lc_shape (lc_pc c i) (lc_conn c i)" and "\<And>i r. e \<noteq> LReply i r"
  shows "\<forall>i. lc_shape (lc_pc c' i) (lc_conn c' i)"
proof (cases e)
  case (LCall i ok junk)
  obtain q where q: "lc_pc c i = LBefore q" using assms(1) LCall by (auto split: lc_pc.splits)
  have sh: "lc_shape (LBefore q) (lc_conn c i)" using assms(2) q by metis
  show ?thesis
    using assms(1,2) sh LCall q
    by (cases q; cases ok) (auto simp: lc_upd lc_send_def split: lc_conn.splits)
qed (use assms lc_shape_idle [OF assms(2)] in \<open>auto simp: lc_upd Let_def split: lc_pc.splits if_splits\<close>)

lemma lc_exec_letters:
  assumes "lc_exec sv c e = Some c'" and "\<forall>i. lc_shape (lc_pc c i) (lc_conn c i)" and "\<And>i r. e \<noteq> LReply i r"
  shows "(lc_letters c' = lc_letters c \<and>
      ((\<lambda>i. lc_flight (lc_conn c' i)) = (\<lambda>i. lc_flight (lc_conn c i)) \<or>
       (\<exists>k. (\<lambda>i. lc_flight (lc_conn c' i)) = (\<lambda>i. lc_flight (lc_conn c i))(k := None)))) \<or>
    (\<exists>k ch. lc_flight (lc_conn c k) = Some ch \<and> lc_letters c' = lc_letters c @ [ch] \<and>
       (\<lambda>i. lc_flight (lc_conn c' i)) = (\<lambda>i. lc_flight (lc_conn c i))(k := None))"
proof (cases e)
  case (LCall i ok junk)
  obtain q where q: "lc_pc c i = LBefore q" using assms(1) LCall by (auto split: lc_pc.splits)
  have sh: "lc_shape (LBefore q) (lc_conn c i)" using assms(2) q by metis
  show ?thesis
  proof (cases "q = RecvResult \<and> ok")
    case True
    then obtain t n where a: "lc_conn c i = Answered (Some (RText t n))"
      using assms(1) sh LCall q by (auto split: lc_conn.splits)
    show ?thesis
    proof (cases "length t = 1")
      case one: True
      then obtain ch where "t = [ch]" by (auto simp: length_Suc_conv)
      then show ?thesis
        using assms(1) LCall q a True
        by (intro disjI2 exI [of _ i] exI [of _ ch]) (auto simp: lc_upd lc_letters_def)
    next
      case False
      then show ?thesis
        using assms(1) LCall q a True
        by (intro disjI1 conjI disjI2 exI [of _ i]) (auto simp: lc_upd lc_letters_def)
    qed
  next
    case False
    then have g: "lc_got c' = lc_got c"
      and "(\<exists>k. lc_conn c' = (lc_conn c)(i := k) \<and> lc_flight k = None) \<or> lc_conn c' = lc_conn c"
      using assms(1) sh LCall q
      by (cases q; cases ok; auto simp: lc_upd lc_send_def split: lc_conn.splits)+
    then consider "lc_conn c' = lc_conn c" | k where "lc_conn c' = (lc_conn c)(i := k)" "lc_flight k = None"
      by blast
    then show ?thesis
    proof cases
      case 2
      then have "(\<lambda>j. lc_flight (lc_conn c' j)) = (\<lambda>j. lc_flight (lc_conn c j))(i := None)"
        by (simp add: fun_eq_iff)
      with g show ?thesis by (auto simp: lc_letters_def)
    qed (simp add: lc_letters_def g)
  qed
qed (use assms in \<open>auto simp: lc_upd Let_def lc_letters_def split: lc_pc.splits if_splits\<close>)

lemma ls_exec_client_inv:
  assumes "ls_inv (c, s)" and "lc_exec sv c e = Some c'" and "\<And>i r. e \<noteq> LReply i r"
  shows "ls_inv (c', s)"
  using assms(1) lc_exec_shape [OF assms(2) _ assms(3)] lc_exec_letters [OF assms(2) _ assms(3)]
  by (auto simp: ls_inv_def intro: ls_fair_drop ls_fair_got)

lemma ls_exec_serve_inv:
  assumes inv: "ls_inv (c, s)" and e: "ls_exec sv (c, s) (LServe i) = Some t"
  shows "ls_inv t"
proof -
  obtain op idx where q: "lc_request (lc_conn c i) = Some (op, idx)"
    using e by (auto split: option.splits)
  define r where "r = client_service op idx s"
  obtain c' where t: "t = (c', sr_state r)" and c': "lc_exec sv c (LReply i (sr_reply r)) = Some c'"
    using e q by (auto simp: r_def Let_def split: option.splits)
  have sh: "lc_shape (lc_pc c i) (lc_conn c i)" using inv by (simp add: ls_inv_def)
  note eff = client_service_effect [OF _ r_def]
  have ok: "sv_buf_ok (se_buf s)" using inv by (simp add: ls_inv_def)
  have fair: "ls_fair (lc_letters c) (se_left (se_buf s)) (\<lambda>j. lc_flight (lc_conn c j))"
    using inv by (simp add: ls_inv_def)
  have left: "se_left (se_buf (sr_state r)) = se_left (se_buf s) - (case sr_reply r of Some (RText [ch] n) \<Rightarrow> {ch} | _ \<Rightarrow> {})"
    using eff(2) [OF ok] by (auto split: option.splits se_reply.splits list.splits)
  have handed: "ch \<in> se_left (se_buf s)" if "sr_reply r = Some (RText [ch] n)" for ch n
    using eff(2) [OF ok] that by simp
  consider (conn) w where "lc_conn c i = Conn w" "c' = lc_link i (Answered (sr_reply r)) c"
    | (hung) w where "lc_conn c i = HungUp w" "c' = lc_link i NoConn c"
    using c' by (auto split: lc_conn.splits if_splits)
  then show ?thesis
  proof cases
    case conn
    note req = lc_shape_request [OF sh [unfolded conn(1)] q [unfolded conn(1)]]
    have shape: "\<forall>j. lc_shape (lc_pc c' j) (lc_conn c' j)"
      using inv req client_service_reader [of s] client_service_writer [of _ s]
      by (auto simp: conn ls_inv_def lc_link_def r_def)
    have "ls_fair (lc_letters c) (se_left (se_buf (sr_state r)))
        ((\<lambda>j. lc_flight (lc_conn c j))(i := lc_flight (Answered (sr_reply r))))"
    proof (cases "lc_flight (Answered (sr_reply r))")
      case None
      then show ?thesis using ls_fair_lose [OF ls_fair_drop [OF fair]] by (simp only: None left)
    next
      case (Some ch)
      then obtain n where "sr_reply r = Some (RText [ch] n)"
        by (cases "Answered (sr_reply r)" rule: lc_flight.cases) auto
      then show ?thesis using ls_fair_hand [OF fair handed] left by simp
    qed
    then show ?thesis
      using eff(1) [OF ok] shape
      by (simp add: ls_inv_def t conn lc_link_def lc_letters_def fun_upd_def if_distrib [of lc_flight] cong: if_cong)
  next
    case hung
    have "(\<lambda>j. lc_flight (lc_conn c' j)) = (\<lambda>j. lc_flight (lc_conn c j))(i := None)"
      by (auto simp: hung lc_link_def)
    moreover have "lc_letters c' = lc_letters c" by (simp add: hung lc_link_def lc_letters_def)
    moreover have "lc_shape (lc_pc c' j) (lc_conn c' j)" for j
      using inv lc_shape_hung [OF sh [unfolded hung(1)]]
      by (auto simp: hung(2) lc_link_def ls_inv_def)
    ultimately show ?thesis
      using eff(1) [OF ok] ls_fair_lose [OF ls_fair_drop [OF fair]] by (simp add: ls_inv_def t left)
  qed
qed

lemma ls_inv_exec:
  assumes "ls_inv cs" and "ls_exec sv cs e = Some t"
  shows "ls_inv t"
proof (cases e)
  case (LClient f)
  obtain c s where cs: "cs = (c, s)" by (cases cs)
  from assms(2) obtain c' where c': "lc_exec sv c f = Some c'" "t = (c', s)" "\<And>i r. f \<noteq> LReply i r"
    by (auto simp: LClient cs split: lc_event.splits option.splits)
  from ls_exec_client_inv [OF assms(1) [unfolded cs] c'(1,3)] c'(2) show ?thesis by simp
next
  case (LServe i)
  with assms ls_exec_serve_inv show ?thesis by (cases cs) auto
qed

lemma ls_inv_system: "length old = 52 \<Longrightarrow> invariant_system (ls_exec sv) (ls_start old) ls_inv"
  by unfold_locales (auto intro: ls_inv_start ls_inv_exec)

lemmas ls_reach_inv = invariant_system.reach_inv [OF ls_inv_system]


subsection \<open>The log\<close>

text \<open>
  The answers with a letter that a client has received, and whether the last of them may still
  be logged. A line is owed for each letter. Among processes every letter is also logged: the
  index that the test reads is the one the answer belongs to. The threads' test may read another's.
\<close>

definition lc_won :: "nat \<Rightarrow> lc_sys \<Rightarrow> nat" where
  "lc_won i c = length (filter (\<lambda>(j, t). j = i \<and> length t = 1) (lc_got c))"

fun lc_pending :: "lc_pc \<Rightarrow> nat" where
  "lc_pending (LAnswer t) = (if length t = 1 then 1 else 0)"
| "lc_pending LLogging = 1"
| "lc_pending _ = 0"

definition lc_log_ok :: "lc_sys \<Rightarrow> nat \<Rightarrow> bool" where
  "lc_log_ok c i \<longleftrightarrow>
     count_list (lc_lines c) i + count_list (lc_bad_lines c) i + lc_pending (lc_pc c i) \<le> lc_won i c"

definition lc_closed_ok :: "sv_server \<Rightarrow> lc_sys \<Rightarrow> nat \<Rightarrow> bool" where
  "lc_closed_ok sv c i \<longleftrightarrow> (lc_log_open c (lc_slot sv i) \<longrightarrow> count_list (lc_bad_lines c) i = 0)"

definition lc_own_ok :: "lc_sys \<Rightarrow> nat \<Rightarrow> bool" where
  "lc_own_ok c i \<longleftrightarrow>
     count_list (lc_lines c) i + count_list (lc_bad_lines c) i + lc_pending (lc_pc c i) = lc_won i c \<and>
     (\<forall>t. lc_pc c i = LAnswer t \<longrightarrow> length t = 1 \<longrightarrow> 0 \<le> lc_index c i) \<and>
     (\<forall>x. lc_conn c i = Conn [SE_WRITER, x] \<longrightarrow> x = lc_index c i) \<and>
     (lc_flight (lc_conn c i) \<noteq> None \<longrightarrow> 0 \<le> lc_index c i)"

lemma lc_won_simps [simp]:
  "lc_won i (c\<lparr>lc_pc := p\<rparr>) = lc_won i c" "lc_won i (c\<lparr>lc_conn := q\<rparr>) = lc_won i c"
  "lc_won i (c\<lparr>lc_index := x\<rparr>) = lc_won i c" "lc_won i (c\<lparr>lc_found := x\<rparr>) = lc_won i c"
  "lc_won i (c\<lparr>lc_lines := l\<rparr>) = lc_won i c" "lc_won i (c\<lparr>lc_bad_lines := l\<rparr>) = lc_won i c"
  "lc_won i (c\<lparr>lc_log_open := b\<rparr>) = lc_won i c" "lc_won i (c\<lparr>lc_flag := b\<rparr>) = lc_won i c"
  "lc_won i (c\<lparr>lc_bad_closes := n\<rparr>) = lc_won i c" "lc_won i (c\<lparr>lc_leaked := g\<rparr>) = lc_won i c"
  "lc_won i (c\<lparr>lc_got := lc_got c @ [(j, t)]\<rparr>) = lc_won i c + (if j = i \<and> length t = 1 then 1 else 0)"
  by (simp_all add: lc_won_def)

text \<open>A step leaves all clients but one as they are.\<close>

lemma lc_log_ok_step:
  assumes "lc_exec sv c e = Some c'" and "lc_log_ok c j"
  shows "lc_log_ok c' j"
proof (cases e)
  case (LCall i ok junk)
  obtain q where q: "lc_pc c i = LBefore q" using assms(1) LCall by (auto split: lc_pc.splits)
  show ?thesis
    using assms LCall q
    by (cases q; cases ok) (auto simp: lc_upd lc_send_def lc_log_ok_def split: lc_conn.splits if_splits)
qed (use assms in \<open>auto simp: lc_upd Let_def lc_log_ok_def split: lc_pc.splits lc_conn.splits if_splits\<close>)

lemma lc_closed_ok_step:
  assumes "lc_exec sv c e = Some c'" and "lc_closed_ok sv c j"
  shows "lc_closed_ok sv c' j"
proof (cases e)
  case (LCall i ok junk)
  obtain q where q: "lc_pc c i = LBefore q" using assms(1) LCall by (auto split: lc_pc.splits)
  show ?thesis
    using assms LCall q
    by (cases q; cases ok) (auto simp: lc_upd lc_send_def lc_closed_ok_def split: lc_conn.splits if_splits)
next
  case (LLog i)
  then show ?thesis
    using assms by (auto simp: lc_upd lc_closed_ok_def split: if_splits)
qed (use assms in \<open>auto simp: lc_upd Let_def lc_closed_ok_def split: lc_pc.splits lc_conn.splits if_splits\<close>)

lemma lc_own_ok_step:
  assumes "lc_exec ForkServer c e = Some c'" and "lc_own_ok c j" and "\<forall>i. lc_shape (lc_pc c i) (lc_conn c i)"
    and "\<And>i r. e \<noteq> LReply i r"
  shows "lc_own_ok c' j"
proof (cases e)
  case (LCall i ok junk)
  obtain q where q: "lc_pc c i = LBefore q" using assms(1) LCall by (auto split: lc_pc.splits)
  have sh: "lc_shape (LBefore q) (lc_conn c i)" using assms(3) q by metis
  show ?thesis
  proof (cases "q = RecvResult \<and> ok")
    case True
    then obtain t n where a: "lc_conn c i = Answered (Some (RText t n))"
      using assms(1) sh LCall q by (auto split: lc_conn.splits)
    have "0 \<le> lc_index c i" if "length t = 1" "j = i"
      using that assms(2) a by (auto simp: lc_own_ok_def length_Suc_conv)
    then show ?thesis
      using assms(1,2) LCall q a True
      by (auto simp: lc_upd lc_own_ok_def lc_slot_def simp del: lc_flight.simps(1) split: if_splits)
  next
    case False
    then show ?thesis
      using assms(1,2) sh LCall q
      by (cases q; cases ok) (auto simp: lc_upd lc_send_def lc_own_ok_def lc_slot_def split: lc_conn.splits if_splits)
  qed
qed (use assms lc_shape_idle [OF assms(3)] in
    \<open>auto simp: lc_upd Let_def lc_own_ok_def lc_slot_def split: lc_pc.splits if_splits\<close>)

text \<open>The server's answer with a letter comes only on an index that is not negative.\<close>

lemma client_service_letter:
  "sr_reply (client_service op (Some x) s) = Some (RText [ch] n) \<Longrightarrow> 0 \<le> x"
  by (auto simp: client_service_def se_writer_def se_reader_def sv_writer_take_def sv_bad_index_def Let_def
      split: option.splits if_splits)

lemma ls_exec_client: "ls_exec sv (c, s) e = Some (c', s') \<Longrightarrow> \<exists>f. lc_exec sv c f = Some c'"
  by (cases e) (auto simp: Let_def simp del: lc_exec.simps split: lc_event.splits option.splits prod.splits)

lemma ls_own_ok_serve:
  assumes "ls_exec ForkServer (c, s) (LServe i) = Some (c', s')" and "lc_own_ok c j"
    and "\<forall>i. lc_shape (lc_pc c i) (lc_conn c i)"
  shows "lc_own_ok c' j"
proof (cases "\<exists>w. lc_conn c i = Conn w")
  case True
  then obtain w where w: "lc_conn c i = Conn w" ..
  obtain op idx where q: "lc_request (Conn w) = Some (op, idx)"
    and c': "c' = lc_link i (Answered (sr_reply (client_service op idx s))) c"
    using assms(1) w by (auto simp: Let_def split: option.splits)
  have sh: "lc_shape (lc_pc c i) (Conn w)" using assms(3) w by metis
  have "0 \<le> lc_index c i" if f: "lc_flight (Answered (sr_reply (client_service op idx s))) \<noteq> None" and "j = i"
  proof -
    obtain ch n where r: "sr_reply (client_service op idx s) = Some (RText [ch] n)"
      using f by (cases "Answered (sr_reply (client_service op idx s))" rule: lc_flight.cases) auto
    from lc_shape_request [OF sh q] r client_service_reader [of s]
    obtain x where "lc_pc c i = LBefore RecvResult" "idx = Some x" "op = Some SE_WRITER" by auto
    moreover from this sh q have "w = [SE_WRITER, x]" by auto
    ultimately show ?thesis
      using assms(2) r client_service_letter that(2) w by (auto simp: lc_own_ok_def)
  qed
  with assms(2) show ?thesis by (auto simp: c' lc_link_def lc_own_ok_def)
next
  case False
  then show ?thesis
    using assms(1,2) by (auto simp: Let_def lc_link_def lc_own_ok_def split: option.splits lc_conn.splits if_splits)
qed

lemma ls_log_reach:
  assumes "reach (ls_exec sv) (ls_start old) (c, s)"
  shows "lc_log_ok c i \<and> lc_closed_ok sv c i"
proof -
  have "lc_log_ok (fst cs) i \<and> lc_closed_ok sv (fst cs) i" if "reach (ls_exec sv) (ls_start old) cs" for cs
    using that
  proof (induction rule: reach.induct)
    case reach_init
    show ?case by (simp add: ls_start_def lc_start_def lc_log_ok_def lc_closed_ok_def)
  next
    case (reach_step cs e t)
    obtain c s c' s' where cs: "cs = (c, s)" "t = (c', s')" by (cases cs; cases t)
    obtain f where "lc_exec sv c f = Some c'" using ls_exec_client reach_step.hyps(2) cs by blast
    then show ?case using reach_step.IH lc_log_ok_step lc_closed_ok_step by (simp add: cs)
  qed
  from this [OF assms] show ?thesis by simp
qed

lemma ls_own_reach:
  assumes "length old = 52" and "reach (ls_exec ForkServer) (ls_start old) cs"
  shows "lc_own_ok (fst cs) i"
  using assms(2)
proof (induction rule: reach.induct)
  case reach_init
  show ?case by (simp add: ls_start_def lc_start_def lc_own_ok_def lc_won_def)
next
  case (reach_step cs e t)
  obtain c s c' s' where cs: "cs = (c, s)" "t = (c', s')" by (cases cs; cases t)
  have sh: "\<forall>i. lc_shape (lc_pc c i) (lc_conn c i)"
    using ls_reach_inv [OF assms(1) reach_step.hyps(1)] by (simp add: ls_inv_def cs)
  have own: "lc_own_ok c i" using reach_step.IH by (simp add: cs)
  show ?case
  proof (cases e)
    case (LClient f)
    then have "lc_exec ForkServer c f = Some c'" "\<And>k r. f \<noteq> LReply k r"
      using reach_step.hyps(2) by (auto simp: cs simp del: lc_exec.simps split: lc_event.splits option.splits)
    from lc_own_ok_step [OF this(1) own sh this(2)] show ?thesis by (simp add: cs)
  next
    case (LServe k)
    from ls_own_ok_serve [OF reach_step.hyps(2) [unfolded cs LServe] own sh] show ?thesis by (simp add: cs)
  qed
qed

end
