(* ===== verification/Letter_Rounds.thy ===== *)
theory Letter_Rounds
  imports Letter_Clients
begin

section \<open>Rounds, programs and properties of the letter clients\<close>

text \<open>
  Runs of the clients of Letter_Clients put together from the two halves of a round, the
  \<^verbatim>\<open>main\<close> functions of lab-socket/task-04, task-05, task-06/client.c and of task-06/server.c, and
  the properties of all of them.
\<close>

subsection \<open>The two halves of a round\<close>

text \<open>
  From the loop test to the index stored, and from there to the answer. The lemmas give the
  whole state, so that runs of several clients can be put together from them.
\<close>

definition ls_read :: "nat \<Rightarrow> ls_event list" where
  "ls_read i = [LClient (LTest i), LClient (LCall i True []), LClient (LCall i True []), LClient (LCall i True []),
     LServe i, LClient (LCall i True []), LClient (LStore i)]"

definition ls_write :: "nat \<Rightarrow> ls_event list" where
  "ls_write i = replicate 4 (LClient (LCall i True [])) @ [LServe i, LClient (LCall i True [])]"

definition lc_after_read :: "sv_server \<Rightarrow> nat \<Rightarrow> int \<Rightarrow> lc_sys \<Rightarrow> lc_sys" where
  "lc_after_read sv i x c = c\<lparr>lc_pc := (lc_pc c)(i := LBefore Socket2), lc_conn := (lc_conn c)(i := NoConn),
     lc_index := (lc_index c)(lc_slot sv i := x), lc_found := (lc_found c)(i := x)\<rparr>"

definition lc_after_write :: "sv_server \<Rightarrow> nat \<Rightarrow> string \<Rightarrow> lc_sys \<Rightarrow> lc_sys" where
  "lc_after_write sv i t c = c\<lparr>lc_pc := (lc_pc c)(i := LAnswer t), lc_conn := (lc_conn c)(i := NoConn),
     lc_got := lc_got c @ [(i, t)],
     lc_leaked := (lc_leaked c)(i := lc_leaked c i + (if sv = ForkServer then 1 else 0))\<rparr>"

definition ls_first :: "se_state \<Rightarrow> int" where
  "ls_first s = to_schar (find_first_unoccupied_index (take SHM_BUFFER_SIZE (sv_reader_copy (se_buf s)) @ [0]))"

lemma service_read:
  "client_service (Some SE_READER) None s =
     \<lparr>sr_state = s, sr_reply = Some (RCopy (take SHM_BUFFER_SIZE (sv_reader_copy (se_buf s)))), sr_closes = 1\<rparr>"
  by (simp add: client_service_def se_reader_def)

lemma se_op_ne: "SE_READER \<noteq> SE_WRITER"
  by (simp add: SE_READER_def SE_WRITER_def)

lemma ls_read_run:
  assumes "lc_pc c i = LTop" and "lc_flag c (lc_slot sv i)"
  shows "run (ls_exec sv) (c, s) (ls_read i) = Some (lc_after_read sv i (ls_first s) c, s)"
  using assms
  by (simp add: ls_read_def lc_goto_def lc_link_def lc_send_def service_read lc_after_read_def ls_first_def
      Let_def se_op_ne)

lemma ls_write_run:
  assumes "lc_pc c i = LBefore Socket2"
    and "client_service (Some SE_WRITER) (Some (lc_index c (lc_slot sv i))) s = r" and "sr_reply r = Some (RText t n)"
  shows "run (ls_exec sv) (c, s) (ls_write i) = Some (lc_after_write sv i t c, sr_state r)"
  using assms
  by (simp add: ls_write_def lc_goto_def lc_link_def lc_send_def lc_after_write_def Let_def numeral_eq_Suc)

text \<open>The server after the first n letters are gone; a client then finds n, or nothing after the last.\<close>

definition se_after :: "nat \<Rightarrow> se_state" where
  "se_after n = \<lparr>se_buf = sv_taken n, se_flag = True, se_listening = True\<rparr>"

lemma se_start_after: "length old = 52 \<Longrightarrow> se_start old = se_after 0"
  by (simp add: se_start_def se_after_def sv_taken_def sv_init_eq)

lemma ls_first_copy: "n \<le> 52 \<Longrightarrow> take SHM_BUFFER_SIZE (sv_reader_copy (sv_taken n)) @ [0] = sv_reader_copy (sv_taken n)"
  using sv_taken_ok [of n] by (simp add: sv_reader_copy_eq SHM_BUFFER_SIZE_def sv_buf_ok_def)

lemma ls_first_after: "n < 52 \<Longrightarrow> ls_first (se_after n) = int n"
  by (simp add: ls_first_def se_after_def ls_first_copy sv_taken_find to_schar_id)

lemma ls_first_empty: "ls_first (se_after 52) = - 1"
  by (simp add: ls_first_def se_after_def ls_first_copy sv_taken_find_none to_schar_id)

lemma service_write_after:
  "n < 52 \<Longrightarrow> client_service (Some SE_WRITER) (Some (int n)) (se_after n) =
     \<lparr>sr_state = se_after (Suc n), sr_reply = Some (RText [char_of (nat (sv_letters ! n))] STR_BUFFER_SIZE), sr_closes = 1\<rparr>"
  by (simp add: client_service_def se_op_ne [symmetric] se_writer_def se_after_def sv_taken_take)

lemma ls_write_after:
  assumes "n < 52" and "lc_pc c i = LBefore Socket2" and "lc_index c (lc_slot sv i) = int n"
  shows "run (ls_exec sv) (c, se_after n) (ls_write i) =
    Some (lc_after_write sv i [char_of (nat (sv_letters ! n))] c, se_after (Suc n))"
  using ls_write_run [of c i sv "se_after n" _ _ STR_BUFFER_SIZE] assms(2,3) service_write_after [OF assms(1)] by simp

lemmas lc_after_simps = lc_after_read_def lc_after_write_def

text \<open>A client that no other disturbs, n times in a row: n letters and n lines.\<close>

definition ls_round :: "nat \<Rightarrow> ls_event list" where
  "ls_round i = ls_read i @ ls_write i @ [LClient (LDecide i), LClient (LLog i)]"

definition lc_steady :: "nat \<Rightarrow> lc_sys \<Rightarrow> bool" where
  "lc_steady n c \<longleftrightarrow> (\<forall>i. lc_pc c i = LTop) \<and> (\<forall>k. lc_flag c k \<and> lc_log_open c k) \<and>
     lc_lines c = replicate n 0 \<and> length (lc_letters c) = n"

lemma lc_letters_snoc [simp]:
  "lc_letters (c\<lparr>lc_pc := p, lc_conn := q, lc_got := lc_got c @ [(i, [ch])], lc_leaked := l\<rparr>) = lc_letters c @ [ch]"
  by (simp add: lc_letters_def)

lemma lc_round_alone_run:
  assumes "n < 52" and "lc_pc c i = LTop" and "lc_flag c (lc_slot sv i)" and "lc_log_open c (lc_slot sv i)"
  shows "\<exists>c'. run (ls_exec sv) (c, se_after n) (ls_round i) = Some (c', se_after (Suc n)) \<and>
    lc_pc c' = (lc_pc c)(i := LTop) \<and> lc_flag c' = lc_flag c \<and> lc_log_open c' = lc_log_open c \<and>
    lc_lines c' = lc_lines c @ [i] \<and> lc_bad_lines c' = lc_bad_lines c \<and>
    lc_got c' = lc_got c @ [(i, [char_of (nat (sv_letters ! n))])] \<and>
    lc_index c' = (lc_index c)(lc_slot sv i := int n) \<and> lc_found c' = (lc_found c)(i := int n) \<and>
    lc_leaked c' i = lc_leaked c i + (if sv = ForkServer then 1 else 0)"
proof -
  let ?a = "lc_after_read sv i (int n) c"
  let ?b = "lc_after_write sv i [char_of (nat (sv_letters ! n))] ?a"
  have 1: "run (ls_exec sv) (c, se_after n) (ls_read i) = Some (?a, se_after n)"
    using ls_read_run [OF assms(2,3)] ls_first_after [OF assms(1)] by simp
  have 2: "run (ls_exec sv) (?a, se_after n) (ls_write i) = Some (?b, se_after (Suc n))"
    by (rule ls_write_after [OF assms(1)]) (simp_all add: lc_after_read_def)
  let ?c = "lc_goto i LTop (lc_goto i LLogging ?b\<lparr>lc_lines := lc_lines ?b @ [i]\<rparr>)"
  have 3: "run (ls_exec sv) (?b, se_after (Suc n)) [LClient (LDecide i), LClient (LLog i)] = Some (?c, se_after (Suc n))"
    using assms(4) by (simp add: lc_after_simps lc_goto_def)
  from run_chain [OF 1 run_chain [OF 2 3]] show ?thesis
    by (intro exI [of _ ?c]) (simp add: ls_round_def lc_after_simps lc_goto_def)
qed

lemma ls_rounds_alone:
  assumes "length old = 52" and "n \<le> 52"
  shows "\<exists>c. reach (ls_exec sv) (ls_start old) (c, se_after n) \<and> lc_steady n c"
  using assms(2)
proof (induction n)
  case 0
  have "lc_steady 0 lc_start" by (simp add: lc_steady_def lc_start_def lc_letters_def)
  then show ?case
    using reach_init [of "ls_exec sv" "ls_start old"] assms(1) by (auto simp: ls_start_def se_start_after)
next
  case (Suc n)
  then obtain c where c: "reach (ls_exec sv) (ls_start old) (c, se_after n)" "lc_steady n c" by auto
  have "lc_pc c 0 = LTop" "lc_flag c (lc_slot sv 0)" "lc_log_open c (lc_slot sv 0)"
    using c(2) by (simp_all add: lc_steady_def)
  with lc_round_alone_run [of n c 0 sv] Suc.prems obtain c' where
    r: "run (ls_exec sv) (c, se_after n) (ls_round 0) = Some (c', se_after (Suc n))" and
    c': "lc_pc c' = (lc_pc c)(0 := LTop)" "lc_flag c' = lc_flag c" "lc_log_open c' = lc_log_open c"
      "lc_lines c' = lc_lines c @ [0]" "lc_got c' = lc_got c @ [(0, [char_of (nat (sv_letters ! n))])]"
    by auto
  have "lc_steady (Suc n) c'"
    using c(2) by (auto simp: lc_steady_def c' lc_letters_def replicate_append_same)
  with run_reach [OF c(1) r] show ?case by blast
qed


subsection \<open>One turn of the loop of a client\<close>

text \<open>
  The statements of the turn on given answers: \<open>a1\<close> to the first request and \<open>a2\<close> to the second (\<^term>\<open>None\<close>: the
  server closes without one, and \<open>junk\<close> is what lies in the buffer of the result). The turn ends at the first call
  that fails.
\<close>

fun lc_calls ::
  "(cl_call \<Rightarrow> bool) \<Rightarrow> nat \<Rightarrow> string \<Rightarrow> se_reply option \<Rightarrow> se_reply option \<Rightarrow> cl_call list \<Rightarrow> lc_event list" where
  "lc_calls ok i junk a1 a2 [] = []"
| "lc_calls ok i junk a1 a2 (c # cs) =
     (if c = RecvBuf then [LReply i a1] else if c = RecvResult then [LReply i a2] else []) @
     LCall i (ok c) junk #
     (if ok c then (if c = RecvBuf then [LStore i] else []) @ lc_calls ok i junk a1 a2 cs else [])"

definition lc_turn ::
  "(cl_call \<Rightarrow> bool) \<Rightarrow> nat \<Rightarrow> string \<Rightarrow> se_reply option \<Rightarrow> se_reply option \<Rightarrow> cl_result \<Rightarrow> lc_event list" where
  "lc_turn ok i junk a1 a2 R = LTest i # lc_calls ok i junk a1 a2 cl_calls @
     (if cl_failed R = None then LDecide i # (if cl_logged R then [LLog i] else []) else [])"

lemma cl_calls_all: "find (\<lambda>x. \<not> ok x) cl_calls = None \<longleftrightarrow> (\<forall>q. ok q)"
proof -
  have "q \<in> set cl_calls" for q by (cases q) (simp_all add: cl_calls_def)
  then show ?thesis by (auto simp: find_None_iff)
qed

lemma lc_turn_fails:
  assumes "lc_pc c i = LTop" and "lc_flag c (lc_slot sv i)" and "find (\<lambda>x. \<not> ok x) cl_calls = Some q"
    and "R = cl_round sv ok (lc_copy a1) (lc_text junk a2)"
  shows "\<exists>c'. run (lc_exec sv) c (lc_turn ok i junk a1 a2 R) = Some c' \<and> lc_pc c' = (lc_pc c)(i := LGone False) \<and>
     lc_lines c' = lc_lines c \<and> lc_bad_lines c' = lc_bad_lines c \<and> lc_leaked c' = lc_leaked c \<and>
     lc_log_open c' = lc_log_open c \<and> lc_flag c' = lc_flag c \<and> lc_got c' = lc_got c"
proof -
  have R: "R = \<lparr>cl_failed = Some q, cl_index = None, cl_logged = False, cl_open = 0\<rparr>"
    by (simp add: assms(3,4) cl_round_def)
  consider "\<not> ok Socket1" | "ok Socket1" "\<not> ok Connect1" | "ok Socket1" "ok Connect1" "\<not> ok SendOp1"
    | "ok Socket1" "ok Connect1" "ok SendOp1" "\<not> ok RecvBuf"
    | "ok Socket1" "ok Connect1" "ok SendOp1" "ok RecvBuf" "\<not> ok Socket2"
    | "ok Socket1" "ok Connect1" "ok SendOp1" "ok RecvBuf" "ok Socket2" "\<not> ok Connect2"
    | "ok Socket1" "ok Connect1" "ok SendOp1" "ok RecvBuf" "ok Socket2" "ok Connect2" "\<not> ok SendOp2"
    | "ok Socket1" "ok Connect1" "ok SendOp1" "ok RecvBuf" "ok Socket2" "ok Connect2" "ok SendOp2" "\<not> ok SendIdx"
    | "ok Socket1" "ok Connect1" "ok SendOp1" "ok RecvBuf" "ok Socket2" "ok Connect2" "ok SendOp2" "ok SendIdx"
      "\<not> ok RecvResult"
    using assms(3) by (auto simp: find_Some_iff cl_calls_def split: if_splits)
  then show ?thesis
    using assms(1,2)
    by cases (simp_all add: lc_turn_def cl_calls_def R lc_goto_def lc_link_def lc_send_def lc_fail_def Let_def se_op_ne)
qed

lemma lc_turn_succeeds:
  assumes "lc_pc c i = LTop" and "lc_flag c (lc_slot sv i)" and "find (\<lambda>x. \<not> ok x) cl_calls = None"
    and "R = cl_round sv ok (lc_copy a1) (lc_text junk a2)"
  shows "\<exists>c' x. run (lc_exec sv) c (lc_turn ok i junk a1 a2 R) = Some c' \<and> lc_pc c' = (lc_pc c)(i := LTop) \<and>
     cl_index R = Some x \<and> lc_index c' (lc_slot sv i) = x \<and>
     lc_lines c' = lc_lines c @ (if cl_logged R \<and> lc_log_open c (lc_slot sv i) then [i] else []) \<and>
     lc_bad_lines c' = lc_bad_lines c @ (if cl_logged R \<and> \<not> lc_log_open c (lc_slot sv i) then [i] else []) \<and>
     lc_leaked c' = (lc_leaked c)(i := lc_leaked c i + cl_open R) \<and>
     lc_log_open c' = lc_log_open c \<and> lc_flag c' = lc_flag c \<and> lc_got c' = lc_got c @ [(i, lc_text junk a2)]"
proof -
  have ok: "ok q" for q using assms(3) by (simp add: cl_calls_all)
  define x where "x = to_schar (find_first_unoccupied_index (lc_copy a1))"
  have R: "R = \<lparr>cl_failed = None, cl_index = Some x, cl_logged = (0 \<le> x \<and> length (lc_text junk a2) = 1),
      cl_open = (if sv = ForkServer then 1 else 0)\<rparr>"
    by (simp add: assms(3,4) cl_round_def x_def Let_def)
  show ?thesis
    using assms(1,2)
    by (cases "0 \<le> x \<and> length (lc_text junk a2) = 1"; cases "lc_log_open c (lc_slot sv i)")
      (auto simp: lc_turn_def cl_calls_def ok R lc_goto_def lc_link_def lc_send_def Let_def se_op_ne x_def [symmetric])
qed


subsection \<open>The programs\<close>

text \<open>
  \<^verbatim>\<open>main\<close> of task-04/client.c: the log, ten children, and a wait for each, whose outcome is not looked at.
  A failed \<^verbatim>\<open>fork\<close> ends the parent and leaves the children that exist running.
\<close>

definition LC_CHILD_COUNT :: nat where "LC_CHILD_COUNT = 10"
definition LC_THREAD_COUNT :: nat where "LC_THREAD_COUNT = 10"
definition LC_SELECT_THREADS :: nat where "LC_SELECT_THREADS = 5"

definition fork_client_main :: "bool \<Rightarrow> bool list \<Rightarrow> main_result" where
  "fork_client_main opened fs =
     (if \<not> opened then \<lparr>exit_status = 1, children = 0, left_behind = [], reports = []\<rparr>
      else let (k, ok) = fork_loop LC_CHILD_COUNT fs in
        \<lparr>exit_status = (if ok then 0 else 1), children = k, left_behind = [], reports = []\<rparr>)"

text \<open>
  \<^verbatim>\<open>main\<close> of task-05 and task-06/client.c: detached threads, then \<^verbatim>\<open>while (loop_flag);\<close>, which only
  SIGINT ends (\<^term>\<open>None\<close>: it has not come). \<^verbatim>\<open>exit\<close> ends the threads wherever they are.
\<close>

definition thread_client_main :: "nat \<Rightarrow> bool \<Rightarrow> bool list \<Rightarrow> bool \<Rightarrow> main_result option" where
  "thread_client_main n opened cs sigint =
     (if \<not> opened then Some \<lparr>exit_status = 1, children = 0, left_behind = [], reports = []\<rparr>
      else let (k, ok) = fork_loop n cs in
        if \<not> ok then Some \<lparr>exit_status = 1, children = k, left_behind = [], reports = []\<rparr>
        else if sigint then Some \<lparr>exit_status = 0, children = k, left_behind = [], reports = []\<rparr>
        else None)"

text \<open>
  \<^verbatim>\<open>main\<close> of task-06/server.c: its calls in their order, each of which ends it when it fails
  (\<^verbatim>\<open>setsockopt\<close> is not checked), the loop over the answers of \<^verbatim>\<open>select\<close>, and the clean-up after it.
\<close>

datatype se_call = EFtok | EShmget | EShmat | ESocket | EBind | EListen

definition se_setup :: "se_call list" where
  "se_setup = [EFtok, EShmget, EShmat, ESocket, EBind, EListen]"

fun se_objects_at :: "se_call \<Rightarrow> ipc_object list" where
  "se_objects_at EFtok = []"
| "se_objects_at EShmget = []"
| "se_objects_at _ = [SharedMemory]"

fun se_run :: "nat \<Rightarrow> se_turn list \<Rightarrow> se_loop \<Rightarrow> se_loop option" where
  "se_run listen [] l = (if se_flag (lp_state l) then None else Some l)"
| "se_run listen (t # ts) l =
     (if \<not> se_flag (lp_state l) then Some l
      else if \<not> st_select t then Some l
      else se_run listen ts (se_pass listen (st_accept t) (st_net t) 0 l))"

definition se_main :: "(se_call \<Rightarrow> bool) \<Rightarrow> nat \<Rightarrow> int list \<Rightarrow> se_turn list \<Rightarrow> main_result option" where
  "se_main ok listen old ts =
     (case find (\<lambda>c. \<not> ok c) se_setup of
        Some c \<Rightarrow> Some \<lparr>exit_status = 1, children = 0, left_behind = se_objects_at c, reports = []\<rparr>
      | None \<Rightarrow>
          (case se_run listen ts (se_loop_start listen old) of
             None \<Rightarrow> None
           | Some l \<Rightarrow> Some \<lparr>exit_status = 0, children = 0, left_behind = [], reports = []\<rparr>))"

text \<open>The loop that ends has left its flag down or met a failed \<^verbatim>\<open>select\<close>.\<close>

lemma se_run_main_loop:
  "se_run listen ts l = Some l' \<Longrightarrow> l' = se_main_loop listen ts l \<and>
     (se_flag (lp_state l') \<longrightarrow> (\<exists>t \<in> set ts. \<not> st_select t))"
  by (induction ts arbitrary: l) (auto split: if_splits)


lemma char_97: "char_of (97 :: nat) = CHR ''a''"
  by code_simp


subsection \<open>Properties\<close>

text \<open>C19: no letter is received twice. However many clients run, in whatever order they and the server take
  their steps, whichever of their calls fail, and whether they are processes or threads with shared variables:
  the letters received are different, at most 52, and none of them is left in the buffer.\<close>

theorem ls_letters_unique:
  assumes "length old = 52" and "reach (ls_exec sv) (ls_start old) (c, s)"
  shows "distinct (lc_letters c) \<and> length (lc_letters c) \<le> 52 \<and> set (lc_letters c) \<inter> se_left (se_buf s) = {}"
proof -
  have "ls_inv (c, s)" by (rule ls_reach_inv [OF assms])
  then have f: "distinct (lc_letters c)" "set (lc_letters c) \<subseteq> ls_alphabet"
    "set (lc_letters c) \<inter> se_left (se_buf s) = {}"
    by (simp_all add: ls_inv_def ls_fair_def)
  have "length (lc_letters c) = card (set (lc_letters c))" using f(1) by (simp add: distinct_card)
  also have "\<dots> \<le> 52" using card_mono [of ls_alphabet, OF _ f(2)] ls_alphabet_card by auto
  finally show ?thesis using f by simp
qed

theorem ls_letters_unique_witness:
  "\<exists>c. reach (ls_exec ThreadServer) (ls_start (replicate 52 0)) (c, se_after 52) \<and>
     distinct (lc_letters c) \<and> length (lc_letters c) = 52"
proof -
  obtain c where c: "reach (ls_exec ThreadServer) (ls_start (replicate 52 0)) (c, se_after 52)" "lc_steady 52 c"
    using ls_rounds_alone [of "replicate 52 0" 52 ThreadServer] by auto
  from ls_letters_unique [OF _ c(1)] c show ?thesis by (auto simp: lc_steady_def)
qed

text \<open>C33: a client never writes more lines to the log than it has received letters, and a line goes to the
  closed file only after SIGINT. The processes of task-04, which each have their own index, write exactly
  one line for each letter.\<close>

theorem ls_log_lines:
  assumes "length old = 52" and "reach (ls_exec sv) (ls_start old) (c, s)"
  shows "count_list (lc_lines c) i + count_list (lc_bad_lines c) i \<le> lc_won i c \<and>
    (lc_log_open c (lc_slot sv i) \<longrightarrow> count_list (lc_bad_lines c) i = 0) \<and>
    (sv = ForkServer \<longrightarrow> lc_pc c i = LTop \<longrightarrow>
      count_list (lc_lines c) i + count_list (lc_bad_lines c) i = lc_won i c)"
proof -
  have "lc_log_ok c i \<and> lc_closed_ok sv c i" by (rule ls_log_reach [OF assms(2)])
  moreover have "sv = ForkServer \<Longrightarrow> lc_own_ok c i" using ls_own_reach [OF assms(1)] assms(2) by fastforce
  ultimately show ?thesis by (auto simp: lc_log_ok_def lc_closed_ok_def lc_own_ok_def)
qed

theorem ls_log_lines_witness:
  "\<exists>c. reach (ls_exec ForkServer) (ls_start (replicate 52 0)) (c, se_after 7) \<and>
     lc_won 0 c = 7 \<and> count_list (lc_lines c) 0 = 7"
proof -
  obtain c where c: "reach (ls_exec ForkServer) (ls_start (replicate 52 0)) (c, se_after 7)" "lc_steady 7 c"
    using ls_rounds_alone [of "replicate 52 0" 7 ForkServer] by auto
  have "count_list (replicate n x) x = n" for n and x :: nat by (induction n) simp_all
  with ls_log_lines [OF _ c(1), of 0] c show ?thesis by (auto simp: lc_steady_def)
qed

text \<open>The threads of task-05 and task-06 share the index, and a letter can go without its line in
  the log: a run in which all 52 letters are received, no signal comes, and the log has 51 lines.\<close>

theorem ls_line_missing:
  assumes "sv \<noteq> ForkServer" and "length old = 52"
  shows "\<exists>c. reach (ls_exec sv) (ls_start old) (c, se_after 52) \<and> lc_pc c 0 = LTop \<and> lc_log_open c 0 \<and>
    length (lc_letters c) = 52 \<and> length (lc_lines c) = 51"
proof -
  obtain c where c: "reach (ls_exec sv) (ls_start old) (c, se_after 51)" "lc_steady 51 c"
    using ls_rounds_alone [OF assms(2), of 51 sv] by auto
  have slot: "lc_slot sv i = 0" for i using assms(1) by (simp add: lc_slot_def)
  have st: "\<And>i. lc_pc c i = LTop" "\<And>k. lc_flag c k" "\<And>k. lc_log_open c k" "lc_lines c = replicate 51 0"
      "length (lc_letters c) = 51"
    using c(2) by (simp_all add: lc_steady_def)
  let ?a = "lc_after_read sv 0 51 c"
  let ?b = "lc_after_write sv 0 [char_of (nat (sv_letters ! 51))] ?a"
  let ?d = "lc_after_read sv 1 (- 1) ?b"
  have 1: "run (ls_exec sv) (c, se_after 51) (ls_read 0) = Some (?a, se_after 51)"
    using ls_read_run [of c 0 sv "se_after 51"] ls_first_after [of 51] by (simp add: st)
  have 2: "run (ls_exec sv) (?a, se_after 51) (ls_write 0) = Some (?b, se_after 52)"
    using ls_write_after [of 51 ?a 0 sv] by (simp add: lc_after_read_def)
  have 3: "run (ls_exec sv) (?b, se_after 52) (ls_read 1) = Some (?d, se_after 52)"
    using ls_read_run [of ?b 1 sv "se_after 52"] ls_first_empty by (simp add: st lc_after_simps)
  have 4: "run (ls_exec sv) (?d, se_after 52) [LClient (LDecide 0)] = Some (lc_goto 0 LTop ?d, se_after 52)"
    by (simp add: lc_after_simps slot)
  from run_reach [OF c(1) run_chain [OF 1 run_chain [OF 2 run_chain [OF 3 4]]]]
  have "reach (ls_exec sv) (ls_start old) (lc_goto 0 LTop ?d, se_after 52)" .
  then show ?thesis
    by (intro exI conjI, assumption) (use st in \<open>simp_all add: lc_goto_def lc_after_simps lc_letters_def\<close>)
qed

theorem ls_line_missing_witness:
  "\<exists>c. reach (ls_exec SelectServer) (ls_start (replicate 52 0)) (c, se_after 52) \<and> length (lc_lines c) = 51"
  using ls_line_missing [of SelectServer "replicate 52 0"] by auto

text \<open>C24: A turn of the loop of a client, statement by statement, does what the functional round \<^verbatim>\<open>cl_round\<close> says,
  for every buffer and every answer that the server can send and whichever of the nine calls fails first, as long as
  no other client of the same process steps in: if a call fails the client ends, without a line and without an answer;
  otherwise it is back at the top of its loop, with the index of the round in \<^verbatim>\<open>first_unoccupied_idx\<close>, a line exactly
  if the index is not negative and the answer one letter long (in the log, or in the closed file after SIGINT), and the
  sockets of the round left open.\<close>

theorem lc_round_refines:
  assumes "lc_pc c i = LTop" and "lc_flag c (lc_slot sv i)"
    and "R = cl_round sv ok (lc_copy a1) (lc_text junk a2)"
  shows "\<exists>c'. run (lc_exec sv) c (lc_turn ok i junk a1 a2 R) = Some c' \<and>
     lc_pc c' = (lc_pc c)(i := (if cl_failed R = None then LTop else LGone False)) \<and>
     (cl_index R = None \<or> cl_index R = Some (lc_index c' (lc_slot sv i))) \<and>
     (cl_logged R \<longleftrightarrow> (\<forall>q. ok q) \<and> 0 \<le> to_schar (find_first_unoccupied_index (lc_copy a1)) \<and>
        length (lc_text junk a2) = 1) \<and>
     lc_lines c' = lc_lines c @ (if cl_logged R \<and> lc_log_open c (lc_slot sv i) then [i] else []) \<and>
     lc_bad_lines c' = lc_bad_lines c @ (if cl_logged R \<and> \<not> lc_log_open c (lc_slot sv i) then [i] else []) \<and>
     lc_got c' = lc_got c @ (if cl_failed R = None then [(i, lc_text junk a2)] else []) \<and>
     lc_leaked c' i = lc_leaked c i + cl_open R"
proof (cases "find (\<lambda>x. \<not> ok x) cl_calls")
  case None
  have "ok q" for q using None by (simp add: cl_calls_all)
  then have "cl_failed R = None" "cl_logged R \<longleftrightarrow> (\<forall>q. ok q) \<and> 0 \<le> to_schar (find_first_unoccupied_index (lc_copy a1)) \<and>
      length (lc_text junk a2) = 1"
    using None by (simp_all add: assms(3) cl_round_def Let_def)
  with lc_turn_succeeds [OF assms(1,2) None assms(3)] show ?thesis by fastforce
next
  case (Some q)
  then have "\<not> ok q" by (auto simp: find_Some_iff)
  moreover have "R = \<lparr>cl_failed = Some q, cl_index = None, cl_logged = False, cl_open = 0\<rparr>"
    using Some by (simp add: assms(3) cl_round_def)
  ultimately show ?thesis using lc_turn_fails [OF assms(1,2) Some assms(3)] by fastforce
qed

text \<open>The exhausted buffer, answered by a single letter: no line; and a failing second \<^verbatim>\<open>connect\<close>.\<close>

theorem lc_round_refines_witness:
  "\<exists>c' c''. run (lc_exec ForkServer) lc_start
       (lc_turn (\<lambda>_. True) 3 [] (Some (RCopy (replicate 52 DASH))) (Some (RText ''x'' 16))
         (cl_round ForkServer (\<lambda>_. True) (replicate 52 DASH @ [0]) ''x'')) = Some c' \<and> lc_lines c' = [] \<and> lc_leaked c' 3 = 1 \<and>
     run (lc_exec ThreadServer) lc_start
       (lc_turn (\<lambda>q. q \<noteq> Connect2) 3 [] (Some (RCopy sv_letters)) None
         (cl_round ThreadServer (\<lambda>q. q \<noteq> Connect2) (sv_letters @ [0]) [])) = Some c'' \<and> lc_pc c'' 3 = LGone False"
proof -
  have st: "lc_pc lc_start 3 = LTop" "lc_flag lc_start k" "lc_lines lc_start = []" "lc_leaked lc_start 3 = 0" for k
    by (simp_all add: lc_start_def)
  have none: "\<not> 0 \<le> to_schar (find_first_unoccupied_index (replicate 52 DASH @ [0]))"
    using sv_taken_find_none sv_reader_copy_eq [of "sv_taken 52"] sv_taken_ok [of 52]
    by (simp add: sv_taken_def sv_buf_ok_def to_schar_id sv_letters_def)
  have failed: "cl_failed (cl_round ThreadServer (\<lambda>q. q \<noteq> Connect2) (sv_letters @ [0]) []) = Some Connect2"
    "cl_open (cl_round ForkServer (\<lambda>_. True) (replicate 52 DASH @ [0]) ''x'') = 1"
    by (simp_all add: cl_round_def cl_calls_def Let_def)
  show ?thesis
    using lc_round_refines [of lc_start 3 ForkServer
        "cl_round ForkServer (\<lambda>_. True) (replicate 52 DASH @ [0]) ''x''" "\<lambda>_. True" "Some (RCopy (replicate 52 DASH))" "[]" "Some (RText ''x'' 16)"]
      lc_round_refines [of lc_start 3 ThreadServer
        "cl_round ThreadServer (\<lambda>q. q \<noteq> Connect2) (sv_letters @ [0]) []" "\<lambda>q. q \<noteq> Connect2" "Some (RCopy sv_letters)" "[]" None]
      st none failed by fastforce
qed

text \<open>A client that no other disturbs refines the round of one client with the server: the run ends with
  the server as \<^verbatim>\<open>se_client_round\<close> leaves it, and index, answer, log line and open sockets are those of
  \<^verbatim>\<open>cl_round\<close>.\<close>

theorem ls_round_refines:
  assumes "n < 52" and "lc_pc c i = LTop" and "lc_flag c (lc_slot sv i)" and "lc_log_open c (lc_slot sv i)"
    and "t = [char_of (nat (sv_letters ! n))]"
    and "R = cl_round sv (\<lambda>_. True) (sv_reader_copy (sv_taken n)) t"
  shows "\<exists>c'. run (ls_exec sv) (c, se_after n) (ls_round i) = Some (c', fst (se_client_round (se_after n))) \<and>
    snd (se_client_round (se_after n)) = [RText t STR_BUFFER_SIZE] \<and> lc_got c' = lc_got c @ [(i, t)] \<and>
    cl_index R = Some (lc_index c' (lc_slot sv i)) \<and>
    lc_lines c' = lc_lines c @ (if cl_logged R then [i] else []) \<and>
    lc_leaked c' i = lc_leaked c i + cl_open R"
proof -
  have se: "se_client_round (se_after n) = (se_after (Suc n), [RText t STR_BUFFER_SIZE])"
    using se_client_round_eq [of "se_after n" n] assms(1,5) by (simp add: se_after_def)
  have R: "cl_index R = Some (int n)" "cl_logged R" "cl_open R = (if sv = ForkServer then 1 else 0)"
    using assms(1) by (simp_all add: assms(5,6) cl_round_def cl_find_none sv_taken_find to_schar_id)
  show ?thesis
    using lc_round_alone_run [OF assms(1-4)] by (auto simp: se R assms(5))
qed

theorem ls_round_refines_witness:
  "\<exists>c'. run (ls_exec ForkServer) (lc_start, se_after 2) (ls_round 3) = Some (c', fst (se_client_round (se_after 2))) \<and>
     lc_leaked c' 3 = 1 \<and> lc_lines c' = [3]"
  using ls_round_refines [of 2 lc_start 3 ForkServer _ "cl_round ForkServer (\<lambda>_. True) (sv_reader_copy (sv_taken 2)) [char_of (nat (sv_letters ! 2))]", OF _ _ _ _ refl refl]
  by (auto simp: lc_start_def cl_round_def cl_find_none sv_taken_find to_schar_id)

text \<open>With a shared index a thread asks for an index it has not found. One thread finds the letter a,
  another takes it and goes on to find b; then the first asks for, and gets, b.\<close>

theorem ls_wrong_index:
  assumes "sv \<noteq> ForkServer" and "length old = 52"
  shows "\<exists>c. reach (ls_exec sv) (ls_start old) (c, se_after 2) \<and> lc_found c 0 = 0 \<and>
    lc_got c = [(1, ''a''), (0, ''b'')]"
proof -
  have slot: "lc_slot sv i = 0" for i using assms(1) by (simp add: lc_slot_def)
  have ch: "char_of (nat (sv_letters ! 0)) = CHR ''a''" "char_of (nat (sv_letters ! 1)) = CHR ''b''"
    by (simp_all add: sv_letters_nth char_97 char_98)
  let ?a = "lc_after_read sv 0 0 lc_start"
  have 1: "run (ls_exec sv) (lc_start, se_after 0) (ls_read 0) = Some (?a, se_after 0)"
    using ls_read_run [of lc_start 0 sv "se_after 0"] ls_first_after [of 0] by (simp add: lc_start_def)
  obtain b where 2: "run (ls_exec sv) (?a, se_after 0) (ls_round 1) = Some (b, se_after 1)"
    and b: "lc_pc b = (lc_pc ?a)(1 := LTop)" "lc_flag b = lc_flag ?a" "lc_got b = [(1, ''a'')]"
      "lc_found b = (lc_found ?a)(1 := 0)"
    using lc_round_alone_run [of 0 ?a 1 sv] ch(1) by (auto simp: lc_start_def lc_after_read_def)
  let ?d = "lc_after_read sv 1 1 b"
  let ?e = "lc_after_write sv 0 ''b'' ?d"
  have 3: "run (ls_exec sv) (b, se_after 1) (ls_read 1) = Some (?d, se_after 1)"
    using ls_read_run [of b 1 sv "se_after 1"] ls_first_after [of 1] by (simp add: b lc_start_def lc_after_read_def)
  have 4: "run (ls_exec sv) (?d, se_after 1) (ls_write 0) = Some (?e, se_after 2)"
    using ls_write_after [of 1 ?d 0 sv] ch(2) by (simp add: b slot lc_after_read_def numeral_2_eq_2)
  have "ls_start old = (lc_start, se_after 0)" using assms(2) by (simp add: ls_start_def se_start_after)
  with run_reach_init [OF run_chain [OF 1 run_chain [OF 2 run_chain [OF 3 4]]]]
  have "reach (ls_exec sv) (ls_start old) (?e, se_after 2)" by simp
  then show ?thesis
    by (intro exI conjI, assumption) (simp_all add: lc_after_simps b)
qed

theorem ls_wrong_index_witness:
  "\<exists>c. reach (ls_exec ThreadServer) (ls_start (replicate 52 0)) (c, se_after 2) \<and> lc_found c 0 = 0 \<and>
     (0, ''b'') \<in> set (lc_got c)"
  using ls_wrong_index [of ThreadServer "replicate 52 0"] by fastforce

text \<open>The handler of SIGINT closes the log while a round is under way: the client then writes to the closed
  file, and a second signal closes it again.\<close>

theorem ls_log_after_close:
  assumes "length old = 52"
  shows "\<exists>c s. reach (ls_exec sv) (ls_start old) (c, s) \<and> lc_bad_lines c = [0] \<and> lc_bad_closes c = 1 \<and>
    lc_lines c = []"
proof -
  let ?k = "lc_slot sv 0"
  let ?a = "lc_after_read sv 0 0 lc_start"
  let ?b = "lc_after_write sv 0 [char_of (nat (sv_letters ! 0))] ?a"
  have 1: "run (ls_exec sv) (lc_start, se_after 0) (ls_read 0) = Some (?a, se_after 0)"
    using ls_read_run [of lc_start 0 sv "se_after 0"] ls_first_after [of 0] by (simp add: lc_start_def)
  have 2: "run (ls_exec sv) (?a, se_after 0) (ls_write 0) = Some (?b, se_after 1)"
    using ls_write_after [of 0 ?a 0 sv] by (simp add: lc_after_read_def)
  have 3: "\<exists>d. run (ls_exec sv) (?b, se_after 1) [LClient (LDecide 0), LClient (LSignal ?k), LClient (LLog 0),
      LClient (LSignal ?k)] = Some (d, se_after 1) \<and> lc_bad_lines d = [0] \<and> lc_bad_closes d = 1 \<and> lc_lines d = []"
    by (simp add: lc_after_simps lc_start_def lc_goto_def lc_sig_handler_def)
  then obtain d where d: "run (ls_exec sv) (?b, se_after 1) [LClient (LDecide 0), LClient (LSignal ?k), LClient (LLog 0),
      LClient (LSignal ?k)] = Some (d, se_after 1)" "lc_bad_lines d = [0]" "lc_bad_closes d = 1" "lc_lines d = []"
    by blast
  have "ls_start old = (lc_start, se_after 0)" using assms by (simp add: ls_start_def se_start_after)
  with run_reach_init [OF run_chain [OF 1 run_chain [OF 2 d(1)]]]
  have "reach (ls_exec sv) (ls_start old) (d, se_after 1)" by simp
  with d show ?thesis by blast
qed

theorem ls_log_after_close_witness:
  "\<exists>c s. reach (ls_exec ForkServer) (ls_start (replicate 52 0)) (c, s) \<and> lc_bad_lines c = [0]"
  using ls_log_after_close [of "replicate 52 0" ForkServer] by auto

text \<open>The sequential server ends with status 0 only when all its calls succeeded, and then after a
  request for a bad index or a failed \<^verbatim>\<open>select\<close>; otherwise with 1, leaving the shared memory behind
  unless the failing call came before it existed.\<close>

theorem se_main_outcome:
  assumes "se_main ok listen old ts = Some r"
  shows "(exit_status r = 0 \<and> (\<forall>e \<in> set se_setup. ok e) \<and> left_behind r = [] \<and>
      (\<not> se_flag (lp_state (se_main_loop listen ts (se_loop_start listen old))) \<or> (\<exists>t \<in> set ts. \<not> st_select t))) \<or>
    (exit_status r = 1 \<and> (left_behind r = [] \<longleftrightarrow> \<not> ok EFtok \<or> \<not> ok EShmget))"
proof (cases "find (\<lambda>e. \<not> ok e) se_setup")
  case None
  then have "\<forall>e \<in> set se_setup. ok e" by (simp add: find_None_iff)
  with None assms show ?thesis
    using se_run_main_loop [of listen ts "se_loop_start listen old"]
    by (auto simp: se_main_def split: option.splits)
next
  case (Some e)
  then show ?thesis
    using assms by (auto simp: se_main_def se_setup_def split: if_splits)
qed

theorem se_main_outcome_witness:
  "\<exists>r. se_main (\<lambda>e. e \<noteq> EBind) 3 [] [] = Some r \<and> exit_status r = 1 \<and> left_behind r = [SharedMemory]"
proof -
  have m: "se_main (\<lambda>e. e \<noteq> EBind) 3 [] [] =
      Some \<lparr>exit_status = 1, children = 0, left_behind = [SharedMemory], reports = []\<rparr>"
    by (simp add: se_main_def se_setup_def)
  from se_main_outcome [OF m] m show ?thesis by simp
qed

text \<open>The parent of the processes and \<^verbatim>\<open>main\<close> of the threads end with 0 only when all clients were
  started, and the latter not before SIGINT.\<close>

theorem lc_main_outcome:
  "(exit_status (fork_client_main opened fs) = 0 \<longleftrightarrow> opened \<and> children (fork_client_main opened fs) = LC_CHILD_COUNT) \<and>
   (thread_client_main n opened cs False = None \<longleftrightarrow> opened \<and> snd (fork_loop n cs)) \<and>
   (\<forall>r. thread_client_main n opened cs sigint = Some r \<longrightarrow> (exit_status r = 0 \<longleftrightarrow> opened \<and> sigint \<and> children r = n))"
  using fork_loop_bound [of LC_CHILD_COUNT fs] fork_loop_bound [of n cs]
  by (auto simp: fork_client_main_def thread_client_main_def Let_def LC_CHILD_COUNT_def split: prod.splits if_splits)

theorem lc_main_outcome_witness:
  "\<exists>r. thread_client_main LC_SELECT_THREADS True [True, True, True, True, True] True = Some r \<and>
     exit_status r = 0 \<and> children r = 5"
proof -
  have m: "thread_client_main LC_SELECT_THREADS True [True, True, True, True, True] True =
      Some \<lparr>exit_status = 0, children = 5, left_behind = [], reports = []\<rparr>"
    by (simp add: thread_client_main_def LC_SELECT_THREADS_def numeral_eq_Suc)
  with lc_main_outcome [where n = LC_SELECT_THREADS and opened = True and cs = "[True, True, True, True, True]" and sigint = True]
  show ?thesis by simp
qed

end
