(* ===== verification/Letter_Handlers.thy ===== *)
theory Letter_Handlers
  imports Letter_Rounds Sock_Server
begin

section \<open>The clients with the concurrent servers\<close>

text \<open>
  Composition of the clients of Letter_Clients with the servers of lab-socket/task-04 and task-05, whose
  handlers (Sock_Server) run side by side: one process or thread for each connection. What holds
  of the handlers alone carries over, because the composed system refines them; what goes wrong in them
  reaches the clients.
\<close>

subsection \<open>The composed system\<close>

text \<open>
  Every accepted connection gets a handler with a fresh number; \<open>lt_job\<close> names the client it answers and \<open>lt_idx\<close> the
  index it was sent. While a handler is at work on the connection of a client, that client is busy.
\<close>

record lt_sys =
  lt_cl :: lc_sys
  lt_sv :: ss_sys
  lt_job :: "rw_actor \<Rightarrow> nat option"
  lt_idx :: "nat \<Rightarrow> int"
  lt_busy :: "nat \<Rightarrow> bool"
  lt_next :: nat

datatype lt_event = TClient lc_event | TAccept nat int int | THandler ss_event

definition lt_start :: "int list \<Rightarrow> lt_sys" where
  "lt_start old = \<lparr>lt_cl = lc_start, lt_sv = ss_init old, lt_job = (\<lambda>_. None), lt_idx = (\<lambda>_. 0), lt_busy = (\<lambda>_. False), lt_next = 0\<rparr>"

fun lt_byte :: "int option \<Rightarrow> recv1" where
  "lt_byte None = REof"
| "lt_byte (Some c) = RByte c"

fun lt_actor :: "ss_event \<Rightarrow> rw_actor" where
  "lt_actor (HStart a) = a"
| "lt_actor (HStep a) = a"
| "lt_actor (HSend a ok) = a"
| "lt_actor (HStop a) = a"

text \<open>
  What the step of a handler sends to its client: the inner \<^term>\<open>None\<close> closes the connection without an
  answer, which a failed \<^verbatim>\<open>send\<close> or \<^verbatim>\<open>semop\<close> does.
\<close>

fun lt_reply :: "sv_server \<Rightarrow> ss_sys \<Rightarrow> ss_sys \<Rightarrow> ss_event \<Rightarrow> se_reply option option" where
  "lt_reply sv old new (HSend a ok) =
     Some (if ok then (case ss_phase old a of
         HCopied b \<Rightarrow> Some (RCopy b)
       | HReply m \<Rightarrow> Some (RText (sv_text sv m) STR_BUFFER_SIZE)
       | _ \<Rightarrow> None) else None)"
| "lt_reply sv old new (HStart a) = (if ss_phase new a = HFailed then Some None else None)"
| "lt_reply sv old new _ = None"

definition lt_answer :: "sv_server \<Rightarrow> nat \<Rightarrow> se_reply option \<Rightarrow> lt_sys \<Rightarrow> lt_sys option" where
  "lt_answer sv i r s =
     (case lc_exec sv (lt_cl s) (LReply i r) of
        None \<Rightarrow> None
      | Some c \<Rightarrow> Some (s\<lparr>lt_cl := c, lt_busy := (lt_busy s)(i := False)\<rparr>))"

definition lt_spawn :: "nat \<Rightarrow> rw_actor \<Rightarrow> lt_sys \<Rightarrow> lt_sys" where
  "lt_spawn i a s = s\<lparr>lt_job := (lt_job s)(a := Some i), lt_busy := (lt_busy s)(i := True), lt_next := Suc (lt_next s)\<rparr>"

text \<open>
  A connection is accepted once its request can be read; \<open>g\<close> and \<open>h\<close> are what the variables of the handler hold
  before (\<^verbatim>\<open>handle_client\<close>).
\<close>

fun lt_exec :: "sv_server \<Rightarrow> lt_sys \<Rightarrow> lt_event \<Rightarrow> lt_sys option" where
  "lt_exec sv s (TClient e) =
     (case e of
        LReply i r \<Rightarrow> None
      | _ \<Rightarrow> (case lc_exec sv (lt_cl s) e of None \<Rightarrow> None | Some c \<Rightarrow> Some (s\<lparr>lt_cl := c\<rparr>)))"
| "lt_exec sv s (TAccept i g h) =
     (case lc_request (lc_conn (lt_cl s) i) of
        None \<Rightarrow> None
      | Some (op, idx) \<Rightarrow>
          if lt_busy s i then None
          else (case handle_client g h (lt_byte op) (lt_byte idx) of
              JReader \<Rightarrow> Some (lt_spawn i (Reader (lt_next s)) s)
            | JWriter x \<Rightarrow> Some (lt_spawn i (Writer (lt_next s)) (s\<lparr>lt_idx := (lt_idx s)(lt_next s := x)\<rparr>))
            | _ \<Rightarrow> lt_answer sv i None s))"
| "lt_exec sv s (THandler e) =
     (case lt_job s (lt_actor e) of
        None \<Rightarrow> None
      | Some i \<Rightarrow>
          (case ss_exec (lt_idx s) (lt_sv s) e of
             None \<Rightarrow> None
           | Some v \<Rightarrow>
               (case lt_reply sv (lt_sv s) v e of
                  None \<Rightarrow> Some (s\<lparr>lt_sv := v\<rparr>)
                | Some r \<Rightarrow> lt_answer sv i r (s\<lparr>lt_sv := v\<rparr>))))"


subsection \<open>Refinement of the handlers\<close>

text \<open>Handlers that have not been started wait; the index of one that was started does not change.\<close>

definition lt_fresh :: "lt_sys \<Rightarrow> bool" where
  "lt_fresh s \<longleftrightarrow> (\<forall>a. lt_job s a = None \<longrightarrow> ss_phase (lt_sv s) a = HWaiting) \<and>
     (\<forall>n \<ge> lt_next s. lt_job s (Reader n) = None \<and> lt_job s (Writer n) = None)"

lemma ss_exec_other:
  "ss_exec idx v e = Some v' \<Longrightarrow> a \<noteq> lt_actor e \<Longrightarrow> ss_phase v' a = ss_phase v a"
  by (cases e; cases "lt_actor e")
    (auto simp: ss_goto_def Let_def split: if_splits semresult.splits ss_phase.splits)

lemma ss_exec_started:
  "ss_exec idx v e = Some v' \<Longrightarrow> ss_phase v' a = HWaiting \<Longrightarrow> ss_phase v a = HWaiting \<and> a \<noteq> lt_actor e"
  by (cases e; cases "lt_actor e"; cases "a = lt_actor e")
    (auto simp: ss_goto_def Let_def split: if_splits semresult.splits ss_phase.splits)

lemma ss_exec_idx:
  "(\<And>i. ss_phase v (Writer i) \<noteq> HWaiting \<Longrightarrow> idx' i = idx i) \<Longrightarrow> ss_exec idx' v e = ss_exec idx v e"
proof (cases e)
  case (HStep a)
  assume "\<And>i. ss_phase v (Writer i) \<noteq> HWaiting \<Longrightarrow> idx' i = idx i"
  then show ?thesis by (cases a) (auto simp: HStep split: ss_phase.splits)
qed simp_all

lemma ss_reach_idx:
  "reach (ss_exec idx) s0 v \<Longrightarrow> (\<And>i. ss_phase v (Writer i) \<noteq> HWaiting \<Longrightarrow> idx' i = idx i) \<Longrightarrow> reach (ss_exec idx') s0 v"
proof (induction rule: reach.induct)
  case (reach_step v e v')
  have a: "idx' i = idx i" if "ss_phase v (Writer i) \<noteq> HWaiting" for i
    using that ss_exec_started [OF reach_step.hyps(2)] reach_step.prems by blast
  then have "reach (ss_exec idx') s0 v" using reach_step.IH by blast
  moreover have "ss_exec idx' v e = Some v'" using ss_exec_idx [OF a] reach_step.hyps(2) by simp
  ultimately show ?case by (rule reach.reach_step)
qed (rule reach.reach_init)

lemma lt_answer_keeps:
  "lt_answer sv i r s = Some t \<Longrightarrow> lt_sv t = lt_sv s \<and> lt_job t = lt_job s \<and> lt_idx t = lt_idx s \<and> lt_next t = lt_next s"
  by (auto simp: lt_answer_def split: option.splits)

text \<open>A step of the whole is one of a handler, or leaves the handlers as they are.\<close>

lemma lt_exec_cases:
  assumes "lt_exec sv s e = Some t"
  obtains (same) "lt_sv t = lt_sv s" "lt_job t = lt_job s" "lt_idx t = lt_idx s" "lt_next t = lt_next s"
    | (spawn) i a x where "lt_sv t = lt_sv s" "lt_job t = (lt_job s)(a := Some i)" "lt_idx t = (lt_idx s)(lt_next s := x)"
        "lt_next t = Suc (lt_next s)" "a = Reader (lt_next s) \<or> a = Writer (lt_next s)"
    | (handler) f where "e = THandler f" "ss_exec (lt_idx s) (lt_sv s) f = Some (lt_sv t)" "lt_job s (lt_actor f) \<noteq> None"
        "lt_job t = lt_job s" "lt_idx t = lt_idx s" "lt_next t = lt_next s"
proof (cases e)
  case (TClient f)
  then obtain c where "t = s\<lparr>lt_cl := c\<rparr>"
    using assms by (auto simp del: lc_exec.simps split: lc_event.splits option.splits)
  then show thesis using same by simp
next
  case (TAccept i g h)
  obtain op idx where q: "\<not> lt_busy s i" "lc_request (lc_conn (lt_cl s) i) = Some (op, idx)"
    using assms by (auto simp: TAccept split: option.splits if_splits)
  then consider "t = lt_spawn i (Reader (lt_next s)) s"
    | x where "t = lt_spawn i (Writer (lt_next s)) (s\<lparr>lt_idx := (lt_idx s)(lt_next s := x)\<rparr>)"
    | "lt_answer sv i None s = Some t"
    using assms q by (cases "handle_client g h (lt_byte op) (lt_byte idx)") (auto simp: TAccept)
  then show thesis
  proof cases
    case 1
    then show thesis using spawn [of "Reader (lt_next s)" i "lt_idx s (lt_next s)"] by (simp add: lt_spawn_def)
  next
    case (2 x)
    then show thesis using spawn [of "Writer (lt_next s)" i x] by (simp add: lt_spawn_def)
  next
    case 3
    then show thesis using same lt_answer_keeps by blast
  qed
next
  case (THandler f)
  obtain i v where v: "lt_job s (lt_actor f) = Some i" "ss_exec (lt_idx s) (lt_sv s) f = Some v"
    using assms by (auto simp: THandler simp del: ss_exec.simps split: option.splits)
  then have "lt_sv t = v \<and> lt_job t = lt_job s \<and> lt_idx t = lt_idx s \<and> lt_next t = lt_next s"
    using assms lt_answer_keeps [of sv i _ "s\<lparr>lt_sv := v\<rparr>" t]
    by (auto simp: THandler simp del: ss_exec.simps split: option.splits)
  with v handler [OF THandler] show thesis by simp
qed

lemma lt_fresh_exec:
  assumes "lt_exec sv s e = Some t" and "lt_fresh s"
  shows "lt_fresh t"
  using assms(1)
proof (cases rule: lt_exec_cases)
  case same
  with assms(2) show ?thesis by (simp add: lt_fresh_def)
next
  case (spawn i a x)
  with assms(2) show ?thesis by (auto simp: lt_fresh_def)
next
  case (handler f)
  have "ss_phase (lt_sv t) a = ss_phase (lt_sv s) a" if "lt_job s a = None" for a
    using ss_exec_other [OF handler(2)] handler(3) that by metis
  with assms(2) handler show ?thesis by (simp add: lt_fresh_def)
qed

lemma lt_fresh_start: "lt_fresh (lt_start old)"
  by (simp add: lt_fresh_def lt_start_def ss_init_def)

interpretation lt: invariant_system "lt_exec sv" "lt_start old" lt_fresh for sv old
  by unfold_locales (auto intro: lt_fresh_start lt_fresh_exec)

lemma lt_step_handlers:
  assumes "lt_exec sv s e = Some t" and "lt_fresh s" and "reach (ss_exec (lt_idx s)) v0 (lt_sv s)"
  shows "reach (ss_exec (lt_idx t)) v0 (lt_sv t)"
  using assms(1)
proof (cases rule: lt_exec_cases)
  case same
  with assms(3) show ?thesis by simp
next
  case (spawn i a x)
  have "ss_phase (lt_sv s) (Writer (lt_next s)) = HWaiting" using assms(2) by (simp add: lt_fresh_def)
  then show ?thesis
    unfolding spawn(1,3) by (intro ss_reach_idx [OF assms(3)]) auto
next
  case (handler f)
  then show ?thesis using reach.reach_step [OF assms(3)] by simp
qed

lemma lt_reach_handlers:
  "reach (lt_exec sv) (lt_start old) s \<Longrightarrow> reach (ss_exec (lt_idx s)) (ss_init old) (lt_sv s)"
proof (induction rule: reach.induct)
  case reach_init
  show ?case by (simp add: lt_start_def reach.reach_init)
next
  case (reach_step s e t)
  then show ?case using lt_step_handlers [OF reach_step.hyps(2) lt.reach_inv] by blast
qed


subsection \<open>Runs\<close>

text \<open>The first half of a round with a handler of its own, from a quiet server whose buffer is full.\<close>

definition lt_read :: "nat \<Rightarrow> nat \<Rightarrow> lt_event list" where
  "lt_read i n = TClient (LTest i) # replicate 3 (TClient (LCall i True [])) @
     [TAccept i 0 0, THandler (HStart (Reader n)), THandler (HStep (Reader n)), THandler (HSend (Reader n) True),
      THandler (HStop (Reader n)), TClient (LCall i True []), TClient (LStore i)]"

definition lt_after_read :: "sv_server \<Rightarrow> nat \<Rightarrow> lt_sys \<Rightarrow> lt_sys" where
  "lt_after_read sv i s = s\<lparr>lt_cl := lc_after_read sv i 0 (lt_cl s),
     lt_sv := (lt_sv s)\<lparr>ss_sems := [0, 0, 0, 0], ss_phase := (ss_phase (lt_sv s))(Reader (lt_next s) := HDone),
       ss_copies := ss_copies (lt_sv s) @ [(Reader (lt_next s), sv_reader_copy sv_letters)]\<rparr>,
     lt_job := (lt_job s)(Reader (lt_next s) := Some i), lt_busy := (lt_busy s)(i := False), lt_next := Suc (lt_next s)\<rparr>"

lemma strpbrk_from_zero: "strpbrk_from i (xs @ [0]) = strpbrk_from i xs"
  by (induction i xs rule: strpbrk_from.induct) auto

lemma full_copy_first: "to_schar (find_first_unoccupied_index (sv_reader_copy sv_letters @ [0])) = 0"
  using sv_taken_find [of 0]
  by (simp add: find_first_unoccupied_index_def strpbrk_from_zero sv_taken_def to_schar_def)

lemma ss_eval_stop: "semop stop_read [0, 1, 0, 0] = Done [0, 0, 0, 0]" "semop stop_write [0, 0, 1, 0] = Done [0, 0, 0, 0]"
  by (simp_all add: ss_semop_eval SEMVMX_def)

lemma lt_read_run:
  assumes "lc_pc (lt_cl s) i = LTop" and "lc_flag (lt_cl s) (lc_slot sv i)" and "\<not> lt_busy s i"
    and "ss_sems (lt_sv s) = [0, 0, 0, 0]" and "ss_buf (lt_sv s) = sv_letters"
    and "ss_phase (lt_sv s) (Reader (lt_next s)) = HWaiting"
  shows "run (lt_exec sv) s (lt_read i (lt_next s)) = Some (lt_after_read sv i s)"
  using assms
  by (simp add: lt_read_def numeral_eq_Suc lc_goto_def lc_link_def lc_send_def lt_spawn_def lt_answer_def handle_client_def
      SE_READER_def SE_WRITER_def OP_READER_def ss_goto_def ss_eval0 ss_eval_stop full_copy_first Let_def
      lt_after_read_def lc_after_read_def)

text \<open>
  The second halves of two clients, interleaved: both handlers have seen the letter before either has put
  the dash in its place.
\<close>

definition lt_ask :: "nat \<Rightarrow> lt_event list" where
  "lt_ask i = replicate 4 (TClient (LCall i True [])) @ [TAccept i 0 0]"

definition lt_both_write :: "nat \<Rightarrow> nat \<Rightarrow> lt_event list" where
  "lt_both_write a b = map THandler [HStart (Writer a), HStart (Writer b), HStep (Writer a), HStep (Writer b),
     HStep (Writer a), HStep (Writer b), HSend (Writer a) True, HSend (Writer b) True]"

definition lt_after_ask :: "sv_server \<Rightarrow> nat \<Rightarrow> lt_sys \<Rightarrow> lt_sys" where
  "lt_after_ask sv i s = s\<lparr>lt_cl := (lt_cl s)\<lparr>lc_pc := (lc_pc (lt_cl s))(i := LBefore RecvResult),
       lc_conn := (lc_conn (lt_cl s))(i := Conn [SE_WRITER, lc_index (lt_cl s) (lc_slot sv i)])\<rparr>,
     lt_job := (lt_job s)(Writer (lt_next s) := Some i), lt_busy := (lt_busy s)(i := True),
     lt_idx := (lt_idx s)(lt_next s := lc_index (lt_cl s) (lc_slot sv i)), lt_next := Suc (lt_next s)\<rparr>"

lemma lt_ask_run:
  assumes "lc_pc (lt_cl s) i = LBefore Socket2" and "\<not> lt_busy s i"
  shows "run (lt_exec sv) s (lt_ask i) = Some (lt_after_ask sv i s)"
  using assms
  by (simp add: lt_ask_def numeral_eq_Suc lc_goto_def lc_link_def lc_send_def lt_spawn_def handle_client_def
      SE_WRITER_def OP_READER_def OP_WRITER_def lt_after_ask_def)

text \<open>Two clients from the start to the point where both have asked for index 0.\<close>

definition lt_asked :: "sv_server \<Rightarrow> int list \<Rightarrow> lt_sys" where
  "lt_asked sv old =
     lt_after_ask sv 1 (lt_after_ask sv 0 (lt_after_read sv 1 (lt_after_read sv 0 (lt_start old))))"

lemma lt_asked_run:
  assumes "length old = 52"
  shows "run (lt_exec sv) (lt_start old) (lt_read 0 0 @ lt_read 1 1 @ lt_ask 0 @ lt_ask 1) = Some (lt_asked sv old)"
proof -
  let ?a = "lt_after_read sv 0 (lt_start old)"
  let ?b = "lt_after_read sv 1 ?a"
  let ?c = "lt_after_ask sv 0 ?b"
  have 1: "run (lt_exec sv) (lt_start old) (lt_read 0 0) = Some ?a"
    using lt_read_run [of "lt_start old" 0 sv] assms
    by (simp add: lt_start_def lc_start_def ss_init_def ss_sems0_def sv_init_eq)
  have 2: "run (lt_exec sv) ?a (lt_read 1 1) = Some ?b"
    using lt_read_run [of ?a 1 sv] assms
    by (simp add: lt_start_def lc_start_def ss_init_def sv_init_eq lt_after_read_def lc_after_read_def)
  have 3: "run (lt_exec sv) ?b (lt_ask 0) = Some ?c"
    by (rule lt_ask_run) (simp_all add: lt_start_def lt_after_read_def lc_after_read_def)
  have 4: "run (lt_exec sv) ?c (lt_ask 1) = Some (lt_asked sv old)"
    unfolding lt_asked_def
    by (rule lt_ask_run) (simp_all add: lt_start_def lt_after_read_def lc_after_read_def lt_after_ask_def)
  show ?thesis using run_chain [OF 1 run_chain [OF 2 run_chain [OF 3 4]]] by simp
qed

lemma lt_asked_facts:
  assumes "length old = 52"
  shows "lt_next (lt_asked sv old) = 4" "lt_job (lt_asked sv old) (Writer 2) = Some 0" "lt_job (lt_asked sv old) (Writer 3) = Some 1"
    "lt_idx (lt_asked sv old) 2 = 0" "lt_idx (lt_asked sv old) 3 = 0"
    "lc_pc (lt_cl (lt_asked sv old)) 0 = LBefore RecvResult" "lc_pc (lt_cl (lt_asked sv old)) 1 = LBefore RecvResult"
    "lc_conn (lt_cl (lt_asked sv old)) 0 = Conn [SE_WRITER, 0]" "lc_conn (lt_cl (lt_asked sv old)) 1 = Conn [SE_WRITER, 0]"
    "lc_got (lt_cl (lt_asked sv old)) = []"
    "ss_sems (lt_sv (lt_asked sv old)) = [0, 0, 0, 0]" "ss_buf (lt_sv (lt_asked sv old)) = sv_letters"
    "ss_phase (lt_sv (lt_asked sv old)) (Writer 2) = HWaiting" "ss_phase (lt_sv (lt_asked sv old)) (Writer 3) = HWaiting"
  using assms
  by (simp_all add: lt_asked_def lt_after_ask_def lt_after_read_def lc_after_read_def lt_start_def lc_start_def
      ss_init_def sv_init_eq lc_slot_def)

lemma lt_both_run:
  assumes "lt_job s (Writer a) = Some i" "lt_job s (Writer b) = Some j" "a \<noteq> b" "i \<noteq> j"
    and "lt_idx s a = 0" "lt_idx s b = 0"
    and "lc_pc (lt_cl s) i = LBefore RecvResult" "lc_pc (lt_cl s) j = LBefore RecvResult"
    and "lc_conn (lt_cl s) i = Conn [SE_WRITER, 0]" "lc_conn (lt_cl s) j = Conn [SE_WRITER, 0]"
    and "lc_got (lt_cl s) = []"
    and "ss_sems (lt_sv s) = [0, 0, 0, 0]" "ss_buf (lt_sv s) = sv_letters"
    and "ss_phase (lt_sv s) (Writer a) = HWaiting" "ss_phase (lt_sv s) (Writer b) = HWaiting"
    and "sv \<noteq> SelectServer"
  shows "map_option (\<lambda>t. lc_got (lt_cl t))
      (run (lt_exec sv) s (lt_both_write a b @ [TClient (LCall i True []), TClient (LCall j True [])])) =
    Some [(i, ''a''), (j, ''a'')]"
proof -
  have "sv_text sv (MLetter 97) = ''a''" using char_97 assms(16) by (cases sv) simp_all
  then show ?thesis
    using assms sv_letters_nth [of 0]
    by (simp add: lt_both_write_def ss_goto_def ss_eval0 sv_bad_index_def SHM_BUFFER_SIZE_def DASH_def lt_answer_def
        lc_link_def lc_goto_def Let_def)
qed


text \<open>A lost handler stays lost.\<close>

lemma lt_lost_step:
  assumes "lt_exec sv s e = Some t" and "ss_phase (lt_sv s) a = HLost"
  shows "ss_phase (lt_sv t) a = HLost"
  using assms(1)
proof (cases rule: lt_exec_cases)
  case (handler f)
  then show ?thesis using ss_lost_step assms(2) by blast
qed (use assms(2) in simp_all)


subsection \<open>Properties\<close>

text \<open>The clients and the servers together refine the servers alone: whatever the clients do, the handlers are in a
  state that they reach by themselves, for the indices they were sent.\<close>

theorem lt_refines:
  assumes "reach (lt_exec sv) (lt_start old) s"
  shows "reach (ss_exec (lt_idx s)) (ss_init old) (lt_sv s)"
  using lt_reach_handlers [OF assms] .

theorem lt_refines_witness:
  "reach (ss_exec (lt_idx (lt_asked ThreadServer (replicate 52 0)))) (ss_init (replicate 52 0))
     (lt_sv (lt_asked ThreadServer (replicate 52 0)))"
  by (rule lt_refines [OF run_reach_init [OF lt_asked_run]]) simp

text \<open>C7: two clients of the process server, or of the thread server, can receive the same letter.\<close>

theorem lt_double_letter:
  assumes "sv \<noteq> SelectServer" and "length old = 52"
  shows "\<exists>s. reach (lt_exec sv) (lt_start old) s \<and> lc_got (lt_cl s) = [(0, ''a''), (1, ''a'')]"
proof -
  note f = lt_asked_facts [OF assms(2), of sv]
  have "map_option (\<lambda>t. lc_got (lt_cl t)) (run (lt_exec sv) (lt_asked sv old)
      (lt_both_write 2 3 @ [TClient (LCall 0 True []), TClient (LCall 1 True [])])) = Some [(0, ''a''), (1, ''a'')]"
    by (rule lt_both_run) (use f assms(1) in simp_all)
  then obtain t where t: "run (lt_exec sv) (lt_asked sv old)
      (lt_both_write 2 3 @ [TClient (LCall 0 True []), TClient (LCall 1 True [])]) = Some t"
    "lc_got (lt_cl t) = [(0, ''a''), (1, ''a'')]" by auto
  from run_reach_init [OF run_chain [OF lt_asked_run [OF assms(2)] t(1)]] t(2) show ?thesis by blast
qed

theorem lt_double_letter_witness:
  "\<exists>s. reach (lt_exec ForkServer) (lt_start (replicate 52 0)) s \<and> \<not> distinct (lc_letters (lt_cl s))"
proof -
  obtain s where "reach (lt_exec ForkServer) (lt_start (replicate 52 0)) s" "lc_got (lt_cl s) = [(0, ''a''), (1, ''a'')]"
    using lt_double_letter [of ForkServer "replicate 52 0"] by auto
  then show ?thesis by (intro exI [of _ s]) (simp add: lc_letters_def)
qed

text \<open>C20: A handler of a writer that ends without its release, as it does for a bad index, blocks the clients for ever: no
  handler of a reader ever gets in again, whatever clients and handlers do.\<close>

theorem lt_blocked_for_ever:
  assumes "reach (lt_exec sv) (lt_start old) s" and "ss_phase (lt_sv s) (Writer j) = HLost"
    and "reach (lt_exec sv) s t"
  shows "lt_exec sv t (THandler (HStart (Reader i))) = None"
proof -
  have "ss_phase (lt_sv t) (Writer j) = HLost"
    using assms(3,2) by (induction rule: reach.induct) (auto dest: lt_lost_step)
  then have "ss_exec (lt_idx t) (lt_sv t) (HStart (Reader i)) = None"
    using ss_reader_blocked [OF lt_reach_handlers [OF reach_trans [OF assms(3,1)]], of j i] by simp
  then show ?thesis by (simp split: option.splits)
qed

theorem lt_blocked_for_ever_witness:
  "\<exists>s. reach (lt_exec ThreadServer) (lt_start (replicate 52 0)) s \<and> ss_phase (lt_sv s) (Writer 0) = HLost \<and>
     lt_exec ThreadServer s (THandler (HStart (Reader 5))) = None"
proof -
  define es where "es = [TClient (LTest 0), TClient (LCall 0 True []), TClient (LCall 0 True []),
    TClient (LCall 0 False []), TAccept 0 OP_WRITER (- 1), THandler (HStart (Writer 0)), THandler (HStep (Writer 0)),
    THandler (HSend (Writer 0) True)]"
  have "map_option (\<lambda>t. ss_phase (lt_sv t) (Writer 0)) (run (lt_exec ThreadServer) (lt_start (replicate 52 0)) es) = Some HLost"
    by (simp add: es_def lt_start_def lc_start_def ss_init_def ss_sems0_def lc_goto_def lc_link_def lc_fail_def lt_spawn_def
        handle_client_def OP_READER_def OP_WRITER_def ss_goto_def ss_eval0 sv_bad_index_def lt_answer_def Let_def lc_slot_def)
  then obtain s where s: "run (lt_exec ThreadServer) (lt_start (replicate 52 0)) es = Some s"
    "ss_phase (lt_sv s) (Writer 0) = HLost" by auto
  from run_reach_init [OF s(1)] have r: "reach (lt_exec ThreadServer) (lt_start (replicate 52 0)) s" .
  from lt_blocked_for_ever [OF r s(2) reach.reach_init, of 5] r s(2) show ?thesis by blast
qed

end
