(* ===== verification/Kernel_Base.thy ===== *)
theory Kernel_Base
  imports Prelude
begin

section \<open>What the kernel modules share\<close>

text \<open>
  Error codes, the entries a module has under /proc, and the iterators of the seq\_file interface.
\<close>

datatype kernel_error = K_ENOMEM | K_ENOSPC | K_EFAULT | K_EINVAL | K_OTHER int

text \<open>
  The three entries that fortune.c, seq.c and my\_module.c create, in the order of the sources:
  an entry with an outcome \<^term>\<open>False\<close> could not be created.
\<close>

datatype proc_entry = PFile | PDir | PLink

record proc_ledger =
  entries :: "proc_entry list"
  pot_allocated :: bool

definition no_entries :: proc_ledger where
  "no_entries = \<lparr>entries = [], pot_allocated = False\<rparr>"

definition proc_add :: "proc_entry \<Rightarrow> proc_ledger \<Rightarrow> proc_ledger" where
  "proc_add e l = l\<lparr>entries := entries l @ [e]\<rparr>"

definition proc_remove :: "proc_entry \<Rightarrow> proc_ledger \<Rightarrow> proc_ledger" where
  "proc_remove e l = l\<lparr>entries := removeAll e (entries l)\<rparr>"

text \<open>The test \<^verbatim>\<open>if (entry != NULL) remove_proc_entry(...)\<close>.\<close>

definition proc_remove_if :: "bool \<Rightarrow> proc_entry \<Rightarrow> proc_ledger \<Rightarrow> proc_ledger" where
  "proc_remove_if p e l = (if p then proc_remove e l else l)"

lemmas proc_defs = no_entries_def proc_add_def proc_remove_def proc_remove_if_def


subsection \<open>Iterators\<close>

text \<open>
  One traversal in the seq\_file protocol: \<open>start\<close> at a position, then \<open>next\<close> until it returns
  nothing; both yield the element to show. The length of the sequence bounds the calls.
\<close>

fun seq_traverse ::
  "('s \<Rightarrow> nat \<Rightarrow> 'v option) \<Rightarrow> ('s \<Rightarrow> nat \<Rightarrow> 'v option \<times> nat) \<Rightarrow> nat \<Rightarrow> 's \<Rightarrow> nat \<Rightarrow> 'v option \<Rightarrow> 'v list" where
  "seq_traverse start nxt 0 s pos v = []"
| "seq_traverse start nxt (Suc n) s pos None = []"
| "seq_traverse start nxt (Suc n) s pos (Some v) =
     (let (v', pos') = nxt s pos in v # seq_traverse start nxt n s pos' v')"

definition seq_elements ::
  "('s \<Rightarrow> nat \<Rightarrow> 'v option) \<Rightarrow> ('s \<Rightarrow> nat \<Rightarrow> 'v option \<times> nat) \<Rightarrow> nat \<Rightarrow> 's \<Rightarrow> nat \<Rightarrow> 'v list" where
  "seq_elements start nxt n s pos = seq_traverse start nxt n s pos (start s pos)"

locale seq_iterator =
  fixes start :: "'s \<Rightarrow> nat \<Rightarrow> 'v option"
    and nxt :: "'s \<Rightarrow> nat \<Rightarrow> 'v option \<times> nat"
    and elems :: "'s \<Rightarrow> 'v list"
  assumes start_elem: "start s pos = (if pos < length (elems s) then Some (elems s ! pos) else None)"
    and next_elem: "nxt s pos =
      (if Suc pos < length (elems s) then Some (elems s ! Suc pos) else None, Suc pos)"
begin

lemma traverse_drop:
  "length (elems s) - pos \<le> n \<Longrightarrow>
     seq_traverse start nxt n s pos (if pos < length (elems s) then Some (elems s ! pos) else None) =
     drop pos (elems s)"
proof (induction n arbitrary: pos)
  case 0
  then show ?case by simp
next
  case (Suc n)
  show ?case
  proof (cases "pos < length (elems s)")
    case True
    have "seq_traverse start nxt n s (Suc pos)
        (if Suc pos < length (elems s) then Some (elems s ! Suc pos) else None) = drop (Suc pos) (elems s)"
      using Suc.prems by (intro Suc.IH) simp
    then show ?thesis
      using True by (simp add: next_elem [of s pos] Let_def Cons_nth_drop_Suc)
  qed simp
qed

text \<open>A traversal from any position shows the elements from there on, each once, in order.\<close>

lemma elements_drop: "length (elems s) \<le> n \<Longrightarrow> seq_elements start nxt n s pos = drop pos (elems s)"
  using traverse_drop [of s pos n] by (simp add: seq_elements_def start_elem)

end

end
