(* ===== verification/Fortune.thy ===== *)
theory Fortune
  imports Kernel_Base
begin

section \<open>The fortune module\<close>

text \<open>
  Model of lab-module/task-03/fortune.c: a page of memory to which each write appends a message,
  and which each read gives back message by message. Lengths are compared in 64 bits, as the
  source does with a \<^verbatim>\<open>size_t\<close> and \<^verbatim>\<open>PAGE_SIZE\<close>; an access outside the page is
  \<^term>\<open>None\<close>.
\<close>

subsection \<open>State and operations\<close>

definition COOKIE_POT_SIZE :: nat where "COOKIE_POT_SIZE = 4096"

record fortune =
  cookiePot :: "int list"
  readInd :: int
  writeInd :: int

text \<open>
  \<^verbatim>\<open>fortuneWrite\<close>: \<open>copied\<close> is the number of bytes that \<^verbatim>\<open>copy_from_user\<close> can copy; it fills the
  rest of its target with zeros.
\<close>

definition fortuneWrite :: "nat \<Rightarrow> int list \<Rightarrow> fortune \<Rightarrow> (fortune \<times> (kernel_error + nat)) option" where
  "fortuneWrite copied buf s =
     (let len = length buf in
      if (word_of_nat len :: 64 word) > of_nat COOKIE_POT_SIZE - word_of_int (writeInd s) + 1
      then Some (s, Inl K_ENOSPC)
      else if writeInd s < 0 \<or> (0 < len \<and> int COOKIE_POT_SIZE < writeInd s + int len) then None
      else
        let w = nat (writeInd s);
            pot = take w (cookiePot s) @ take copied buf @ replicate (len - copied) 0 @
              drop (w + len) (cookiePot s);
            s1 = s\<lparr>cookiePot := pot\<rparr> in
        if copied < len then Some (s1, Inl K_EFAULT)
        else
          let w' = writeInd s + int len in
          if w' - 1 < 0 \<or> int COOKIE_POT_SIZE \<le> w' - 1 then None
          else Some (s1\<lparr>writeInd := w', cookiePot := pot[nat (w' - 1) := 0]\<rparr>, Inr len))"

text \<open>The C string that starts at an index, and what \<^verbatim>\<open>snprintf\<close> makes of it.\<close>

definition c_string_at :: "int list \<Rightarrow> nat \<Rightarrow> int list" where
  "c_string_at pot i = takeWhile (\<lambda>c. c \<noteq> 0) (drop i pot)"

definition snprintf_line :: "nat \<Rightarrow> int list \<Rightarrow> int list \<times> nat" where
  "snprintf_line limit str = (take (limit - 1) (str @ [10]) @ [0], length str + 1)"

text \<open>
  \<^verbatim>\<open>fortuneRead\<close>: the result holds the bytes copied to the user and the new file position. The
  length that the user asked for is not looked at.
\<close>

definition fortuneRead :: "bool \<Rightarrow> nat \<Rightarrow> int \<Rightarrow> fortune \<Rightarrow> (fortune \<times> int \<times> (kernel_error + int list)) option" where
  "fortuneRead copy_ok len fPos s =
     (if 0 < fPos \<or> writeInd s = 0 then Some (s, fPos, Inr [])
      else
        let r = (if writeInd s \<le> readInd s then 0 else readInd s) in
        if r < 0 \<or> int COOKIE_POT_SIZE \<le> r then None
        else
          let (tmpBuf, readLen) = snprintf_line COOKIE_POT_SIZE (c_string_at (cookiePot s) (nat r)) in
          if \<not> copy_ok then Some (s\<lparr>readInd := r\<rparr>, fPos, Inl K_EFAULT)
          else Some (s\<lparr>readInd := r + int readLen\<rparr>, fPos + int readLen, Inr (take readLen tmpBuf)))"


subsection \<open>Loading and unloading\<close>

definition freeMemory :: "bool \<Rightarrow> bool \<Rightarrow> bool \<Rightarrow> proc_ledger \<Rightarrow> proc_ledger" where
  "freeMemory f d k l =
     (proc_remove_if k PLink (proc_remove_if d PDir (proc_remove_if f PFile l)))\<lparr>pot_allocated := False\<rparr>"

definition fortune_init :: "bool \<Rightarrow> bool \<Rightarrow> bool \<Rightarrow> bool \<Rightarrow> proc_ledger \<Rightarrow> (kernel_error + fortune) \<times> proc_ledger" where
  "fortune_init mem_ok file_ok dir_ok link_ok l =
     (if \<not> mem_ok then (Inl K_ENOMEM, l)
      else
        let l1 = l\<lparr>pot_allocated := True\<rparr> in
        if \<not> file_ok then (Inl K_ENOMEM, freeMemory False False False l1)
        else
          let l2 = proc_add PFile l1 in
          if \<not> dir_ok then (Inl K_ENOMEM, freeMemory True False False l2)
          else
            let l3 = proc_add PDir l2 in
            if \<not> link_ok then (Inl K_ENOMEM, freeMemory True True False l3)
            else (Inr \<lparr>cookiePot = replicate COOKIE_POT_SIZE 0, readInd = 0, writeInd = 0\<rparr>, proc_add PLink l3))"

definition fortune_exit :: "proc_ledger \<Rightarrow> proc_ledger" where
  "fortune_exit l = freeMemory True True True l"

definition fortune_start :: fortune where
  "fortune_start = \<lparr>cookiePot = replicate COOKIE_POT_SIZE 0, readInd = 0, writeInd = 0\<rparr>"


subsection \<open>The page as a list of messages\<close>

text \<open>
  A message that a read can give back: not empty, and without a zero before its last byte, which
  the write overwrites.
\<close>

definition message_ok :: "int list \<Rightarrow> bool" where
  "message_ok m \<longleftrightarrow> m \<noteq> [] \<and> 0 \<notin> set (butlast m)"

definition stored :: "int list list \<Rightarrow> int list" where
  "stored ms = concat (map (\<lambda>m. butlast m @ [0]) ms)"

definition holds :: "fortune \<Rightarrow> int list list \<Rightarrow> bool" where
  "holds s ms \<longleftrightarrow> length (cookiePot s) = 4096 \<and> (\<forall>m \<in> set ms. message_ok m) \<and>
     writeInd s = int (length (stored ms)) \<and> length (stored ms) \<le> 4096 \<and>
     take (length (stored ms)) (cookiePot s) = stored ms"

lemma stored_simps [simp]:
  "stored [] = []" "stored (ms @ [m]) = stored ms @ butlast m @ [0]" "stored (m # ms) = butlast m @ 0 # stored ms"
  by (simp_all add: stored_def)

lemma stored_append: "stored (xs @ ys) = stored xs @ stored ys"
  by (simp add: stored_def)

lemma length_stored: "\<forall>m \<in> set ms. m \<noteq> [] \<Longrightarrow> length (stored ms) = sum_list (map length ms)"
  by (induction ms) auto

lemma holds_start: "holds fortune_start []"
  by (simp add: holds_def fortune_start_def COOKIE_POT_SIZE_def)

lemma write_check:
  assumes "0 \<le> w" and "w \<le> 4096" and "n < 2 ^ 64"
  shows "(word_of_nat n :: 64 word) > of_nat COOKIE_POT_SIZE - word_of_int w + 1 \<longleftrightarrow> 4097 < w + int n"
proof -
  obtain k where k: "w = int k" "k \<le> 4096" using assms(1,2) by (cases w rule: nonneg_int_cases) auto
  have "(of_nat COOKIE_POT_SIZE - word_of_int w + 1 :: 64 word) = word_of_nat (4097 - k)"
  proof -
    have "(word_of_nat (4097 - k) :: 64 word) + word_of_nat k = word_of_nat (4097 - k + k)"
      by (simp only: of_nat_add)
    also have "\<dots> = word_of_nat 4096 + 1" using k(2) by simp
    finally show ?thesis by (simp add: k(1) COOKIE_POT_SIZE_def algebra_simps)
  qed
  moreover have "unat (word_of_nat (4097 - k) :: 64 word) = 4097 - k"
    by (simp add: unat_of_nat)
  moreover have "unat (word_of_nat n :: 64 word) = n" using assms(3) by (simp add: unat_of_nat)
  ultimately show ?thesis using k by (simp add: word_less_nat_alt) linarith
qed


lemma list_update_length_append: "(xs @ ys)[length xs + k := v] = xs @ ys[k := v]"
  by (simp add: list_update_append)

lemma holds_write:
  assumes h: "holds s ms" and m: "message_ok m" and fit: "length (stored ms) + length m \<le> 4096"
    and c: "length m \<le> copied"
  shows "\<exists>t. fortuneWrite copied m s = Some (t, Inr (length m)) \<and> holds t (ms @ [m]) \<and> readInd t = readInd s"
proof -
  let ?w = "length (stored ms)"
  have w: "writeInd s = int ?w" and len: "length (cookiePot s) = 4096"
    and tk: "take ?w (cookiePot s) = stored ms" using h by (simp_all add: holds_def)
  have pos: "0 < length m" using m by (simp add: message_ok_def)
  have chk: "\<not> (word_of_nat (length m) :: 64 word) > of_nat COOKIE_POT_SIZE - word_of_int (int ?w) + 1"
    using write_check [of "int ?w" "length m"] fit by simp
  define pot where "pot = (take ?w (cookiePot s) @ m @ drop (?w + length m) (cookiePot s))[?w + length m - 1 := 0]"
  have upd: "pot = stored ms @ (butlast m @ [0]) @ drop (?w + length m) (cookiePot s)"
  proof -
    have "(m @ xs)[length m - 1 := 0] = (butlast m @ [0]) @ xs" for xs :: "int list"
      using pos by (cases m rule: rev_cases) (simp_all add: list_update_append)
    moreover have "?w + length m - 1 = length (stored ms) + (length m - 1)" using pos by (cases m) simp_all
    ultimately show ?thesis
      unfolding pot_def tk by (simp only: list_update_length_append append_assoc)
  qed
  have eq: "fortuneWrite copied m s = Some (s\<lparr>writeInd := int ?w + int (length m), cookiePot := pot\<rparr>, Inr (length m))"
  proof -
    have n: "nat (int ?w + int (length m) - 1) = ?w + length m - 1" using pos by simp
    have sz: "int COOKIE_POT_SIZE = 4096" by (simp add: COOKIE_POT_SIZE_def)
    have nn: "\<not> int ?w + int (length m) < 1" using pos by linarith
    show ?thesis
      using pos fit c chk nn unfolding fortuneWrite_def Let_def w sz n
      by (simp add: pot_def)
  qed
  have "holds (s\<lparr>writeInd := int ?w + int (length m), cookiePot := pot\<rparr>) (ms @ [m])"
  proof -
    obtain a x where mx: "m = a @ [x]" using pos by (cases m rule: rev_cases) auto
    show ?thesis using h m fit len unfolding holds_def upd mx by (auto simp: message_ok_def)
  qed
  with eq show ?thesis by simp
qed

text \<open>A read that starts at a message returns it and moves on to the next.\<close>

lemma holds_read:
  assumes h: "holds s (xs @ m # ys)" and r: "readInd s = int (length (stored xs)) \<or>
      xs = [] \<and> readInd s = writeInd s" and l: "length m < 4096"
  shows "fortuneRead True n 0 s = Some (s\<lparr>readInd := int (length (stored xs) + length m)\<rparr>, int (length m),
      Inr (butlast m @ [10]))"
proof -
  let ?i = "length (stored xs)"
  let ?w = "length (stored (xs @ m # ys))"
  have w: "writeInd s = int ?w" and len: "length (cookiePot s) = 4096" and le: "?w \<le> 4096"
    and tk: "take ?w (cookiePot s) = stored (xs @ m # ys)" and m: "message_ok m"
    using h by (simp_all add: holds_def)
  have wl: "?w = ?i + length (stored (m # ys))" by (simp add: stored_append)
  have iw: "?i < ?w" unfolding wl by simp
  have start: "(if writeInd s \<le> readInd s then 0 else readInd s) = int ?i"
    using r iw w by auto
  have pot: "cookiePot s = stored xs @ butlast m @ 0 # stored ys @ drop ?w (cookiePot s)"
    using append_take_drop_id [of ?w "cookiePot s"] unfolding tk by (simp add: stored_append)
  have "c_string_at (cookiePot s) ?i = butlast m"
  proof -
    have "drop ?i (cookiePot s) = butlast m @ 0 # stored ys @ drop ?w (cookiePot s)" by (subst pot) simp
    moreover have "takeWhile (\<lambda>c. c \<noteq> 0) (butlast m @ 0 # rest) = butlast m" for rest
      using m by (subst takeWhile_append2) (auto simp: message_ok_def)
    ultimately show ?thesis by (simp only: c_string_at_def)
  qed
  moreover have "length (butlast m) + 1 = length m" using m by (simp add: message_ok_def)
  moreover have "take (length m) (take 4095 (butlast m @ [10]) @ [0 :: int]) = butlast m @ [10]"
    using l m by (cases m rule: rev_cases) (simp_all add: message_ok_def)
  moreover have "\<not> (int ?i < 0 \<or> 4096 \<le> int ?i)" using iw le by simp
  moreover have "writeInd s \<noteq> 0" using iw w by linarith
  ultimately show ?thesis
    unfolding fortuneRead_def start Let_def snprintf_line_def COOKIE_POT_SIZE_def by simp
qed

text \<open>Sequences of successful writes, and of reads that start at position 0 of a freshly opened file.\<close>

fun fortune_writes :: "int list list \<Rightarrow> fortune \<Rightarrow> fortune option" where
  "fortune_writes [] s = Some s"
| "fortune_writes (m # ms) s =
     (case fortuneWrite (length m) m s of
        Some (t, Inr _) \<Rightarrow> fortune_writes ms t
      | _ \<Rightarrow> None)"

fun fortune_reads :: "nat \<Rightarrow> fortune \<Rightarrow> (fortune \<times> int list list) option" where
  "fortune_reads 0 s = Some (s, [])"
| "fortune_reads (Suc n) s =
     (case fortuneRead True COOKIE_POT_SIZE 0 s of
        Some (t, _, Inr b) \<Rightarrow> (case fortune_reads n t of Some (u, bs) \<Rightarrow> Some (u, b # bs) | None \<Rightarrow> None)
      | _ \<Rightarrow> None)"

lemma fortune_writes_holds:
  "holds s ms \<Longrightarrow> \<forall>m \<in> set ns. message_ok m \<Longrightarrow> length (stored ms) + sum_list (map length ns) \<le> 4096 \<Longrightarrow>
     \<exists>t. fortune_writes ns s = Some t \<and> holds t (ms @ ns) \<and> readInd t = readInd s"
proof (induction ns arbitrary: s ms)
  case Nil
  then show ?case by simp
next
  case (Cons n ns)
  have "message_ok n" "length (stored ms) + length n \<le> 4096" using Cons.prems by simp_all
  from holds_write [OF Cons.prems(1) this order_refl]
  obtain t where t: "fortuneWrite (length n) n s = Some (t, Inr (length n))" "holds t (ms @ [n])"
    "readInd t = readInd s" by blast
  have "n \<noteq> []" using Cons.prems(2) by (simp add: message_ok_def)
  then have "length (stored (ms @ [n])) = length (stored ms) + length n" by simp
  then have "length (stored (ms @ [n])) + sum_list (map length ns) \<le> 4096" using Cons.prems(3) by simp
  from Cons.IH [OF t(2) _ this] Cons.prems(2) t show ?case by simp
qed

lemma fortune_reads_from:
  "holds s (xs @ ys) \<Longrightarrow> readInd s = int (length (stored xs)) \<or> xs = [] \<and> readInd s = writeInd s \<Longrightarrow>
     \<forall>m \<in> set ys. length m < 4096 \<Longrightarrow> ys \<noteq> [] \<Longrightarrow>
     \<exists>t. fortune_reads (length ys) s = Some (t, map (\<lambda>m. butlast m @ [10]) ys) \<and>
       holds t (xs @ ys) \<and> readInd t = writeInd t"
proof (induction ys arbitrary: s xs)
  case Nil
  then show ?case by simp
next
  case (Cons m ys)
  define t where "t = s\<lparr>readInd := int (length (stored xs) + length m)\<rparr>"
  have r: "fortuneRead True COOKIE_POT_SIZE 0 s = Some (t, int (length m), Inr (butlast m @ [10]))"
    unfolding t_def using Cons.prems by (intro holds_read) auto
  have h: "holds t ((xs @ [m]) @ ys)" using Cons.prems(1) by (simp add: holds_def t_def)
  have "m \<noteq> []" using Cons.prems(1) by (simp add: holds_def message_ok_def)
  then have ri: "readInd t = int (length (stored (xs @ [m])))" by (simp add: t_def)
  show ?case
  proof (cases "ys = []")
    case True
    then have "readInd t = writeInd t" using h ri by (simp add: holds_def)
    with True r h show ?thesis by simp
  next
    case False
    from Cons.IH [OF h _ _ False] ri Cons.prems(3)
    obtain u where "fortune_reads (length ys) t = Some (u, map (\<lambda>m. butlast m @ [10]) ys)"
      "holds u ((xs @ [m]) @ ys)" "readInd u = writeInd u" by auto
    with r show ?thesis by simp
  qed
qed

lemma fortune_reads_add:
  "fortune_reads m s = Some (t, as) \<Longrightarrow> fortune_reads n t = Some (u, bs) \<Longrightarrow>
     fortune_reads (m + n) s = Some (u, as @ bs)"
  by (induction m arbitrary: s as) (auto split: option.splits sum.splits prod.splits)

lemma holds_bounds: "holds s ms \<Longrightarrow> 0 \<le> writeInd s \<and> writeInd s \<le> 4096"
  by (simp add: holds_def)


subsection \<open>Properties\<close>

text \<open>C25: what has been written is read back: messages that fit into the page come back one per read,
  in the order of the writes, each with a newline in place of its last byte, and after the last
  one the reads start again with the first.\<close>

theorem fortune_round_trip:
  assumes "\<forall>m \<in> set ms. message_ok m \<and> length m < 4096" and "sum_list (map length ms) \<le> 4096" and "ms \<noteq> []"
  shows "\<exists>s t. fortune_writes ms fortune_start = Some s \<and>
    fortune_reads (length ms + length ms) s =
      Some (t, map (\<lambda>m. butlast m @ [10]) ms @ map (\<lambda>m. butlast m @ [10]) ms)"
proof -
  obtain s where s: "fortune_writes ms fortune_start = Some s" "holds s ms" "readInd s = 0"
    using fortune_writes_holds [OF holds_start, of ms] assms by (auto simp: fortune_start_def)
  obtain t where t: "fortune_reads (length ms) s = Some (t, map (\<lambda>m. butlast m @ [10]) ms)"
    "holds t ms" "readInd t = writeInd t"
    using fortune_reads_from [of s "[]" ms] s assms by auto
  obtain u where "fortune_reads (length ms) t = Some (u, map (\<lambda>m. butlast m @ [10]) ms)"
    using fortune_reads_from [of t "[]" ms] t assms by auto
  from fortune_reads_add [OF t(1) this] s(1) show ?thesis by blast
qed

theorem fortune_round_trip_witness:
  "\<exists>s t. fortune_writes [[104, 105, 10], [98, 10]] fortune_start = Some s \<and>
     fortune_reads 4 s = Some (t, [[104, 105, 10], [98, 10], [104, 105, 10], [98, 10]])"
proof -
  have "\<forall>m \<in> set [[104, 105, 10], [98, 10]]. message_ok m \<and> length m < 4096"
    by (simp add: message_ok_def)
  from fortune_round_trip [OF this] show ?thesis by (simp add: numeral_eq_Suc)
qed

text \<open>In every state with a write index inside the page, the length check of a write lets
  exactly two accesses outside the page pass: a write of one byte more than there is room for,
  and a write of length 0 to the empty page, which clears the byte before it.\<close>

theorem fortune_write_bounds:
  assumes "0 \<le> writeInd s" and "writeInd s \<le> 4096" and "length buf < 2 ^ 64"
  shows "fortuneWrite copied buf s = None \<longleftrightarrow>
    writeInd s + int (length buf) = 4097 \<and> buf \<noteq> [] \<or>
    writeInd s = 0 \<and> buf = []"
proof -
  have sz: "int COOKIE_POT_SIZE = 4096" by (simp add: COOKIE_POT_SIZE_def)
  show ?thesis
  proof (cases "4097 < writeInd s + int (length buf)")
    case True
    then have "fortuneWrite copied buf s = Some (s, Inl K_ENOSPC)"
      using write_check [OF assms] by (simp add: fortuneWrite_def Let_def)
    then show ?thesis using True assms(2) by auto
  next
    case False
    then have chk: "\<not> (word_of_nat (length buf) :: 64 word) > of_nat COOKIE_POT_SIZE - word_of_int (writeInd s) + 1"
      using write_check [OF assms] by simp
    show ?thesis using assms(1,2) False chk unfolding fortuneWrite_def Let_def sz
      by (cases buf) auto
  qed
qed

theorem fortune_write_bounds_witness:
  "fortuneWrite 4097 (replicate 4097 65) fortune_start = None \<and> fortuneWrite 0 [] fortune_start = None"
  using fortune_write_bounds [of fortune_start "replicate 4097 65" 4097]
    fortune_write_bounds [of fortune_start "[]" 0]
  by (simp add: fortune_start_def)

text \<open>A read copies the whole message whatever length the user asked for, and a second read at
  the position that the first has returned yields nothing.\<close>

theorem fortune_read_length:
  assumes "holds s (m # ms)" and "readInd s = 0" and "length m < 4096"
  shows "\<exists>t p out. fortuneRead True len 0 s = Some (t, p, Inr out) \<and> length out = length m \<and>
    fortuneRead True len p t = Some (t, p, Inr [])"
proof -
  have "m \<noteq> []" using assms(1) by (simp add: holds_def message_ok_def)
  with holds_read [of s "[]" m ms len] assms show ?thesis by (simp add: fortuneRead_def)
qed

theorem fortune_read_length_witness:
  "\<exists>t p out. fortuneRead True 1 0 (fortune_start\<lparr>cookiePot := [104, 105, 0] @ replicate 4093 0, writeInd := 3\<rparr>) =
     Some (t, p, Inr out) \<and> length out = 3"
proof -
  let ?s = "fortune_start\<lparr>cookiePot := [104, 105, 0] @ replicate 4093 0, writeInd := 3\<rparr>"
  have "holds ?s [[104, 105, 10]]" by (simp add: holds_def message_ok_def fortune_start_def)
  from fortune_read_length [OF this, of 1] show ?thesis by (auto simp: fortune_start_def)
qed

text \<open>Loading either succeeds with the three entries and the page, which unloading removes, or
  fails with nothing left behind.\<close>

theorem fortune_load_unload:
  "(case fortune_init mem_ok file_ok dir_ok link_ok no_entries of
      (Inl e, l) \<Rightarrow> e = K_ENOMEM \<and> l = no_entries \<and> \<not> (mem_ok \<and> file_ok \<and> dir_ok \<and> link_ok)
    | (Inr s, l) \<Rightarrow> mem_ok \<and> file_ok \<and> dir_ok \<and> link_ok \<and> s = fortune_start \<and>
        entries l = [PFile, PDir, PLink] \<and> fortune_exit l = no_entries)"
  by (simp add: fortune_init_def freeMemory_def fortune_exit_def fortune_start_def proc_defs Let_def)

end
