(* ===== verification/Seq_Pids.thy ===== *)
theory Seq_Pids
  imports Kernel_Base
begin

section \<open>The modules that show processes\<close>

text \<open>
  Models of lab-module/task-04: task-seq-iter/seq.c, which shows one process at a time through the
  four functions of a seq\_file iterator, and task-seq-single/my\_module.c, which shows all of them in
  one call. The kernel's number parser, its lookup of processes and the process data are
  parameters: \<open>parse\<close> stands for \<^verbatim>\<open>kstrtoint(.., 10, ..)\<close> and \<open>task\<close> for
  \<^verbatim>\<open>get_pid_task(find_get_pid(..))\<close>.
\<close>

subsection \<open>State\<close>

definition MAX_PIDS :: nat where "MAX_PIDS = 3"

record seq_pids =
  sq_pids :: "int list"
  count_pids :: nat

definition seq_initial :: seq_pids where
  "seq_initial = \<lparr>sq_pids = [- 1, - 1, - 1], count_pids = 0\<rparr>"

record task_info =
  ti_policy :: int
  ti_prio :: int
  ti_flags :: int
  ti_state :: int
  ti_stime :: int
  ti_utime :: int

datatype seq_line = InvalidPid | NotFound int | Information int task_info | NoPids


subsection \<open>The iterator\<close>

text \<open>A pointer into the array is its index; \<^term>\<open>None\<close> is the null pointer.\<close>

definition seq_start :: "seq_pids \<Rightarrow> nat \<Rightarrow> nat option" where
  "seq_start s pos = (if pos < count_pids s then Some pos else None)"

definition seq_next :: "seq_pids \<Rightarrow> nat \<Rightarrow> nat option \<times> nat" where
  "seq_next s pos = (if pos + 1 < count_pids s then Some (pos + 1) else None, pos + 1)"

definition seq_show :: "(int \<Rightarrow> task_info option) \<Rightarrow> seq_pids \<Rightarrow> nat \<Rightarrow> seq_line" where
  "seq_show task s v =
     (let pid = sq_pids s ! v in
      if pid < 0 then InvalidPid
      else case task pid of
        None \<Rightarrow> NotFound pid
      | Some t \<Rightarrow> Information pid t)"

text \<open>The single-shot variant.\<close>

definition single_show :: "(int \<Rightarrow> task_info option) \<Rightarrow> seq_pids \<Rightarrow> seq_line list" where
  "single_show task s =
     (if count_pids s = 0 then [NoPids]
      else map (\<lambda>i. let pid = sq_pids s ! i in
                  case task pid of Some t \<Rightarrow> Information pid t | None \<Rightarrow> NotFound pid)
             [0..<count_pids s])"


subsection \<open>Writing a process id\<close>

text \<open>
  \<^verbatim>\<open>my_write\<close> of both modules. The buffer on the stack has 32 bytes; the text handed to the
  parser ends at the first zero.
\<close>

definition my_write_iter ::
  "(int list \<Rightarrow> int option) \<Rightarrow> bool \<Rightarrow> int list \<Rightarrow> seq_pids \<Rightarrow> seq_pids \<times> (kernel_error + nat)" where
  "my_write_iter parse copy_ok buf s =
     (let len = length buf in
      if 32 \<le> len then (s, Inl K_EINVAL)
      else if \<not> copy_ok then (s, Inl K_EFAULT)
      else
        let kbuf = buf @ [0];
            kbuf' = (if 0 < len \<and> kbuf ! (len - 1) = 10 then kbuf[len - 1 := 0] else kbuf) in
        if MAX_PIDS \<le> count_pids s then (s, Inl K_EINVAL)
        else case parse (takeWhile (\<lambda>c. c \<noteq> 0) kbuf') of
          None \<Rightarrow> (s, Inl K_EINVAL)
        | Some pid \<Rightarrow>
            (s\<lparr>sq_pids := (sq_pids s)[count_pids s := pid], count_pids := count_pids s + 1\<rparr>, Inr len))"

definition my_write_single ::
  "(int list \<Rightarrow> int option) \<Rightarrow> bool \<Rightarrow> int list \<Rightarrow> seq_pids \<Rightarrow> seq_pids \<times> (kernel_error + nat)" where
  "my_write_single parse copy_ok buf s =
     (let len = length buf in
      if 32 - 1 < len then (s, Inl K_EINVAL)
      else if \<not> copy_ok then (s, Inl K_EFAULT)
      else
        let char_buf = buf @ [0];
            char_buf' = (if 0 < len \<and> char_buf ! (len - 1) = 10 then char_buf[len - 1 := 0] else char_buf) in
        if MAX_PIDS \<le> count_pids s then (s, Inl K_EINVAL)
        else case parse (takeWhile (\<lambda>c. c \<noteq> 0) char_buf') of
          None \<Rightarrow> (s, Inl K_EINVAL)
        | Some pid \<Rightarrow>
            (s\<lparr>sq_pids := (sq_pids s)[count_pids s := pid], count_pids := count_pids s + 1\<rparr>, Inr len))"

fun seq_writes :: "(int list \<Rightarrow> int option) \<Rightarrow> int list list \<Rightarrow> seq_pids \<Rightarrow> seq_pids" where
  "seq_writes parse [] s = s"
| "seq_writes parse (b # bs) s = seq_writes parse bs (fst (my_write_iter parse True b s))"


subsection \<open>Loading and unloading\<close>

definition seq_free_resources :: "bool \<Rightarrow> bool \<Rightarrow> bool \<Rightarrow> proc_ledger \<Rightarrow> proc_ledger" where
  "seq_free_resources k f d l = proc_remove_if d PDir (proc_remove_if f PFile (proc_remove_if k PLink l))"

definition seq_init :: "bool \<Rightarrow> bool \<Rightarrow> bool \<Rightarrow> proc_ledger \<Rightarrow> kernel_error option \<times> proc_ledger" where
  "seq_init dir_ok file_ok link_ok l =
     (if \<not> dir_ok then (Some K_ENOMEM, l)
      else
        let l1 = proc_add PDir l in
        if \<not> file_ok then (Some K_ENOMEM, seq_free_resources False False True l1)
        else
          let l2 = proc_add PFile l1 in
          if \<not> link_ok then (Some K_ENOMEM, seq_free_resources False True True l2)
          else (None, proc_add PLink l2))"

definition seq_exit :: "proc_ledger \<Rightarrow> proc_ledger" where
  "seq_exit l = seq_free_resources True True True l"

definition single_init :: "bool \<Rightarrow> bool \<Rightarrow> bool \<Rightarrow> proc_ledger \<Rightarrow> kernel_error option \<times> proc_ledger" where
  "single_init dir_ok file_ok link_ok l =
     (if \<not> dir_ok then (Some K_ENOMEM, l)
      else
        let l1 = proc_add PDir l in
        if \<not> file_ok then (Some K_ENOMEM, proc_remove PDir l1)
        else
          let l2 = proc_add PFile l1 in
          if \<not> link_ok then (Some K_ENOMEM, proc_remove PDir (proc_remove PFile l2))
          else (None, proc_add PLink l2))"

definition single_exit :: "proc_ledger \<Rightarrow> proc_ledger" where
  "single_exit l = proc_remove_if True PDir (proc_remove_if True PFile (proc_remove_if True PLink l))"


subsection \<open>Lemmas\<close>

definition seq_inv :: "seq_pids \<Rightarrow> bool" where
  "seq_inv s \<longleftrightarrow> length (sq_pids s) = 3 \<and> count_pids s \<le> 3"

text \<open>The iterator is a traversal of the indices below the count.\<close>

interpretation seq_it: seq_iterator seq_start seq_next "\<lambda>s. [0..<count_pids s]"
  by unfold_locales (auto simp: seq_start_def seq_next_def)

definition seq_output :: "(int \<Rightarrow> task_info option) \<Rightarrow> seq_pids \<Rightarrow> seq_line list" where
  "seq_output task s = map (seq_show task s) (seq_elements seq_start seq_next MAX_PIDS s 0)"

lemma seq_output_eq:
  "count_pids s \<le> 3 \<Longrightarrow> seq_output task s = map (seq_show task s) [0..<count_pids s]"
  using seq_it.elements_drop [of s MAX_PIDS 0] by (simp add: seq_output_def MAX_PIDS_def)

lemma my_write_iter_inv: "seq_inv s \<Longrightarrow> seq_inv (fst (my_write_iter parse copy_ok buf s))"
  by (auto simp: seq_inv_def my_write_iter_def Let_def MAX_PIDS_def split: option.splits)

text \<open>The text of a line without its newline, as the parser gets it.\<close>

definition line_of :: "int list \<Rightarrow> int list" where
  "line_of t = t @ [10]"

lemma my_write_line:
  assumes "0 \<notin> set t" and "length t < 31" and "count_pids s < 3" and "parse t = Some pid"
  shows "my_write_iter parse True (line_of t) s =
    (s\<lparr>sq_pids := (sq_pids s)[count_pids s := pid], count_pids := count_pids s + 1\<rparr>, Inr (length t + 1))"
proof -
  have "takeWhile (\<lambda>c. c \<noteq> 0) (t @ [0, 0]) = t"
    using assms(1) by (subst takeWhile_append2) auto
  moreover have "(t @ [10, 0])[length t := 0] = t @ [0, 0 :: int]" by (simp add: list_update_append)
  ultimately show ?thesis
    using assms(2-4) by (simp add: my_write_iter_def line_of_def MAX_PIDS_def nth_append Let_def)
qed


subsection \<open>Properties\<close>

text \<open>A traversal from a position shows the stored ids from there on, each once and in the order in
  which they were written; it makes at most as many steps as the array has cells.\<close>

theorem seq_shows_in_order:
  assumes "seq_inv s"
  shows "map (\<lambda>v. sq_pids s ! v) (seq_elements seq_start seq_next MAX_PIDS s pos) =
    drop pos (take (count_pids s) (sq_pids s))"
proof -
  have "seq_elements seq_start seq_next MAX_PIDS s pos = drop pos [0..<count_pids s]"
    using seq_it.elements_drop [of s MAX_PIDS pos] assms by (simp add: seq_inv_def MAX_PIDS_def)
  moreover have "map (\<lambda>v. sq_pids s ! v) [0..<count_pids s] = take (count_pids s) (sq_pids s)"
    using assms by (simp add: seq_inv_def map_nth_upt_take)
  ultimately show ?thesis by (simp only: drop_map [symmetric])
qed

theorem seq_shows_in_order_witness:
  "map (\<lambda>v. [7, 8, 9] ! v) (seq_elements seq_start seq_next MAX_PIDS \<lparr>sq_pids = [7, 8, 9], count_pids = 2\<rparr> 1) = [8 :: int]"
  using seq_shows_in_order [of "\<lparr>sq_pids = [7, 8, 9], count_pids = 2\<rparr>" 1] by (simp add: seq_inv_def)

text \<open>Three lines with numbers are stored in their order; every further write is refused and
  changes nothing.\<close>

theorem seq_write_store:
  assumes "\<forall>t \<in> {a, b, c}. 0 \<notin> set t \<and> length t < 31"
    and "parse a = Some p" and "parse b = Some q" and "parse c = Some r"
  shows "sq_pids (seq_writes parse [line_of a, line_of b, line_of c] seq_initial) = [p, q, r] \<and>
    my_write_iter parse True buf (seq_writes parse [line_of a, line_of b, line_of c] seq_initial) =
      (seq_writes parse [line_of a, line_of b, line_of c] seq_initial, Inl K_EINVAL)"
proof -
  have s: "seq_writes parse [line_of a, line_of b, line_of c] seq_initial = \<lparr>sq_pids = [p, q, r], count_pids = 3\<rparr>"
    using assms by (simp add: my_write_line seq_initial_def)
  show ?thesis unfolding s by (simp add: my_write_iter_def MAX_PIDS_def Let_def)
qed

theorem seq_write_store_witness:
  "sq_pids (seq_writes (\<lambda>t. Some (int (length t))) [line_of [49], line_of [49, 50], line_of []] seq_initial) = [1, 2, 0]"
  using seq_write_store [of "[49]" "[49, 50]" "[]" "\<lambda>t. Some (int (length t))" 1 2 0 "[]"] by simp

text \<open>The two modules accept the same writes, and show the same lines for a non-empty list of
  ids that are not negative.\<close>

theorem seq_modules_agree:
  assumes "seq_inv s" and "0 < count_pids s" and "\<forall>p \<in> set (take (count_pids s) (sq_pids s)). 0 \<le> p"
  shows "my_write_iter parse copy_ok buf s = my_write_single parse copy_ok buf s \<and>
    seq_output task s = single_show task s"
proof -
  have "seq_show task s v = (let pid = sq_pids s ! v in
      case task pid of Some t \<Rightarrow> Information pid t | None \<Rightarrow> NotFound pid)" if "v < count_pids s" for v
  proof -
    have "sq_pids s ! v \<in> set (take (count_pids s) (sq_pids s))"
      using that assms(1) by (auto simp: in_set_conv_nth seq_inv_def intro!: exI [of _ v])
    then have "\<not> sq_pids s ! v < 0" using assms(3) by auto
    then show ?thesis by (simp add: seq_show_def Let_def split: option.splits)
  qed
  then have "seq_output task s = single_show task s"
    using assms(1,2) by (simp add: seq_output_eq seq_inv_def single_show_def)
  moreover have "my_write_iter parse copy_ok buf s = my_write_single parse copy_ok buf s"
    by (auto simp: my_write_iter_def my_write_single_def Let_def)
  ultimately show ?thesis by blast
qed

theorem seq_modules_agree_witness:
  "seq_output (\<lambda>_. None) \<lparr>sq_pids = [7, 8, - 1], count_pids = 2\<rparr> = single_show (\<lambda>_. None) \<lparr>sq_pids = [7, 8, - 1], count_pids = 2\<rparr>"
  using seq_modules_agree [of "\<lparr>sq_pids = [7, 8, - 1], count_pids = 2\<rparr>"] by (simp add: seq_inv_def)

text \<open>Both modules load completely or leave nothing behind, and unloading removes what loading
  has created.\<close>

theorem seq_load_unload:
  "(case seq_init d f k no_entries of
      (Some e, l) \<Rightarrow> e = K_ENOMEM \<and> l = no_entries \<and> \<not> (d \<and> f \<and> k)
    | (None, l) \<Rightarrow> d \<and> f \<and> k \<and> entries l = [PDir, PFile, PLink] \<and> seq_exit l = no_entries) \<and>
   single_init d f k no_entries = seq_init d f k no_entries \<and> single_exit l' = seq_exit l'"
  by (simp add: seq_init_def single_init_def seq_free_resources_def seq_exit_def single_exit_def proc_defs Let_def)

end
