(* ===== verification/Proc_Sessions.thy ===== *)
theory Proc_Sessions
  imports Seq_Pids
begin

section \<open>Writers and readers of a file under /proc at the same time\<close>

text \<open>
  lab-module/task-04/task-seq-iter/seq.c without the assumption that one call ends before the next
  begins. Nothing in the module, and nothing that calls it, excludes two writers from each other, or a writer
  from a reader. The writers come statement by statement; the functions of the iterator come one at a time,
  with writes in between.
\<close>

subsection \<open>Writers\<close>

text \<open>
  A writer inside \<^verbatim>\<open>my_write\<close>: it has its text in its own buffer, it has passed the test of the count,
  it has the number, and then the three accesses of \<^verbatim>\<open>pids[count_pids++] = pid\<close>: it has loaded the
  count, it has stored the count raised by one, it has stored the number; C leaves the order of the two stores open,
  and the model takes this one. \<open>SwDone\<close> holds the result. A number
  stored outside the array is recorded.
\<close>

datatype sw_pc = SwIdle | SwCopied "int list" | SwChecked "int list" | SwParsed int | SwLoaded nat int
  | SwIndexed nat int  | SwDone "kernel_error + nat"

record sw_sys =
  sw_mem :: seq_pids
  sw_pc :: "nat \<Rightarrow> sw_pc"
  sw_outside :: "(nat \<times> int) list"

definition sw_goto :: "nat \<Rightarrow> sw_pc \<Rightarrow> sw_sys \<Rightarrow> sw_sys" where
  "sw_goto w p s = s\<lparr>sw_pc := (sw_pc s)(w := p)\<rparr>"

text \<open>The text that the parser gets: the bytes of the user without a last newline, up to the first zero.\<close>

definition sw_text :: "int list \<Rightarrow> int list" where
  "sw_text buf =
     (let len = length buf;
          kbuf = buf @ [0];
          kbuf' = (if 0 < len \<and> kbuf ! (len - 1) = 10 then kbuf[len - 1 := 0] else kbuf)
      in takeWhile (\<lambda>c. c \<noteq> 0) kbuf')"

text \<open>The next statement of writer \<open>w\<close> with the bytes \<open>buf w\<close>; \<open>copy_ok\<close> is the answer of \<^verbatim>\<open>copy_from_user\<close>.\<close>

definition sw_exec :: "(int list \<Rightarrow> int option) \<Rightarrow> (nat \<Rightarrow> int list) \<Rightarrow> sw_sys \<Rightarrow> nat \<times> bool \<Rightarrow> sw_sys option" where
  "sw_exec parse buf s e =
     (let (w, copy_ok) = e in
      case sw_pc s w of
        SwIdle \<Rightarrow> Some (sw_goto w
          (if 32 \<le> length (buf w) then SwDone (Inl K_EINVAL)
           else if \<not> copy_ok then SwDone (Inl K_EFAULT)
           else SwCopied (sw_text (buf w))) s)
      | SwCopied t \<Rightarrow> Some (sw_goto w
          (if MAX_PIDS \<le> count_pids (sw_mem s) then SwDone (Inl K_EINVAL) else SwChecked t) s)
      | SwChecked t \<Rightarrow> Some (sw_goto w
          (case parse t of None \<Rightarrow> SwDone (Inl K_EINVAL) | Some pid \<Rightarrow> SwParsed pid) s)
      | SwParsed pid \<Rightarrow> Some (sw_goto w (SwLoaded (count_pids (sw_mem s)) pid) s)
      | SwLoaded i pid \<Rightarrow>
          Some (sw_goto w (SwIndexed i pid) (s\<lparr>sw_mem := (sw_mem s)\<lparr>count_pids := i + 1\<rparr>\<rparr>))
      | SwIndexed i pid \<Rightarrow>
          let m = sw_mem s; s' = sw_goto w (SwDone (Inr (length (buf w)))) s in
          Some (if i < MAX_PIDS then s'\<lparr>sw_mem := m\<lparr>sq_pids := (sq_pids m)[i := pid]\<rparr>\<rparr>
                else s'\<lparr>sw_outside := sw_outside s @ [(i, pid)]\<rparr>)
      | SwDone r \<Rightarrow> None)"

definition sw_start :: "seq_pids \<Rightarrow> sw_sys" where
  "sw_start m = \<lparr>sw_mem = m, sw_pc = (\<lambda>_. SwIdle), sw_outside = []\<rparr>"

text \<open>A writer alone is the function of Seq\_Pids.\<close>

fun sw_alone :: "(int list \<Rightarrow> int option) \<Rightarrow> (nat \<Rightarrow> int list) \<Rightarrow> nat \<Rightarrow> bool \<Rightarrow> nat \<Rightarrow> sw_sys \<Rightarrow> sw_sys" where
  "sw_alone parse buf w ok 0 s = s"
| "sw_alone parse buf w ok (Suc n) s =
     (case sw_exec parse buf s (w, ok) of None \<Rightarrow> s | Some t \<Rightarrow> sw_alone parse buf w ok n t)"

lemma my_write_iter_text:
  "my_write_iter parse copy_ok buf s =
     (if 32 \<le> length buf then (s, Inl K_EINVAL)
      else if \<not> copy_ok then (s, Inl K_EFAULT)
      else if MAX_PIDS \<le> count_pids s then (s, Inl K_EINVAL)
      else case parse (sw_text buf) of
        None \<Rightarrow> (s, Inl K_EINVAL)
      | Some pid \<Rightarrow> (s\<lparr>sq_pids := (sq_pids s)[count_pids s := pid], count_pids := count_pids s + 1\<rparr>, Inr (length buf)))"
  by (simp add: my_write_iter_def sw_text_def Let_def)

lemmas sw_defs = sw_exec_def sw_goto_def Let_def

lemma sw_alone_done: "sw_pc s w = SwDone r \<Longrightarrow> sw_alone parse buf w ok n s = s"
  by (cases n) (simp_all add: sw_defs)

lemma sw_alone_eq:
  assumes "sw_pc s w = SwIdle"
  shows "sw_alone parse buf w ok 6 s =
    (let (m, r) = my_write_iter parse ok (buf w) (sw_mem s) in s\<lparr>sw_mem := m, sw_pc := (sw_pc s)(w := SwDone r)\<rparr>)"
proof -
  have six: "(6 :: nat) = Suc (Suc (Suc (Suc (Suc (Suc 0)))))" by simp
  show ?thesis
    using assms
    by (cases "parse (sw_text (buf w))")
      (simp_all add: six my_write_iter_text sw_alone_done sw_defs MAX_PIDS_def)
qed


subsection \<open>How far writers can go\<close>

text \<open>Writers that have stored the count: each has raised it by at most one.\<close>

fun sw_stored :: "sw_pc \<Rightarrow> bool" where
  "sw_stored (SwIndexed i pid) = True"
| "sw_stored (SwDone (Inr k)) = True"
| "sw_stored _ = False"

definition sw_raised :: "nat \<Rightarrow> sw_sys \<Rightarrow> nat" where
  "sw_raised n s = card {w. w < n \<and> sw_stored (sw_pc s w)}"

text \<open>Writers with numbers below \<open>n\<close> only.\<close>

definition sw_exec_n :: "nat \<Rightarrow> (int list \<Rightarrow> int option) \<Rightarrow> (nat \<Rightarrow> int list) \<Rightarrow> sw_sys \<Rightarrow> nat \<times> bool \<Rightarrow> sw_sys option" where
  "sw_exec_n n parse buf s e = (if fst e < n then sw_exec parse buf s e else None)"

fun sw_pc_ok :: "nat \<Rightarrow> nat \<Rightarrow> nat \<Rightarrow> sw_pc \<Rightarrow> bool" where
  "sw_pc_ok c0 n r (SwLoaded i pid) \<longleftrightarrow> i \<le> c0 + r"
| "sw_pc_ok c0 n r (SwIndexed i pid) \<longleftrightarrow> i < c0 + n"
| "sw_pc_ok c0 n r _ \<longleftrightarrow> True"

definition sw_inv :: "nat \<Rightarrow> nat \<Rightarrow> sw_sys \<Rightarrow> bool" where
  "sw_inv c0 n s \<longleftrightarrow> length (sq_pids (sw_mem s)) = 3 \<and> count_pids (sw_mem s) \<le> c0 + sw_raised n s \<and>
     (\<forall>w. sw_pc_ok c0 n (sw_raised n s) (sw_pc s w)) \<and>
     (\<forall>x \<in> set (sw_outside s). MAX_PIDS \<le> fst x \<and> fst x < c0 + n)"

lemma sw_raised_upd:
  assumes "w < n"
  shows "sw_raised n (sw_goto w p s) =
    (if sw_stored (sw_pc s w) = sw_stored p then sw_raised n s
     else if sw_stored p then Suc (sw_raised n s) else sw_raised n s - 1)"
proof -
  let ?A = "{v. v < n \<and> sw_stored (sw_pc s v)}"
  have "{v. v < n \<and> sw_stored (sw_pc (sw_goto w p s) v)} = (if sw_stored p then insert w ?A else ?A - {w})"
    using assms by (auto simp: sw_goto_def)
  then show ?thesis
    using assms by (auto simp: sw_raised_def card_insert_if card_Diff_singleton insert_absorb)
qed

lemma sw_raised_less: "w < n \<Longrightarrow> \<not> sw_stored (sw_pc s w) \<Longrightarrow> sw_raised n s < n"
  using psubset_card_mono [of "{..<n}" "{v. v < n \<and> sw_stored (sw_pc s v)}"]
  by (auto simp: sw_raised_def)

lemma sw_raised_same [simp]:
  "sw_raised n (s\<lparr>sw_mem := m\<rparr>) = sw_raised n s" "sw_raised n (s\<lparr>sw_outside := os\<rparr>) = sw_raised n s"
  by (simp_all add: sw_raised_def)

text \<open>A step that raises nothing and stores nothing keeps the invariant.\<close>

lemma sw_pc_ok_mono: "sw_pc_ok c0 n r p \<Longrightarrow> r \<le> r' \<Longrightarrow> sw_pc_ok c0 n r' p"
  by (cases p) auto

lemma sw_inv_goto:
  assumes "sw_inv c0 n s" and "w < n" and "sw_stored p = sw_stored (sw_pc s w)" and "sw_pc_ok c0 n (sw_raised n s) p"
  shows "sw_inv c0 n (sw_goto w p s)"
proof -
  have "sw_raised n (sw_goto w p s) = sw_raised n s" using sw_raised_upd [OF assms(2), of p s] assms(3) by simp
  then show ?thesis using assms(1,4) by (simp add: sw_inv_def) (simp add: sw_goto_def)
qed

lemma sw_inv_exec:
  assumes inv: "sw_inv c0 n s" and ex: "sw_exec_n n parse buf s e = Some t"
  shows "sw_inv c0 n t"
proof -
  obtain w ok where e: "e = (w, ok)" by (cases e)
  have w: "w < n" and step: "sw_exec parse buf s (w, ok) = Some t"
    using ex by (auto simp: sw_exec_n_def e split: if_splits)
  show ?thesis
  proof (cases "sw_pc s w")
    case SwIdle
    then show ?thesis using step by (auto simp: sw_exec_def intro!: sw_inv_goto [OF inv w] split: if_splits)
  next
    case (SwCopied x)
    then show ?thesis using step by (auto simp: sw_exec_def intro!: sw_inv_goto [OF inv w] split: if_splits)
  next
    case (SwChecked x)
    then show ?thesis using step by (auto simp: sw_exec_def intro!: sw_inv_goto [OF inv w] split: option.splits)
  next
    case (SwParsed pid)
    have "count_pids (sw_mem s) \<le> c0 + sw_raised n s" using inv by (simp add: sw_inv_def)
    then show ?thesis using SwParsed step by (auto simp: sw_exec_def intro!: sw_inv_goto [OF inv w])
  next
    case (SwLoaded i pid)
    let ?s = "s\<lparr>sw_mem := (sw_mem s)\<lparr>count_pids := i + 1\<rparr>\<rparr>"
    have t: "t = sw_goto w (SwIndexed i pid) ?s" using step SwLoaded by (simp add: sw_exec_def)
    have r: "sw_raised n t = Suc (sw_raised n s)" using sw_raised_upd [OF w, of "SwIndexed i pid" ?s] SwLoaded by (simp add: t)
    have ok: "\<And>v. sw_pc_ok c0 n (sw_raised n s) (sw_pc s v)" using inv by (simp add: sw_inv_def)
    have i: "i \<le> c0 + sw_raised n s" using ok [of w] SwLoaded by simp
    have less: "sw_raised n s < n" using sw_raised_less [OF w] SwLoaded by simp
    have "sw_pc_ok c0 n (sw_raised n t) (sw_pc t v)" for v
      using i less sw_pc_ok_mono [OF ok [of v]] by (simp add: r) (simp add: t sw_goto_def)
    then show ?thesis
      using inv i unfolding sw_inv_def r by (simp add: t sw_goto_def)
  next
    case (SwIndexed i pid)
    have "sw_pc_ok c0 n (sw_raised n s) (sw_pc s w)" using inv by (simp add: sw_inv_def)
    then have i: "i < c0 + n" using SwIndexed by simp
    have r: "sw_raised n (sw_goto w (SwDone (Inr (length (buf w)))) s) = sw_raised n s"
      using sw_raised_upd [OF w, of "SwDone (Inr (length (buf w)))" s] SwIndexed by simp
    have g: "sw_inv c0 n (sw_goto w (SwDone (Inr (length (buf w)))) s)"
      by (rule sw_inv_goto [OF inv w]) (use SwIndexed in simp_all)
    then show ?thesis
      using step SwIndexed i by (auto simp: sw_exec_def Let_def sw_inv_def sw_goto_def split: if_splits)
  next
    case (SwDone r)
    then show ?thesis using step by (simp add: sw_exec_def)
  qed
qed

lemma sw_inv_start: "length (sq_pids m) = 3 \<Longrightarrow> sw_inv (count_pids m) n (sw_start m)"
  by (simp add: sw_inv_def sw_start_def sw_raised_def)

lemma sw_inv_system:
  "length (sq_pids m) = 3 \<Longrightarrow> invariant_system (sw_exec_n n parse buf) (sw_start m) (sw_inv (count_pids m) n)"
  by unfold_locales (auto intro: sw_inv_start sw_inv_exec)

lemmas sw_reach_inv = invariant_system.reach_inv [OF sw_inv_system]


subsection \<open>What the test of the count is good for\<close>

text \<open>
  A writer that has passed the test and not yet stored its number, and the runs in which there is never more
  than one of these: those of a module with a lock around the test and the store.
\<close>

fun sw_past_test :: "sw_pc \<Rightarrow> bool" where
  "sw_past_test (SwChecked t) = True"
| "sw_past_test (SwParsed pid) = True"
| "sw_past_test (SwLoaded i pid) = True"
| "sw_past_test (SwIndexed i pid) = True"
| "sw_past_test _ = False"

definition sw_exec_locked :: "nat \<Rightarrow> (int list \<Rightarrow> int option) \<Rightarrow> (nat \<Rightarrow> int list) \<Rightarrow> sw_sys \<Rightarrow> nat \<times> bool \<Rightarrow> sw_sys option" where
  "sw_exec_locked n parse buf s e =
     (if \<not> sw_past_test (sw_pc s (fst e)) \<and> list_ex (\<lambda>w. sw_past_test (sw_pc s w)) [0..<n] then None
      else sw_exec_n n parse buf s e)"

text \<open>With a full array nobody passes the test.\<close>

definition sw_full_inv :: "seq_pids \<Rightarrow> sw_sys \<Rightarrow> bool" where
  "sw_full_inv m s \<longleftrightarrow> sw_mem s = m \<and> sw_outside s = [] \<and> (\<forall>w. \<not> sw_past_test (sw_pc s w))"

lemma sw_full_exec:
  assumes "MAX_PIDS \<le> count_pids m" and "sw_full_inv m s" and "sw_exec_n n parse buf s e = Some t"
  shows "sw_full_inv m t"
proof -
  obtain w ok where e: "e = (w, ok)" by (cases e)
  have "\<not> sw_past_test (sw_pc s w)" using assms(2) by (simp add: sw_full_inv_def)
  then show ?thesis
    using assms by (cases "sw_pc s w") (auto simp: e sw_exec_n_def sw_defs sw_full_inv_def split: if_splits)
qed

lemma sw_full_system:
  "MAX_PIDS \<le> count_pids m \<Longrightarrow> invariant_system (sw_exec_n n parse buf) (sw_start m) (sw_full_inv m)"
  by unfold_locales (simp add: sw_full_inv_def sw_start_def, rule sw_full_exec)

text \<open>With one writer at a time the count that has been tested is the one that is used.\<close>

fun sw_room :: "nat \<Rightarrow> sw_pc \<Rightarrow> bool" where
  "sw_room c (SwChecked t) \<longleftrightarrow> c < MAX_PIDS"
| "sw_room c (SwParsed pid) \<longleftrightarrow> c < MAX_PIDS"
| "sw_room c (SwLoaded i pid) \<longleftrightarrow> i = c \<and> c < MAX_PIDS"
| "sw_room c (SwIndexed i pid) \<longleftrightarrow> c = i + 1 \<and> c \<le> MAX_PIDS"
| "sw_room c _ \<longleftrightarrow> True"

definition sw_locked_inv :: "nat \<Rightarrow> sw_sys \<Rightarrow> bool" where
  "sw_locked_inv n s \<longleftrightarrow> count_pids (sw_mem s) \<le> MAX_PIDS \<and> sw_outside s = [] \<and>
     (\<forall>w. sw_room (count_pids (sw_mem s)) (sw_pc s w)) \<and>
     (\<forall>w. sw_past_test (sw_pc s w) \<longrightarrow> w < n) \<and>
     (\<forall>v w. sw_past_test (sw_pc s v) \<and> sw_past_test (sw_pc s w) \<longrightarrow> v = w)"

lemma sw_room_other: "\<not> sw_past_test p \<Longrightarrow> sw_room c p"
  by (cases p) simp_all

lemma sw_locked_exec:
  assumes inv: "sw_locked_inv n s" and ex: "sw_exec_locked n parse buf s e = Some t"
  shows "sw_locked_inv n t"
proof -
  obtain w ok where e: "e = (w, ok)" by (cases e)
  have w: "w < n" and step: "sw_exec parse buf s (w, ok) = Some t"
    and free: "sw_past_test (sw_pc s w) \<or> (\<forall>v < n. \<not> sw_past_test (sw_pc s v))"
    using ex by (auto simp: sw_exec_locked_def sw_exec_n_def e list_ex_iff split: if_splits)
  have others: "\<not> sw_past_test (sw_pc s v)" if "v \<noteq> w" for v
    using free that inv unfolding sw_locked_inv_def by blast
  have room: "sw_room (count_pids (sw_mem s)) (sw_pc s w)" and small: "count_pids (sw_mem s) \<le> MAX_PIDS"
    and none: "sw_outside s = []" using inv by (simp_all add: sw_locked_inv_def)
  have pcs: "sw_pc t v = sw_pc s v" if "v \<noteq> w" for v
    using step that by (cases "sw_pc s w") (auto simp: sw_defs split: if_splits)
  have main: "sw_room (count_pids (sw_mem t)) (sw_pc t w) \<and> count_pids (sw_mem t) \<le> MAX_PIDS \<and> sw_outside t = []"
    using step room small none by (cases "sw_pc s w") (auto simp: sw_defs split: if_splits option.splits)
  have past: "\<not> sw_past_test (sw_pc t v)" if "v \<noteq> w" for v using others pcs that by simp
  have "sw_room (count_pids (sw_mem t)) (sw_pc t v)" for v
    using main sw_room_other [OF past, of v] by (cases "v = w") auto
  then show ?thesis using main past w unfolding sw_locked_inv_def by metis
qed

lemma sw_locked_system:
  "count_pids m \<le> MAX_PIDS \<Longrightarrow> invariant_system (sw_exec_locked n parse buf) (sw_start m) (sw_locked_inv n)"
  by unfold_locales (simp add: sw_locked_inv_def sw_start_def, rule sw_locked_exec)


subsection \<open>A reader with the file open\<close>

text \<open>
  One open file of either module, as \<^verbatim>\<open>fops\<close> gives it to the kernel. \<^verbatim>\<open>my_open\<close>,
  \<^verbatim>\<open>my_read\<close> and \<^verbatim>\<open>my_release\<close> hand over to the kernel's \<^verbatim>\<open>seq_open\<close>, \<^verbatim>\<open>seq_read\<close> and \<^verbatim>\<open>seq_release\<close>;
  what the module relies on is their protocol: a read calls \<open>start\<close> with the position of the file, then
  \<open>show\<close> and \<open>next\<close> for a number of elements that depends on the room in the buffer, and at last \<open>stop\<close>; the
  position outlives the call. The phase says which of the module's functions comes next; a pointer is an
  index of the array, and an index behind the array is recorded instead of read.
\<close>

datatype sn_phase = SnClosed | SnOpen | SnAt "nat option" | SnShown nat

record seq_session =
  sn_phase :: sn_phase
  sn_pos :: nat
  sn_lines :: "(nat \<times> seq_line) list"
  sn_outside :: "nat list"
  sn_klog :: "string list"

definition sn_print :: "string \<Rightarrow> seq_session \<Rightarrow> seq_session" where
  "sn_print x r = r\<lparr>sn_klog := sn_klog r @ [x]\<rparr>"

definition sn_closed :: seq_session where
  "sn_closed = \<lparr>sn_phase = SnClosed, sn_pos = 0, sn_lines = [], sn_outside = [], sn_klog = []\<rparr>"

text \<open>The functions with what they print to the kernel log, without the line of \<^verbatim>\<open>seq_next\<close> that shows addresses.\<close>

definition my_open :: "seq_session \<Rightarrow> seq_session" where
  "my_open r = sn_print ''open'' r\<lparr>sn_phase := SnOpen, sn_pos := 0, sn_lines := [], sn_outside := []\<rparr>"

definition my_read :: "(seq_pids \<Rightarrow> nat \<Rightarrow> nat option) \<Rightarrow> seq_pids \<Rightarrow> seq_session \<Rightarrow> seq_session" where
  "my_read start m r = sn_print ''start'' (sn_print ''read'' r)\<lparr>sn_phase := SnAt (start m (sn_pos r))\<rparr>"

definition my_show :: "(seq_pids \<Rightarrow> nat \<Rightarrow> seq_line) \<Rightarrow> seq_pids \<Rightarrow> nat \<Rightarrow> seq_session \<Rightarrow> seq_session" where
  "my_show shw m v r =
     (let r' = sn_print ''show'' r\<lparr>sn_phase := SnShown v\<rparr> in
      if v < MAX_PIDS then r'\<lparr>sn_lines := sn_lines r @ [(v, shw m v)]\<rparr>
      else r'\<lparr>sn_outside := sn_outside r @ [v]\<rparr>)"

definition my_next :: "(seq_pids \<Rightarrow> nat \<Rightarrow> nat option \<times> nat) \<Rightarrow> seq_pids \<Rightarrow> seq_session \<Rightarrow> seq_session" where
  "my_next nxt m r =
     (let (v, pos) = nxt m (sn_pos r) in sn_print ''next'' r\<lparr>sn_phase := SnAt v, sn_pos := pos\<rparr>)"

definition seq_stop :: "seq_session \<Rightarrow> seq_session" where
  "seq_stop r = sn_print ''stop'' r\<lparr>sn_phase := SnOpen\<rparr>"

definition my_release :: "seq_session \<Rightarrow> seq_session" where
  "my_release r = sn_print ''release'' r\<lparr>sn_phase := SnClosed\<rparr>"

text \<open>\<^verbatim>\<open>seq_ops\<close>: the table of the iterator's functions.\<close>

record seq_table =
  op_start :: "seq_pids \<Rightarrow> nat \<Rightarrow> nat option"
  op_next :: "seq_pids \<Rightarrow> nat \<Rightarrow> nat option \<times> nat"
  op_stop :: "seq_session \<Rightarrow> seq_session"
  op_show :: "seq_pids \<Rightarrow> nat \<Rightarrow> seq_line"

definition seq_ops :: "(int \<Rightarrow> task_info option) \<Rightarrow> seq_table" where
  "seq_ops task = \<lparr>op_start = seq_start, op_next = seq_next, op_stop = seq_stop, op_show = seq_show task\<rparr>"

datatype sn_event = SnEvOpen | SnEvRead | SnEvShow | SnEvNext | SnEvStop | SnEvRelease

text \<open>The kernel calls the functions of a table in the order of the protocol.\<close>

fun sn_exec :: "seq_table \<Rightarrow> seq_pids \<Rightarrow> seq_session \<Rightarrow> sn_event \<Rightarrow> seq_session option" where
  "sn_exec ops m r SnEvOpen = (case sn_phase r of SnClosed \<Rightarrow> Some (my_open r) | _ \<Rightarrow> None)"
| "sn_exec ops m r SnEvRead = (case sn_phase r of SnOpen \<Rightarrow> Some (my_read (op_start ops) m r) | _ \<Rightarrow> None)"
| "sn_exec ops m r SnEvShow =
     (case sn_phase r of SnAt (Some v) \<Rightarrow> Some (my_show (op_show ops) m v r) | _ \<Rightarrow> None)"
| "sn_exec ops m r SnEvNext = (case sn_phase r of SnShown v \<Rightarrow> Some (my_next (op_next ops) m r) | _ \<Rightarrow> None)"
| "sn_exec ops m r SnEvStop = (case sn_phase r of SnAt v \<Rightarrow> Some (op_stop ops r) | _ \<Rightarrow> None)"
| "sn_exec ops m r SnEvRelease = (case sn_phase r of SnOpen \<Rightarrow> Some (my_release r) | _ \<Rightarrow> None)"

text \<open>
  A reader and writers together: the functions of the iterator, whole writes, and the statements of
  writers that are not alone.
\<close>

record seq_system =
  sy_sw :: sw_sys
  sy_rd :: seq_session

datatype sy_event = SyRead sn_event | SyWrite bool "int list" | SyStep nat bool

fun sy_exec ::
  "(int \<Rightarrow> task_info option) \<Rightarrow> (int list \<Rightarrow> int option) \<Rightarrow> (nat \<Rightarrow> int list) \<Rightarrow> seq_system \<Rightarrow> sy_event \<Rightarrow> seq_system option" where
  "sy_exec task parse buf s (SyRead e) =
     (case sn_exec (seq_ops task) (sw_mem (sy_sw s)) (sy_rd s) e of
        None \<Rightarrow> None | Some r \<Rightarrow> Some (s\<lparr>sy_rd := r\<rparr>))"
| "sy_exec task parse buf s (SyWrite ok bs) =
     Some (s\<lparr>sy_sw := (sy_sw s)\<lparr>sw_mem := fst (my_write_iter parse ok bs (sw_mem (sy_sw s)))\<rparr>\<rparr>)"
| "sy_exec task parse buf s (SyStep w ok) =
     (case sw_exec parse buf (sy_sw s) (w, ok) of None \<Rightarrow> None | Some t \<Rightarrow> Some (s\<lparr>sy_sw := t\<rparr>))"

text \<open>The same without the statements: every write alone.\<close>

definition sy_whole ::
  "(int \<Rightarrow> task_info option) \<Rightarrow> (int list \<Rightarrow> int option) \<Rightarrow> seq_system \<Rightarrow> sy_event \<Rightarrow> seq_system option" where
  "sy_whole task parse s e = (case e of SyStep w ok \<Rightarrow> None | _ \<Rightarrow> sy_exec task parse (\<lambda>_. []) s e)"

definition sy_start :: "seq_pids \<Rightarrow> seq_system" where
  "sy_start m = \<lparr>sy_sw = sw_start m, sy_rd = sn_closed\<rparr>"


subsection \<open>The module that shows all at once\<close>

text \<open>
  my\_module.c opens its file with the kernel's \<^verbatim>\<open>single_open\<close>: the first read calls \<^verbatim>\<open>single_show\<close> once, its
  text waits in the kernel's buffer, and each read takes the next bytes of it until nothing is left. \<open>fmt\<close> is
  the text of a line, \<open>None\<close> stands for a buffer that has not been filled. The numbers and addresses in what is
  printed to the kernel log are left out.
\<close>

record single_session =
  sg_open :: bool
  sg_rest :: "int list option"
  sg_got :: "int list"
  sg_klog :: "string list"




definition single_my_release :: "single_session \<Rightarrow> single_session" where
  "single_my_release r = r\<lparr>sg_open := False, sg_klog := sg_klog r @ [''*) release'']\<rparr>"





subsection \<open>What a reader sees\<close>

text \<open>A session shows each element once; the position counts what is complete.\<close>

fun sn_phase_ok :: "nat \<Rightarrow> nat \<Rightarrow> nat \<Rightarrow> sn_phase \<Rightarrow> bool" where
  "sn_phase_ok c k p (SnAt (Some v)) \<longleftrightarrow> v = p \<and> p < c \<and> k = p"
| "sn_phase_ok c k p (SnShown v) \<longleftrightarrow> v = p \<and> p < c \<and> k = Suc p"
| "sn_phase_ok c k p _ \<longleftrightarrow> p \<le> c \<and> k = p"

definition sy_lines :: "(int \<Rightarrow> task_info option) \<Rightarrow> seq_pids \<Rightarrow> nat \<Rightarrow> (nat \<times> seq_line) list" where
  "sy_lines task m k = map (\<lambda>v. (v, seq_show task m v)) [0..<k]"

definition sn_inv :: "(int \<Rightarrow> task_info option) \<Rightarrow> seq_pids \<Rightarrow> seq_session \<Rightarrow> bool" where
  "sn_inv task m r \<longleftrightarrow> sn_outside r = [] \<and> length (sn_lines r) \<le> count_pids m \<and>
     sn_lines r = sy_lines task m (length (sn_lines r)) \<and>
     (sn_phase r = SnClosed \<or> sn_phase_ok (count_pids m) (length (sn_lines r)) (sn_pos r) (sn_phase r))"

lemma sy_lines_Suc: "sy_lines task m (Suc k) = sy_lines task m k @ [(k, seq_show task m k)]"
  by (simp add: sy_lines_def)

lemmas sn_defs = my_open_def my_read_def my_show_def my_next_def seq_stop_def my_release_def sn_print_def seq_ops_def
  seq_start_def seq_next_def

lemma sn_exec_inv:
  assumes "seq_inv m" and "sn_inv task m r" and "sn_exec (seq_ops task) m r e = Some r'"
  shows "sn_inv task m r' \<and> (sn_phase r' = SnAt None \<longrightarrow> length (sn_lines r') = count_pids m)"
proof (cases e)
  case SnEvShow
  then obtain v where v: "sn_phase r = SnAt (Some v)" and r': "r' = my_show (seq_show task) m v r"
    using assms(3) by (auto simp: seq_ops_def split: sn_phase.splits option.splits)
  have k: "v = sn_pos r" "sn_pos r < count_pids m" "length (sn_lines r) = sn_pos r" "sn_lines r = sy_lines task m (sn_pos r)"
    using assms(2) v by (auto simp: sn_inv_def)
  have "v < MAX_PIDS" using k(1,2) assms(1) by (simp add: seq_inv_def MAX_PIDS_def)
  then have "sn_phase r' = SnShown v" "sn_pos r' = v" "sn_outside r' = sn_outside r"
      "sn_lines r' = sy_lines task m (Suc v)"
    using k by (simp_all add: r' my_show_def sn_print_def sy_lines_Suc)
  then show ?thesis using assms(2) k by (simp add: sn_inv_def sy_lines_def)
qed (use assms in \<open>auto simp: sn_inv_def sn_defs sy_lines_def split: sn_phase.splits option.splits if_splits
      elim!: sn_phase_ok.elims\<close>)

text \<open>A write leaves what has been stored alone.\<close>

lemma my_write_iter_keeps:
  assumes "k \<le> count_pids m"
  shows "sy_lines task (fst (my_write_iter parse ok bs m)) k = sy_lines task m k \<and>
    count_pids m \<le> count_pids (fst (my_write_iter parse ok bs m))"
proof -
  have "seq_show task (m\<lparr>sq_pids := (sq_pids m)[count_pids m := x], count_pids := c\<rparr>) v = seq_show task m v"
    if "v < k" for x c v
    using that assms by (simp add: seq_show_def)
  then show ?thesis by (auto simp: my_write_iter_text sy_lines_def split: option.splits)
qed

lemma sn_phase_ok_mono: "sn_phase_ok c k p x \<Longrightarrow> c \<le> c' \<Longrightarrow> sn_phase_ok c' k p x"
  by (induction c k p x rule: sn_phase_ok.induct) auto

definition sy_inv :: "(int \<Rightarrow> task_info option) \<Rightarrow> seq_system \<Rightarrow> bool" where
  "sy_inv task s \<longleftrightarrow> seq_inv (sw_mem (sy_sw s)) \<and> sn_inv task (sw_mem (sy_sw s)) (sy_rd s)"

lemma sy_whole_inv:
  assumes "sy_inv task s" and "sy_whole task parse s e = Some t"
  shows "sy_inv task t"
proof (cases e)
  case (SyRead ev)
  then obtain r where "sn_exec (seq_ops task) (sw_mem (sy_sw s)) (sy_rd s) ev = Some r" and "t = s\<lparr>sy_rd := r\<rparr>"
    using assms(2) by (auto simp: sy_whole_def split: option.splits)
  then show ?thesis using assms(1) sn_exec_inv by (auto simp: sy_inv_def)
next
  case (SyWrite ok bs)
  let ?m = "sw_mem (sy_sw s)"
  let ?m' = "fst (my_write_iter parse ok bs ?m)"
  have t: "sw_mem (sy_sw t) = ?m'" "sy_rd t = sy_rd s" using SyWrite assms(2) by (auto simp: sy_whole_def)
  have inv: "seq_inv ?m" "sn_inv task ?m (sy_rd s)" using assms(1) by (simp_all add: sy_inv_def)
  then have k: "length (sn_lines (sy_rd s)) \<le> count_pids ?m" by (simp add: sn_inv_def)
  have "sn_inv task ?m' (sy_rd s)"
    using inv(2) my_write_iter_keeps [OF k, of task parse ok bs] sn_phase_ok_mono by (auto simp: sn_inv_def)
  then show ?thesis using my_write_iter_inv [OF inv(1)] by (simp add: sy_inv_def t)
next
  case (SyStep w ok)
  then show ?thesis using assms(2) by (simp add: sy_whole_def)
qed

lemma sy_inv_start: "seq_inv m \<Longrightarrow> sy_inv task (sy_start m)"
  by (simp add: sy_inv_def sy_start_def sw_start_def sn_inv_def sn_closed_def sy_lines_def)

lemma sy_inv_system: "seq_inv m \<Longrightarrow> invariant_system (sy_whole task parse) (sy_start m) (sy_inv task)"
  by unfold_locales (auto intro: sy_inv_start sy_whole_inv)

lemmas sy_reach_inv = invariant_system.reach_inv [OF sy_inv_system]


subsection \<open>Properties\<close>

text \<open>A writer that nobody interrupts reaches its end in six statements with the store and the result of
  \<^verbatim>\<open>my_write\<close> as one call, on every branch.\<close>

theorem sw_sequential:
  assumes "sw_pc s w = SwIdle"
  shows "sw_alone parse buf w ok 6 s =
    (let (m, r) = my_write_iter parse ok (buf w) (sw_mem s) in s\<lparr>sw_mem := m, sw_pc := (sw_pc s)(w := SwDone r)\<rparr>)"
  using assms by (rule sw_alone_eq)

text \<open>Two digits and a newline, read by a parser that knows the number 42 only.\<close>

theorem sw_sequential_witness:
  "sw_mem (sw_alone (\<lambda>t. if t = [52, 50] then Some 42 else None) (\<lambda>_. [52, 50, 10]) 0 True 6 (sw_start seq_initial)) =
     \<lparr>sq_pids = [42, - 1, - 1], count_pids = 1\<rparr>"
  using sw_sequential [of "sw_start seq_initial" 0 "\<lambda>t. if t = [52, 50] then Some 42 else None" "\<lambda>_. [52, 50, 10]" True]
  by (simp add: sw_start_def my_write_iter_def seq_initial_def MAX_PIDS_def Let_def)

text \<open>C16: However \<open>n\<close> calls of \<^verbatim>\<open>my_write\<close> are interleaved, the array keeps its three cells, and the count and the
  places of the stores outside the array pass what the count was by at most \<open>n\<close>. Once the array is full nobody changes
  anything. The test of the count would be enough if no two calls were between it and the store at the same time: then
  the count never passes 3 and nothing is stored outside.\<close>

theorem sw_bounds:
  assumes "reach (sw_exec_n n parse buf) (sw_start m) s" and "length (sq_pids m) = 3"
  shows "length (sq_pids (sw_mem s)) = 3 \<and> count_pids (sw_mem s) \<le> count_pids m + n \<and>
    (\<forall>x \<in> set (sw_outside s). MAX_PIDS \<le> fst x \<and> fst x < count_pids m + n) \<and>
    (MAX_PIDS \<le> count_pids m \<longrightarrow> sw_mem s = m \<and> sw_outside s = []) \<and>
    (\<forall>t. reach (sw_exec_locked n parse buf) (sw_start m) t \<and> count_pids m \<le> MAX_PIDS \<longrightarrow>
       count_pids (sw_mem t) \<le> MAX_PIDS \<and> sw_outside t = [])"
proof -
  have "sw_raised n s \<le> n"
    using card_mono [of "{..<n}" "{w. w < n \<and> sw_stored (sw_pc s w)}"] by (auto simp: sw_raised_def)
  then show ?thesis
    using sw_reach_inv [OF assms(2,1)] invariant_system.reach_inv [OF sw_full_system assms(1)]
      invariant_system.reach_inv [OF sw_locked_system, of m n parse buf]
    by (auto simp: sw_inv_def sw_full_inv_def sw_locked_inv_def)
qed

text \<open>One call, with the array empty and with the array full.\<close>

theorem sw_bounds_witness:
  "\<exists>s t. run (sw_exec_n 1 (\<lambda>_. Some 5) (\<lambda>_. [53])) (sw_start seq_initial) (replicate 6 (0, True)) = Some s \<and>
    count_pids (sw_mem s) \<le> 1 \<and>
    run (sw_exec_n 1 (\<lambda>_. Some 5) (\<lambda>_. [53])) (sw_start \<lparr>sq_pids = [7, 8, 9], count_pids = 3\<rparr>) (replicate 2 (0, True)) = Some t \<and>
    sw_mem t = \<lparr>sq_pids = [7, 8, 9], count_pids = 3\<rparr>"
proof -
  let ?s = "\<lparr>sw_mem = \<lparr>sq_pids = [5, - 1, - 1], count_pids = 1\<rparr>, sw_pc = (\<lambda>_. SwIdle)(0 := SwDone (Inr 1)), sw_outside = []\<rparr>"
  let ?m = "\<lparr>sq_pids = [7, 8, 9], count_pids = 3\<rparr>"
  have r: "run (sw_exec_n 1 (\<lambda>_. Some 5) (\<lambda>_. [53])) (sw_start seq_initial) (replicate 6 (0, True)) = Some ?s"
    by (simp add: sw_exec_n_def sw_start_def sw_defs MAX_PIDS_def seq_initial_def eval_nat_numeral)
  have "\<exists>t. run (sw_exec_n 1 (\<lambda>_. Some 5) (\<lambda>_. [53])) (sw_start ?m) (replicate 2 (0, True)) = Some t"
    by (simp add: sw_exec_n_def sw_start_def sw_defs MAX_PIDS_def eval_nat_numeral)
  then obtain t where t: "run (sw_exec_n 1 (\<lambda>_. Some 5) (\<lambda>_. [53])) (sw_start ?m) (replicate 2 (0, True)) = Some t" ..
  show ?thesis using sw_bounds [OF run_reach_init [OF r]] r sw_bounds [OF run_reach_init [OF t]] t
    by (simp add: seq_initial_def MAX_PIDS_def)
qed

text \<open>The bound is attained: with two ids stored, two writers that pass the test of the count together both
  succeed, and the second stores its number behind the array.\<close>

theorem sw_overrun:
  assumes "parse (sw_text (buf 0)) = Some p" and "parse (sw_text (buf 1)) = Some q"
    and "length (buf 0) < 32" and "length (buf 1) < 32" and "length (sq_pids m) = 3" and "count_pids m = 2"
  shows "\<exists>es s. run (sw_exec_n 2 parse buf) (sw_start m) es = Some s \<and> sw_outside s = [(3, q)] \<and>
    count_pids (sw_mem s) = 4 \<and> sw_pc s 0 = SwDone (Inr (length (buf 0))) \<and> sw_pc s 1 = SwDone (Inr (length (buf 1)))"
  using assms
  by (intro exI [of _ "map (\<lambda>w. (w, True)) [0, 0, 0, 1, 1, 1, 0, 0, 0, 1, 1, 1]"])
    (simp add: sw_exec_n_def sw_start_def sw_defs MAX_PIDS_def)

theorem sw_overrun_witness:
  "\<exists>es s. run (sw_exec_n 2 (\<lambda>t. Some (hd t)) (\<lambda>w. [49 + int w])) (sw_start \<lparr>sq_pids = [7, 8, - 1], count_pids = 2\<rparr>) es = Some s \<and>
    sw_outside s = [(3, 50)]"
  using sw_overrun [of "\<lambda>t. Some (hd t)" "\<lambda>w. [49 + int w]" 49 50 "\<lparr>sq_pids = [7, 8, - 1], count_pids = 2\<rparr>"]
  by (fastforce simp: sw_text_def)

text \<open>Two writers can both succeed and store one number: the second loads the count before the first has raised
  it.\<close>

theorem sw_lost:
  assumes "parse (sw_text (buf 0)) = Some p" and "parse (sw_text (buf 1)) = Some q"
    and "length (buf 0) < 32" and "length (buf 1) < 32"
  shows "\<exists>es s. run (sw_exec_n 2 parse buf) (sw_start seq_initial) es = Some s \<and>
    sw_mem s = \<lparr>sq_pids = [q, - 1, - 1], count_pids = 1\<rparr> \<and>
    sw_pc s 0 = SwDone (Inr (length (buf 0))) \<and> sw_pc s 1 = SwDone (Inr (length (buf 1)))"
  using assms
  by (intro exI [of _ "map (\<lambda>w. (w, True)) [0, 0, 0, 1, 1, 1, 0, 1, 0, 0, 1, 1]"])
    (simp add: sw_exec_n_def sw_start_def sw_defs MAX_PIDS_def seq_initial_def)

theorem sw_lost_witness:
  "\<exists>es s. run (sw_exec_n 2 (\<lambda>t. Some (hd t)) (\<lambda>w. [49 + int w])) (sw_start seq_initial) es = Some s \<and>
    sw_mem s = \<lparr>sq_pids = [50, - 1, - 1], count_pids = 1\<rparr>"
  using sw_lost [of "\<lambda>t. Some (hd t)" "\<lambda>w. [49 + int w]" 49 50] by (fastforce simp: sw_text_def)

text \<open>C15: While writes come one at a time, a session of the iterator is right whenever they come between its calls:
  what it has shown since the file was opened are the lines of the first ids of the array, each once, in order
  and as they still are, no index leaves the array, and when the iterator ends it has shown all that is stored.\<close>

theorem sy_prefix:
  assumes "reach (sy_whole task parse) (sy_start m0) s" and "seq_inv m0"
  shows "sn_outside (sy_rd s) = [] \<and> length (sn_lines (sy_rd s)) \<le> count_pids (sw_mem (sy_sw s)) \<and>
    sn_lines (sy_rd s) = sy_lines task (sw_mem (sy_sw s)) (length (sn_lines (sy_rd s))) \<and>
    (\<forall>e t. sy_whole task parse s (SyRead e) = Some t \<and> sn_phase (sy_rd t) = SnAt None \<longrightarrow>
      sn_lines (sy_rd t) = sy_lines task (sw_mem (sy_sw t)) (count_pids (sw_mem (sy_sw t))))"
proof -
  have inv: "seq_inv (sw_mem (sy_sw s))" "sn_inv task (sw_mem (sy_sw s)) (sy_rd s)"
    using sy_reach_inv [OF assms(2,1)] by (simp_all add: sy_inv_def)
  have "sn_lines (sy_rd t) = sy_lines task (sw_mem (sy_sw t)) (count_pids (sw_mem (sy_sw t)))"
    if t: "sy_whole task parse s (SyRead e) = Some t" and "sn_phase (sy_rd t) = SnAt None" for e t
  proof -
    obtain r where ex: "sn_exec (seq_ops task) (sw_mem (sy_sw s)) (sy_rd s) e = Some r" and r: "t = s\<lparr>sy_rd := r\<rparr>"
      using t by (auto simp: sy_whole_def split: option.splits)
    have t: "sy_rd t = r" "sy_sw t = sy_sw s" by (simp_all add: r)
    have "sn_lines r = sy_lines task (sw_mem (sy_sw s)) (length (sn_lines r))"
      using sn_exec_inv [OF inv ex] unfolding sn_inv_def by (elim conjE)
    moreover have "length (sn_lines r) = count_pids (sw_mem (sy_sw s))"
      using sn_exec_inv [OF inv ex] that(2) unfolding t by (elim conjE) (erule mp)
    ultimately have x: "sn_lines r = sy_lines task (sw_mem (sy_sw s)) (count_pids (sw_mem (sy_sw s)))"
      by metis
    show ?thesis unfolding t by (rule x)
  qed
  then show ?thesis using inv(2) by (auto simp: sn_inv_def)
qed

text \<open>One id shown, one more written while the file is open, and then shown by the next read.\<close>

theorem sy_prefix_witness:
  "\<exists>s. run (sy_whole (\<lambda>_. None) (\<lambda>t. Some (hd t))) (sy_start seq_initial)
      [SyWrite True [49], SyRead SnEvOpen, SyRead SnEvRead, SyRead SnEvShow, SyRead SnEvNext, SyRead SnEvStop,
       SyWrite True [50], SyRead SnEvRead, SyRead SnEvShow, SyRead SnEvNext] = Some s \<and>
    sn_lines (sy_rd s) = sy_lines (\<lambda>_. None) (sw_mem (sy_sw s)) 2 \<and> sy_lines (\<lambda>_. None) (sw_mem (sy_sw s)) 2 =
      [(0, NotFound 49), (1, NotFound 50)]"
proof -
  let ?es = "[SyWrite True [49], SyRead SnEvOpen, SyRead SnEvRead, SyRead SnEvShow, SyRead SnEvNext, SyRead SnEvStop,
       SyWrite True [50], SyRead SnEvRead, SyRead SnEvShow, SyRead SnEvNext]"
  let ?exec = "sy_whole (\<lambda>_. None) (\<lambda>t. Some (hd t))"
  note defs = sy_whole_def my_write_iter_text sw_text_def sy_start_def sw_start_def sn_closed_def sn_defs MAX_PIDS_def
    seq_initial_def seq_show_def
  obtain s where r: "run ?exec (sy_start seq_initial) ?es = Some s" and n: "length (sn_lines (sy_rd s)) = 2"
    and m: "sw_mem (sy_sw s) = \<lparr>sq_pids = [49, 50, - 1], count_pids = 2\<rparr>"
    by (simp add: defs)
  have "sn_lines (sy_rd s) = sy_lines (\<lambda>_. None) (sw_mem (sy_sw s)) (length (sn_lines (sy_rd s)))"
    using sy_prefix [OF run_reach_init [OF r]] by (simp only: seq_inv_def seq_initial_def) simp
  then have "sn_lines (sy_rd s) = sy_lines (\<lambda>_. None) (sw_mem (sy_sw s)) 2" unfolding n .
  moreover have "sy_lines (\<lambda>_. None) (sw_mem (sy_sw s)) 2 = [(0, NotFound 49), (1, NotFound 50)]"
    by (simp add: m sy_lines_def seq_show_def upt_rec)
  ultimately show ?thesis using r by blast
qed

text \<open>A reader between the two stores of a writer sees a count without its number: the new process is shown as
  an invalid id although the write is about to succeed with a number that is not negative.\<close>

theorem sy_torn:
  assumes "parse (sw_text (buf 0)) = Some p" and "length (buf 0) < 32"
  shows "\<exists>es s. run (sy_exec task parse buf) (sy_start seq_initial) es = Some s \<and>
    sn_lines (sy_rd s) = [(0, InvalidPid)] \<and> sn_phase (sy_rd s) = SnAt None \<and>
    sw_mem (sy_sw s) = \<lparr>sq_pids = [p, - 1, - 1], count_pids = 1\<rparr>"
  using assms
  by (intro exI [of _ "replicate 5 (SyStep 0 True) @ [SyRead SnEvOpen, SyRead SnEvRead, SyRead SnEvShow, SyRead SnEvNext, SyStep 0 True]"])
    (simp add: sy_start_def sw_start_def sn_closed_def sn_defs sw_defs MAX_PIDS_def seq_initial_def seq_show_def eval_nat_numeral)

theorem sy_torn_witness:
  "\<exists>es s. run (sy_exec (\<lambda>_. None) (\<lambda>t. Some (hd t)) (\<lambda>_. [50])) (sy_start seq_initial) es = Some s \<and>
    sn_lines (sy_rd s) = [(0, InvalidPid)] \<and> sq_pids (sw_mem (sy_sw s)) = [50, - 1, - 1]"
  using sy_torn [of "\<lambda>t. Some (hd t)" "\<lambda>_. [50]" 50] by (fastforce simp: sw_text_def)



end
