(* ===== verification/Vfs.thy ===== *)
theory Vfs
  imports Kernel_Base
begin

section \<open>The file system module\<close>

text \<open>
  Model of lab-vfs/src/main.c: registration of a file system, an array of objects taken from a slab
  cache, and the construction of the root directory when the file system is mounted. The kernel
  calls are answers in the arguments; the model keeps account of what the module holds. A second
  version of the module, lab-vfs/src/main\_comm.c, is modelled where it differs.
\<close>

subsection \<open>What the module holds\<close>

definition PAGE_SIZE :: nat where "PAGE_SIZE = 4096"

record vfs_ledger =
  registered :: bool
  array_allocated :: bool
  cache_created :: bool
  objects :: "nat list"

definition vfs_nothing :: vfs_ledger where
  "vfs_nothing = \<lparr>registered = False, array_allocated = False, cache_created = False, objects = []\<rparr>"

text \<open>
  The loop that fills the array: it returns the index of the first allocation that failed, or
  \<^term>\<open>None\<close> when all succeeded, with the objects taken; an index outside the array is the outer
  \<^term>\<open>None\<close>. The array has one cell for each byte of a page.
\<close>

fun vfs_alloc :: "nat \<Rightarrow> nat \<Rightarrow> bool list \<Rightarrow> nat list \<Rightarrow> (nat option \<times> nat list) option" where
  "vfs_alloc 0 i as live = Some (None, live)"
| "vfs_alloc (Suc n) i as live =
     (if PAGE_SIZE \<le> i then None
      else case as of
        [] \<Rightarrow> Some (Some i, live)
      | a # as' \<Rightarrow> if a then vfs_alloc n (Suc i) as' (live @ [i]) else Some (Some i, live))"

text \<open>
  \<^verbatim>\<open>myvfs_init\<close>. The clean-up after a failed allocation frees the object of the first
  cell only, which is a null pointer when the first allocation failed.
\<close>

record vfs_env =
  v_register :: int
  v_kmalloc :: bool
  v_cache :: bool
  v_objects :: "bool list"

definition myvfs_init :: "int \<Rightarrow> vfs_env \<Rightarrow> vfs_ledger \<Rightarrow> (kernel_error option \<times> vfs_ledger) option" where
  "myvfs_init cached_count e l =
     (if v_register e \<noteq> 0 then Some (Some (K_OTHER (v_register e)), l)
      else
        let l1 = l\<lparr>registered := True\<rparr> in
        if \<not> v_kmalloc e then Some (Some K_ENOMEM, l1)
        else
          let l2 = l1\<lparr>array_allocated := True\<rparr> in
          if \<not> v_cache e then Some (Some K_ENOMEM, l2\<lparr>array_allocated := False\<rparr>)
          else
            let l3 = l2\<lparr>cache_created := True\<rparr> in
            (case vfs_alloc (nat cached_count) 0 (v_objects e) [] of
               None \<Rightarrow> None
             | Some (None, live) \<Rightarrow> Some (None, l3\<lparr>objects := live\<rparr>)
             | Some (Some i, live) \<Rightarrow>
                 Some (Some K_ENOMEM, l3\<lparr>objects := removeAll 0 live, cache_created := False, array_allocated := False\<rparr>)))"

text \<open>\<^verbatim>\<open>myvfs_exit\<close>, when \<^verbatim>\<open>unregister_filesystem\<close> succeeds or not.\<close>

definition myvfs_exit :: "int \<Rightarrow> bool \<Rightarrow> vfs_ledger \<Rightarrow> vfs_ledger" where
  "myvfs_exit cached_count unregister_ok l =
     l\<lparr>registered := (registered l \<and> \<not> unregister_ok),
       objects := filter (\<lambda>i. \<not> i < nat cached_count) (objects l),
       array_allocated := False, cache_created := False\<rparr>"


subsection \<open>Mounting\<close>

text \<open>
  \<^verbatim>\<open>myvfs_fill_super\<close>: the fields it sets, and the references to the root inode. According to its
  documentation \<^verbatim>\<open>d_make_root\<close> takes over the reference, and drops it when it fails; the
  code then drops it once more.
\<close>

record super_block =
  s_blocksize :: nat
  s_blocksize_bits :: nat
  s_magic :: nat
  s_time_gran :: nat
  s_root :: bool

record root_inode =
  i_ino :: nat
  i_mode :: nat
  i_nlink :: nat
  i_refs :: int

definition PAGE_SHIFT :: nat where "PAGE_SHIFT = 12"
definition MAGIC_NUMBER :: nat where "MAGIC_NUMBER = 2976579765"
definition S_IFDIR :: nat where "S_IFDIR = 16384"

definition myvfs_fill_super ::
  "bool \<Rightarrow> bool \<Rightarrow> super_block \<Rightarrow> kernel_error option \<times> super_block \<times> root_inode option" where
  "myvfs_fill_super inode_ok root_ok sb =
     (let sb1 = sb\<lparr>s_blocksize := PAGE_SIZE, s_blocksize_bits := PAGE_SHIFT, s_magic := MAGIC_NUMBER,
            s_time_gran := 1\<rparr> in
      if \<not> inode_ok then (Some K_ENOMEM, sb1, None)
      else
        let inode = \<lparr>i_ino = 1, i_mode = S_IFDIR + 493, i_nlink = 2, i_refs = 1\<rparr> in
        if root_ok then (None, sb1\<lparr>s_root := True\<rparr>, Some inode)
        else
          let after_make_root = inode\<lparr>i_refs := i_refs inode - 1\<rparr> in
          (Some K_ENOMEM, sb1\<lparr>s_root := False\<rparr>, Some (after_make_root\<lparr>i_refs := i_refs after_make_root - 1\<rparr>)))"


subsection \<open>The version with comments\<close>

text \<open>
  lab-vfs/src/main\_comm.c has the functions of main.c up to the loop of \<^verbatim>\<open>myvfs_exit\<close>: its variable is a
  \<^verbatim>\<open>size_t\<close>, so that \<^verbatim>\<open>i < cached_count\<close> compares without a sign, and it frees every cell without a test for
  null pointers. \<^term>\<open>None\<close> is a loop that leaves the array. The default of the parameter is 256, not 128.
\<close>

definition vfs_cached_count :: int where "vfs_cached_count = 128"
definition comm_cached_count :: int where "comm_cached_count = 256"

definition size_t_of :: "int \<Rightarrow> nat" where
  "size_t_of n = nat (n mod 2 ^ 64)"

definition comm_fill_super ::
  "bool \<Rightarrow> bool \<Rightarrow> super_block \<Rightarrow> kernel_error option \<times> super_block \<times> root_inode option" where
  "comm_fill_super inode_ok root_ok sb = myvfs_fill_super inode_ok root_ok sb"

definition comm_myvfs_init :: "int \<Rightarrow> vfs_env \<Rightarrow> vfs_ledger \<Rightarrow> (kernel_error option \<times> vfs_ledger) option" where
  "comm_myvfs_init cached_count e l = myvfs_init cached_count e l"

definition comm_myvfs_exit :: "int \<Rightarrow> bool \<Rightarrow> vfs_ledger \<Rightarrow> vfs_ledger option" where
  "comm_myvfs_exit cached_count unregister_ok l =
     (let n = size_t_of cached_count in
      if PAGE_SIZE < n then None
      else Some (l\<lparr>registered := (registered l \<and> \<not> unregister_ok), objects := filter (\<lambda>i. \<not> i < n) (objects l),
        array_allocated := False, cache_created := False\<rparr>))"

lemma size_t_of_nonneg: "0 \<le> n \<Longrightarrow> n < 2 ^ 64 \<Longrightarrow> size_t_of n = nat n"
  by (simp add: size_t_of_def)

lemma size_t_of_neg:
  assumes "- (2 ^ 31) \<le> n" and "n < 0"
  shows "4096 < size_t_of n"
proof -
  have "n mod 2 ^ 64 = (n + 2 ^ 64) mod 2 ^ 64" by simp
  also have "\<dots> = n + 2 ^ 64" using assms by (intro mod_pos_pos_trivial) auto
  finally show ?thesis using assms by (simp add: size_t_of_def)
qed


subsection \<open>Lemmas\<close>

lemma vfs_alloc_all:
  "i + n \<le> PAGE_SIZE \<Longrightarrow> vfs_alloc n i (replicate n True @ rest) live = Some (None, live @ [i..<i + n])"
proof (induction n arbitrary: i live)
  case (Suc n)
  then show ?case by (simp add: upt_conv_Cons del: upt_Suc)
qed simp

lemma vfs_alloc_fails:
  "i + n < PAGE_SIZE \<Longrightarrow> n < m \<Longrightarrow> vfs_alloc m i (replicate n True @ False # rest) live = Some (Some (i + n), live @ [i..<i + n])"
proof (induction n arbitrary: i live m)
  case 0
  then show ?case by (cases m) simp_all
next
  case (Suc n)
  then show ?case by (cases m) (simp_all add: upt_conv_Cons del: upt_Suc)
qed

lemma vfs_alloc_overflow:
  "i \<le> PAGE_SIZE \<Longrightarrow> PAGE_SIZE < i + n \<Longrightarrow> \<forall>a \<in> set as. a \<Longrightarrow> n \<le> length as \<Longrightarrow> vfs_alloc n i as live = None"
proof (induction n arbitrary: i as live)
  case (Suc n)
  then show ?case by (cases as) auto
qed simp

lemma removeAll_0_upt: "0 < n \<Longrightarrow> removeAll 0 [0..<n] = [1..<n]"
  by (simp add: upt_conv_Cons removeAll_id del: upt_Suc)


subsection \<open>Properties\<close>

text \<open>When every call succeeds the module holds its registration, the array, the cache and one
  object for each cell, and unloading gives everything back.\<close>

theorem vfs_load_unload:
  assumes "0 \<le> n" and "n \<le> 4096"
  shows "\<exists>l. myvfs_init n \<lparr>v_register = 0, v_kmalloc = True, v_cache = True, v_objects = replicate (nat n) True\<rparr> vfs_nothing =
      Some (None, l) \<and> registered l \<and> objects l = [0..<nat n] \<and> myvfs_exit n True l = vfs_nothing"
proof -
  have "vfs_alloc (nat n) 0 (replicate (nat n) True) [] = Some (None, [0..<nat n])"
    using vfs_alloc_all [of 0 "nat n" "[]" "[]"] assms by (simp add: PAGE_SIZE_def)
  then show ?thesis by (simp add: myvfs_init_def myvfs_exit_def vfs_nothing_def Let_def)
qed

theorem vfs_load_unload_witness:
  "\<exists>l. myvfs_init 128 \<lparr>v_register = 0, v_kmalloc = True, v_cache = True, v_objects = replicate 128 True\<rparr> vfs_nothing =
      Some (None, l) \<and> myvfs_exit 128 True l = vfs_nothing"
  using vfs_load_unload [of 128] by auto

text \<open>Every failure after the first call leaves the file system registered, although the module
  is then unloaded; a failure of allocation number k leaves k - 1 objects in a cache that has been
  destroyed.\<close>

theorem vfs_load_fails:
  assumes "0 < k" and "int k < n" and "n \<le> 4096"
  shows "map_option snd (myvfs_init n \<lparr>v_register = 0, v_kmalloc = False, v_cache = c, v_objects = os\<rparr> vfs_nothing) =
      Some (vfs_nothing\<lparr>registered := True\<rparr>) \<and>
    map_option snd (myvfs_init n \<lparr>v_register = 0, v_kmalloc = True, v_cache = False, v_objects = os\<rparr> vfs_nothing) =
      Some (vfs_nothing\<lparr>registered := True\<rparr>) \<and>
    map_option snd (myvfs_init n \<lparr>v_register = 0, v_kmalloc = True, v_cache = True,
        v_objects = replicate k True @ [False]\<rparr> vfs_nothing) =
      Some (vfs_nothing\<lparr>registered := True, objects := [1..<k]\<rparr>)"
proof -
  have "vfs_alloc (nat n) 0 (replicate k True @ [False]) [] = Some (Some k, [0..<k])"
    using vfs_alloc_fails [of 0 k "nat n" "[]" "[]"] assms by (simp add: PAGE_SIZE_def)
  then show ?thesis using assms(1)
    by (simp add: myvfs_init_def vfs_nothing_def Let_def removeAll_0_upt)
qed

theorem vfs_load_fails_witness:
  "map_option snd (myvfs_init 128 \<lparr>v_register = 0, v_kmalloc = True, v_cache = True,
     v_objects = replicate 3 True @ [False]\<rparr> vfs_nothing) =
   Some (vfs_nothing\<lparr>registered := True, objects := [1..<3]\<rparr>)"
proof -
  have "0 < (3 :: nat)" "int 3 < 128" "(128 :: int) \<le> 4096" by simp_all
  from vfs_load_fails [OF this, of True "[]"] show ?thesis by blast
qed

text \<open>The module parameter is not checked against the size of the array: more than 4096 objects
  are written past its end.\<close>

theorem vfs_overflow:
  assumes "4096 < n" and "\<forall>a \<in> set os. a" and "nat n \<le> length os"
  shows "myvfs_init n \<lparr>v_register = 0, v_kmalloc = True, v_cache = True, v_objects = os\<rparr> l = None"
  using vfs_alloc_overflow [of 0 "nat n" os "[]"] assms by (simp add: myvfs_init_def PAGE_SIZE_def Let_def)

theorem vfs_overflow_witness:
  "myvfs_init 4097 \<lparr>v_register = 0, v_kmalloc = True, v_cache = True, v_objects = replicate 4097 True\<rparr> l = None"
  using vfs_overflow [of 4097 "replicate 4097 True" l] by simp

text \<open>Mounting sets the fields of the super block in every case; when the root cannot be made, the
  reference to its inode is dropped twice.\<close>

theorem vfs_mount:
  "(case myvfs_fill_super inode_ok root_ok sb of (err, sb', inode) \<Rightarrow>
      s_blocksize sb' = 2 ^ s_blocksize_bits sb' \<and> s_magic sb' = MAGIC_NUMBER \<and>
      (err = None \<longleftrightarrow> inode_ok \<and> root_ok) \<and>
      (case inode of
         None \<Rightarrow> \<not> inode_ok
       | Some i \<Rightarrow> i_refs i = (if root_ok then 1 else - 1) \<and> i_nlink i = 2))"
  by (simp add: myvfs_fill_super_def PAGE_SIZE_def PAGE_SHIFT_def Let_def)

text \<open>The two versions unload alike for every value of the parameter that fits the array. A negative value loads no
  object in either; main.c then unloads, and main\_comm.c runs out of its array.\<close>

theorem vfs_versions:
  "(0 \<le> n \<and> n \<le> 4096 \<longrightarrow> comm_myvfs_exit n u l = Some (myvfs_exit n u l)) \<and>
   (- (2 ^ 31) \<le> n \<and> n < 0 \<longrightarrow>
      (\<exists>l'. comm_myvfs_init n \<lparr>v_register = 0, v_kmalloc = True, v_cache = True, v_objects = []\<rparr> vfs_nothing = Some (None, l') \<and>
         objects l' = [] \<and> myvfs_exit n True l' = vfs_nothing \<and> comm_myvfs_exit n True l' = None))"
  using size_t_of_neg [of n]
  by (auto simp: comm_myvfs_exit_def comm_myvfs_init_def myvfs_exit_def myvfs_init_def size_t_of_nonneg PAGE_SIZE_def
      vfs_nothing_def Let_def)

theorem vfs_versions_witness:
  "comm_myvfs_exit 256 True vfs_nothing = Some vfs_nothing \<and>
     (\<exists>l. myvfs_exit (- 1) True l = vfs_nothing \<and> comm_myvfs_exit (- 1) True l = None)"
proof -
  have "(- (2 ^ 31) :: int) \<le> - 1" "(- 1 :: int) < 0" by simp_all
  with vfs_versions [of "- 1"] have "\<exists>l. myvfs_exit (- 1) True l = vfs_nothing \<and> comm_myvfs_exit (- 1) True l = None"
    by blast
  moreover have "myvfs_exit 256 True vfs_nothing = vfs_nothing" by (simp add: myvfs_exit_def vfs_nothing_def)
  ultimately show ?thesis using vfs_versions [of 256 True vfs_nothing] by simp
qed

end
