(* ===== verification/Keylogger.thy ===== *)
theory Keylogger
  imports Kernel_Base
begin

section \<open>The keyboard loggers\<close>

text \<open>
  Models of the two interrupt handlers of lab-irq: task-01/tasklet.c, which decodes a scan code in the
  handler itself, and task-02/wq.c, which stores the code in two work items and lets a work queue
  decode it twice. A line of the log is the name of a key.
\<close>

subsection \<open>Key maps\<close>

definition keymap_lower :: "string list" where
  "keymap_lower = [
     '''', ''ESC'', ''1'', ''2'', ''3'', ''4'', ''5'', ''6'', ''7'', ''8'', ''9'', ''0'', ''-'',
     ''='', ''Backspace'', ''Tab'', ''q'', ''w'', ''e'', ''r'', ''t'', ''y'', ''u'', ''i'', ''o'',
     ''p'', ''['', '']'', ''Enter'', ''Ctrl'', ''a'', ''s'', ''d'', ''f'', ''g'', ''h'', ''j'',
     ''k'', ''l'', '';'', [CHR 0x27], [CHR 0x60], ''Shift'', [CHR 0x5C], ''z'', ''x'', ''c'', ''v'',
     ''b'', ''n'', ''m'', '','', ''.'', ''/'', ''Shift'', ''*'', ''Alt'', '' '', ''CapsLock'',
     ''F1'', ''F2'', ''F3'', ''F4'', ''F5'', ''F6'', ''F7'', ''F8'', ''F9'', ''F10'', ''NumLock'',
     ''ScrollLock'', ''Home'', ''Up'', ''PageUp'', ''-'', ''Left'', '''', ''Right'', ''+'', ''End'',
     ''Down'', ''PageDown'', ''Insert'', ''Delete'']"

definition keymap_upper :: "string list" where
  "keymap_upper = [
     '''', ''ESC'', ''!'', ''@'', ''#'', ''$'', ''%'', ''^'', ''&'', ''*'', ''('', '')'', ''_'',
     ''+'', ''Backspace'', ''Tab'', ''Q'', ''W'', ''E'', ''R'', ''T'', ''Y'', ''U'', ''I'', ''O'',
     ''P'', ''{'', ''}'', ''Enter'', ''Ctrl'', ''A'', ''S'', ''D'', ''F'', ''G'', ''H'', ''J'',
     ''K'', ''L'', '':'', [CHR 0x22], ''~'', ''Shift'', ''|'', ''Z'', ''X'', ''C'', ''V'', ''B'',
     ''N'', ''M'', ''<'', ''>'', ''?'', ''Shift'', ''*'', ''Alt'', '' '', ''CapsLock'', ''F1'',
     ''F2'', ''F3'', ''F4'', ''F5'', ''F6'', ''F7'', ''F8'', ''F9'', ''F10'', ''NumLock'',
     ''ScrollLock'', ''Home'', ''Up'', ''PageUp'', ''-'', ''Left'', '''', ''Right'', ''+'', ''End'',
     ''Down'', ''PageDown'', ''Insert'', ''Delete'']"


fun nth_opt :: "'a list \<Rightarrow> nat \<Rightarrow> 'a option" where
  "nth_opt [] _ = None"
| "nth_opt (x # xs) 0 = Some x"
| "nth_opt (x # xs) (Suc n) = nth_opt xs n"


subsection \<open>The handler of tasklet.c\<close>

record kb_state =
  shift_pressed :: bool
  caps_on :: bool

definition kb_start :: kb_state where
  "kb_start = \<lparr>shift_pressed = False, caps_on = False\<rparr>"

datatype key_line = Key string nat | Special string





subsection \<open>The decoder of wq.c\<close>

definition resolve_key :: "nat \<Rightarrow> kb_state \<Rightarrow> string option" where
  "resolve_key code s =
     (if code < 84 then
        (case nth_opt keymap_lower code of
           Some (c # cs) \<Rightarrow>
             (if 97 \<le> (of_char c :: nat) \<and> (of_char c :: nat) \<le> 122 then
                (if shift_pressed s \<noteq> caps_on s then nth_opt keymap_upper code else nth_opt keymap_lower code)
              else if shift_pressed s then nth_opt keymap_upper code else nth_opt keymap_lower code)
         | _ \<Rightarrow> if shift_pressed s then nth_opt keymap_upper code else nth_opt keymap_lower code)
      else None)"

definition process_key :: "nat \<Rightarrow> kb_state \<Rightarrow> kb_state \<times> key_line list" where
  "process_key code s =
     (let released = (128 \<le> code); scancode = code mod 128 in
      if \<not> released \<and> (scancode = 42 \<or> scancode = 54) then (s\<lparr>shift_pressed := True\<rparr>, [])
      else if \<not> released \<and> scancode = 58 then (s\<lparr>caps_on := \<not> caps_on s\<rparr>, [])
      else if released \<and> (scancode = 42 \<or> scancode = 54) then (s\<lparr>shift_pressed := False\<rparr>, [])
      else if \<not> released then
        (s, case resolve_key scancode s of
              Some key \<Rightarrow> if length key = 1 then [Key key scancode] else []
            | None \<Rightarrow> [])
      else (s, []))"


subsection \<open>The work queue of wq.c\<close>

text \<open>
  A work item is the scan code it holds and whether it is pending: queueing a pending item does
  nothing, and an item that starts to run is no longer pending.
\<close>

record wq_state =
  wq_keys :: kb_state
  imm_code :: nat
  imm_pending :: bool
  del_code :: nat
  del_pending :: bool
  wq_log :: "(string \<times> key_line) list"

datatype wq_event = Irq nat nat | RunImmediate | RunDelayed

definition IRQ_NUM :: nat where "IRQ_NUM = 1"

definition my_irq_handler :: "nat \<Rightarrow> nat \<Rightarrow> wq_state \<Rightarrow> wq_state \<times> bool" where
  "my_irq_handler irq code s =
     (if irq = IRQ_NUM
      then (s\<lparr>imm_code := code, del_code := code, imm_pending := True, del_pending := True\<rparr>, True)
      else (s, False))"

definition run_work :: "string \<Rightarrow> nat \<Rightarrow> wq_state \<Rightarrow> wq_state" where
  "run_work label code s =
     (let (k, out) = process_key code (wq_keys s) in
      s\<lparr>wq_keys := k, wq_log := wq_log s @ map (\<lambda>l. (label, l)) out\<rparr>)"

fun wq_exec :: "wq_state \<Rightarrow> wq_event \<Rightarrow> wq_state option" where
  "wq_exec s (Irq irq code) = Some (fst (my_irq_handler irq code s))"
| "wq_exec s RunImmediate =
     (if imm_pending s then Some (run_work ''nosleep'' (imm_code s) (s\<lparr>imm_pending := False\<rparr>)) else None)"
| "wq_exec s RunDelayed =
     (if del_pending s then Some (run_work ''sleep'' (del_code s) (s\<lparr>del_pending := False\<rparr>)) else None)"

definition wq_start :: wq_state where
  "wq_start = \<lparr>wq_keys = kb_start, imm_code = 0, imm_pending = False, del_code = 0, del_pending = False,
     wq_log = []\<rparr>"

text \<open>Each code handled by both works before the next interrupt.\<close>

definition wq_calm :: "nat list \<Rightarrow> wq_event list" where
  "wq_calm codes = concat (map (\<lambda>c. [Irq IRQ_NUM c, RunImmediate, RunDelayed]) codes)"


subsection \<open>Loading and unloading\<close>

text \<open>tasklet.c holds one thing, the interrupt.\<close>

definition irq_keylogger_init :: "int \<Rightarrow> bool \<Rightarrow> kernel_error option \<times> bool" where
  "irq_keylogger_init ret held = (if ret \<noteq> 0 then (Some (K_OTHER ret), held) else (None, True))"

definition irq_keylogger_exit :: "bool \<Rightarrow> bool" where
  "irq_keylogger_exit held = False"

text \<open>wq.c.\<close>

record wq_ledger =
  irq_requested :: bool
  queue_created :: bool
  items :: nat

definition wq_nothing :: wq_ledger where
  "wq_nothing = \<lparr>irq_requested = False, queue_created = False, items = 0\<rparr>"

definition wq_keylogger_init :: "int \<Rightarrow> bool \<Rightarrow> bool \<Rightarrow> bool \<Rightarrow> wq_ledger \<Rightarrow> kernel_error option \<times> wq_ledger" where
  "wq_keylogger_init ret wq_ok imm_ok del_ok l =
     (if ret \<noteq> 0 then (Some (K_OTHER ret), l)
      else
        let l1 = l\<lparr>irq_requested := True\<rparr> in
        if \<not> wq_ok then (Some K_ENOMEM, l1\<lparr>irq_requested := False\<rparr>)
        else
          let l2 = l1\<lparr>queue_created := True,
                items := items l1 + (if imm_ok then 1 else 0) + (if del_ok then 1 else 0)\<rparr> in
          if \<not> imm_ok \<or> \<not> del_ok then
            (Some K_ENOMEM, l2\<lparr>items := items l2 - (if imm_ok then 1 else 0) - (if del_ok then 1 else 0),
               queue_created := False, irq_requested := False\<rparr>)
          else (None, l2))"

definition wq_keylogger_exit :: "wq_ledger \<Rightarrow> wq_ledger" where
  "wq_keylogger_exit l = l\<lparr>items := items l - 2, queue_created := False, irq_requested := False\<rparr>"


subsection \<open>Lemmas\<close>








text \<open>The second run of a code finds the shift key as the first left it, and undoes a change of caps lock.\<close>

lemma process_key_twice:
  "shift_pressed (fst (process_key c k)) = shift_pressed (fst (process_key c (fst (process_key c k))))"
  "caps_on (fst (process_key c (fst (process_key c k)))) = caps_on k"
  "snd (process_key c (fst (process_key c k))) = snd (process_key c k)"
  by (auto simp: process_key_def Let_def)

lemma wq_calm_simps [simp]:
  "wq_calm [] = []"
  "wq_calm (c # cs) = [Irq IRQ_NUM c, RunImmediate, RunDelayed] @ wq_calm cs"
  by (simp_all add: wq_calm_def)

lemma run_work_sel [simp]:
  "wq_keys (run_work l c s) = fst (process_key c (wq_keys s))"
  "wq_log (run_work l c s) = wq_log s @ map (\<lambda>x. (l, x)) (snd (process_key c (wq_keys s)))"
  "imm_pending (run_work l c s) = imm_pending s" "del_pending (run_work l c s) = del_pending s"
  "imm_code (run_work l c s) = imm_code s" "del_code (run_work l c s) = del_code s"
  by (simp_all add: run_work_def split: prod.splits)

text \<open>The lines of one label.\<close>

definition wq_lines :: "string \<Rightarrow> wq_state \<Rightarrow> key_line list" where
  "wq_lines label s = map snd (filter (\<lambda>(l, x). l = label) (wq_log s))"

lemma filter_label: "map snd (filter (\<lambda>(l, x). l = a) (map (\<lambda>x. (b, x)) xs)) = (if a = b then xs else [])"
  by (induction xs) auto

lemma wq_calm_run:
  "\<not> caps_on (wq_keys s) \<Longrightarrow> wq_lines ''nosleep'' s = wq_lines ''sleep'' s \<Longrightarrow>
     \<exists>t. run wq_exec s (wq_calm cs) = Some t \<and> \<not> caps_on (wq_keys t) \<and>
       wq_lines ''nosleep'' t = wq_lines ''sleep'' t"
proof (induction cs arbitrary: s)
  case Nil
  then show ?case by simp
next
  case (Cons c cs)
  obtain t where t: "run wq_exec s [Irq IRQ_NUM c, RunImmediate, RunDelayed] = Some t"
    "wq_keys t = fst (process_key c (fst (process_key c (wq_keys s))))"
    "wq_log t = wq_log s @ map (\<lambda>x. (''nosleep'', x)) (snd (process_key c (wq_keys s))) @
       map (\<lambda>x. (''sleep'', x)) (snd (process_key c (fst (process_key c (wq_keys s)))))"
    by (simp add: my_irq_handler_def)
  have "\<not> caps_on (wq_keys t)" using Cons.prems(1) by (simp add: t(2) process_key_twice(2))
  moreover have "wq_lines ''nosleep'' t = wq_lines ''sleep'' t"
    using Cons.prems(2) by (simp add: wq_lines_def t(3) filter_label process_key_twice(3))
  ultimately obtain u where "run wq_exec t (wq_calm cs) = Some u" "\<not> caps_on (wq_keys u)"
    "wq_lines ''nosleep'' u = wq_lines ''sleep'' u" using Cons.IH by blast
  with t(1) show ?case by (simp only: wq_calm_simps run_append option.case) blast
qed


subsection \<open>Properties\<close>



text \<open>In wq.c every code is decoded by both work items, so each key is logged twice and a press of
  caps lock is undone at once: however the keys are typed, caps lock is off after each code.\<close>

theorem wq_caps_never_on:
  "\<exists>s. run wq_exec wq_start (wq_calm codes) = Some s \<and> \<not> caps_on (wq_keys s) \<and>
     wq_lines ''nosleep'' s = wq_lines ''sleep'' s"
  using wq_calm_run [of wq_start codes] by (simp add: wq_start_def kb_start_def wq_lines_def)

text \<open>An interrupt that arrives before the works have run overwrites the code of the one before:
  the first key is lost, with whatever it would have done to the shift state.\<close>

theorem wq_lost_key:
  "run wq_exec s (Irq IRQ_NUM a # Irq IRQ_NUM b # es) = run wq_exec s (Irq IRQ_NUM b # es)"
  by (simp add: my_irq_handler_def)

text \<open>Loading tasklet.c holds the interrupt or reports the error of the call; unloading gives it back.\<close>

theorem irq_load_unload:
  "(case irq_keylogger_init ret False of
      (Some e, held) \<Rightarrow> ret \<noteq> 0 \<and> e = K_OTHER ret \<and> \<not> held
    | (None, held) \<Rightarrow> ret = 0 \<and> held \<and> \<not> irq_keylogger_exit held)"
  by (simp add: irq_keylogger_init_def irq_keylogger_exit_def)

text \<open>Loading wq.c succeeds with everything or fails with nothing; unloading gives everything back.\<close>

theorem wq_load_unload:
  "(case wq_keylogger_init ret wq_ok imm_ok del_ok wq_nothing of
      (Some e, l) \<Rightarrow> l = wq_nothing \<and> \<not> (ret = 0 \<and> wq_ok \<and> imm_ok \<and> del_ok)
    | (None, l) \<Rightarrow> items l = 2 \<and> irq_requested l \<and> queue_created l \<and> wq_keylogger_exit l = wq_nothing)"
  by (simp add: wq_keylogger_init_def wq_keylogger_exit_def wq_nothing_def Let_def)

end
