(* ===== verification/Ftw.thy ===== *)
theory Ftw
  imports Prelude
begin

section \<open>The file tree walk\<close>

text \<open>
  Model of lab-fileSystem/task-ftw: a depth-first walk with an explicit stack of names. Directories
  are entered with \<^verbatim>\<open>chdir\<close>, and a node for \<^verbatim>\<open>..\<close> with depth -1 below the entries of each
  leads back. The tree, its permissions and the current directory are data of the model; a name
  of 200 characters or more does not fit a node, and copying it is \<^term>\<open>None\<close>.
\<close>

subsection \<open>Trees\<close>

datatype fkind = S_IFREG | S_IFBLK | S_IFCHR | S_IFIFO | S_IFLNK | S_IFSOCK | S_IFDIR

text \<open>
  A leaf is anything but a directory (\<open>tree_ok\<close> below excludes \<^term>\<open>Leaf S_IFDIR\<close>). A directory says whether it can be opened and whether it can be entered; its entries are in the order
  in which \<^verbatim>\<open>readdir\<close> returns them.
\<close>

datatype ftree = Leaf fkind | Dir bool bool fentries
  and fentries = ENil | ECons string ftree fentries

primrec lookup :: "fentries \<Rightarrow> string \<Rightarrow> ftree option" where
  "lookup ENil n = None"
| "lookup (ECons m t es) n = (if m = n then Some t else lookup es n)"

primrec names :: "fentries \<Rightarrow> string list" where
  "names ENil = []"
| "names (ECons n t es) = n # names es"

text \<open>What \<^verbatim>\<open>readdir\<close> delivers: the two fixed names come along with the entries.\<close>

definition readdir_names :: "fentries \<Rightarrow> string list" where
  "readdir_names es = ''.'' # ''..'' # names es"


subsection \<open>Stack and statistics\<close>

definition MAX_NAME :: nat where "MAX_NAME = 200"

type_synonym node = "string \<times> int"

definition create_node :: "string \<Rightarrow> int \<Rightarrow> node option" where
  "create_node n d = (if length n < MAX_NAME then Some (n, d) else None)"

record fstats =
  nreg :: nat
  ndir :: nat
  nblk :: nat
  nchr :: nat
  nfifo :: nat
  nslink :: nat
  nsock :: nat

definition no_stats :: fstats where
  "no_stats = \<lparr>nreg = 0, ndir = 0, nblk = 0, nchr = 0, nfifo = 0, nslink = 0, nsock = 0\<rparr>"

fun incStat :: "fkind \<Rightarrow> fstats \<Rightarrow> fstats" where
  "incStat S_IFREG s = s\<lparr>nreg := nreg s + 1\<rparr>"
| "incStat S_IFBLK s = s\<lparr>nblk := nblk s + 1\<rparr>"
| "incStat S_IFCHR s = s\<lparr>nchr := nchr s + 1\<rparr>"
| "incStat S_IFIFO s = s\<lparr>nfifo := nfifo s + 1\<rparr>"
| "incStat S_IFLNK s = s\<lparr>nslink := nslink s + 1\<rparr>"
| "incStat S_IFSOCK s = s\<lparr>nsock := nsock s + 1\<rparr>"
| "incStat S_IFDIR s = s\<lparr>ndir := ndir s + 1\<rparr>"

definition ntotal :: "fstats \<Rightarrow> nat" where
  "ntotal s = nreg s + nchr s + nblk s + nfifo s + nslink s + nsock s + ndir s"


subsection \<open>The walk\<close>

text \<open>
  The current directory is the list of directories from it up to the root of the walk; the empty
  list is the directory above. \<open>log\<close> holds the calls of the visitor, and \<open>perrors\<close> the lines on the standard
  error output, by the call of \<^verbatim>\<open>perror\<close> that writes them. A call that fails sets \<^verbatim>\<open>errno\<close> (\<open>err_set\<close>), which
  nothing resets.
\<close>

datatype ftype = FTW_FILE | FTW_DIR

datatype diag = Lstat_failed | Opendir_error | Chdir_error | Error_readdir | Directory_not_set

record ftw =
  stk :: "node list"
  cwd :: "fentries list"
  stats :: fstats
  log :: "(string \<times> ftype \<times> int) list"
  err_set :: bool
  perrors :: "diag list"

definition perror :: "diag \<Rightarrow> ftw \<Rightarrow> ftw" where
  "perror d s = s\<lparr>err_set := True, perrors := perrors s @ [d]\<rparr>"

definition resolve :: "string \<times> ftree \<Rightarrow> fentries list \<Rightarrow> string \<Rightarrow> ftree option" where
  "resolve root ds n =
     (if n = fst root then Some (snd root) else case ds of [] \<Rightarrow> None | d # _ \<Rightarrow> lookup d n)"

definition push :: "string \<Rightarrow> int \<Rightarrow> node list \<Rightarrow> node list option" where
  "push n d st = map_option (\<lambda>e. e # st) (create_node n d)"

fun push_all :: "string list \<Rightarrow> int \<Rightarrow> node list \<Rightarrow> node list option" where
  "push_all [] d st = Some st"
| "push_all (n # ns) d st =
     (if n \<noteq> ''.'' \<and> n \<noteq> ''..'' then
        (case push n d st of None \<Rightarrow> None | Some st' \<Rightarrow> push_all ns d st')
      else push_all ns d st)"

text \<open>
  \<^verbatim>\<open>doPath\<close>. The absolute name of the root is found from everywhere; \<^verbatim>\<open>chdir\<close> to a node of
  depth -1 goes up, and does nothing above the root. After the last entry \<^verbatim>\<open>errno\<close> is taken for a failure of
  \<^verbatim>\<open>readdir\<close>, whoever has set it.
\<close>

definition doPath :: "string \<times> ftree \<Rightarrow> node \<Rightarrow> ftw \<Rightarrow> ftw option" where
  "doPath root e s =
     (let (pathName, depth) = e in
      if depth < 0 then Some (s\<lparr>cwd := tl (cwd s)\<rparr>)
      else
        case resolve root (cwd s) pathName of
          None \<Rightarrow> Some (perror Lstat_failed s)
        | Some (Leaf k) \<Rightarrow>
            Some (s\<lparr>stats := incStat k (stats s), log := log s @ [(pathName, FTW_FILE, depth)]\<rparr>)
        | Some (Dir r x es) \<Rightarrow>
            let s1 = s\<lparr>log := log s @ [(pathName, FTW_DIR, depth)],
                  stats := (stats s)\<lparr>ndir := ndir (stats s) + 1\<rparr>\<rparr> in
            if \<not> r then Some (perror Opendir_error s1)
            else if \<not> x then Some (perror Chdir_error s1)
            else
              (case push ''..'' (- 1) (stk s1) of
                 None \<Rightarrow> None
               | Some st \<Rightarrow>
                   (case push_all (readdir_names es) (depth + 1) st of
                      None \<Rightarrow> None
                    | Some st' \<Rightarrow>
                        let s2 = s1\<lparr>stk := st', cwd := (if pathName = fst root then [es] else es # cwd s1)\<rparr> in
                        Some (if err_set s2 then perror Error_readdir s2 else s2))))"

text \<open>
  The loop of \<^verbatim>\<open>ftw\<close>: the node that is processed is not on the stack; when the stack is empty the
  loop ends, and the node popped last is not processed. The first argument bounds the turns, and
  \<^term>\<open>None\<close> means that it was too small.
\<close>

datatype ftw_end = Chdir_failed | Overflow | Done ftw

fun ftw_loop :: "nat \<Rightarrow> string \<times> ftree \<Rightarrow> node \<Rightarrow> ftw \<Rightarrow> ftw_end option" where
  "ftw_loop 0 root e s = None"
| "ftw_loop (Suc n) root e s =
     (if stk s = [] then Some (Done s)
      else
        case doPath root e s of
          None \<Rightarrow> Some Overflow
        | Some s1 \<Rightarrow>
            (case stk s1 of
               [] \<Rightarrow> Some Overflow
             | e' # st \<Rightarrow> ftw_loop n root e' (s1\<lparr>stk := st\<rparr>)))"

text \<open>
  \<^verbatim>\<open>ftw\<close> itself: \<^verbatim>\<open>chdir\<close> to the root of the walk, whose absolute name \<^verbatim>\<open>getcwd\<close> then returns;
  that name is copied into a node twice, once for the first turn and once onto the stack.
\<close>

definition ftw_run :: "nat \<Rightarrow> string \<times> ftree \<Rightarrow> ftw_end option" where
  "ftw_run n root =
     (case snd root of
        Leaf k \<Rightarrow> Some Chdir_failed
      | Dir r x es \<Rightarrow>
          if \<not> x then Some Chdir_failed
          else
            case create_node (fst root) 0 of
              None \<Rightarrow> Some Overflow
            | Some e \<Rightarrow>
                (case push (fst e) (snd e) [] of
                   None \<Rightarrow> Some Overflow
                 | Some st \<Rightarrow>
                     ftw_loop n root e \<lparr>stk = st, cwd = [es], stats = no_stats, log = [], err_set = False, perrors = []\<rparr>))"


subsection \<open>What the walk should do\<close>

text \<open>
  The visits of a tree in preorder, the entries of a directory from the last to the first, and
  the count of its files by kind.
\<close>

primrec visits :: "ftree \<Rightarrow> string \<Rightarrow> int \<Rightarrow> (string \<times> ftype \<times> int) list"
  and visits_in :: "fentries \<Rightarrow> int \<Rightarrow> (string \<times> ftype \<times> int) list" where
  "visits (Leaf k) n d = [(n, FTW_FILE, d)]"
| "visits (Dir r x es) n d = (n, FTW_DIR, d) # (if r \<and> x then visits_in es (d + 1) else [])"
| "visits_in ENil d = []"
| "visits_in (ECons n t es) d = visits_in es d @ visits t n d"

primrec count :: "ftree \<Rightarrow> fstats \<Rightarrow> fstats"
  and count_in :: "fentries \<Rightarrow> fstats \<Rightarrow> fstats" where
  "count (Leaf k) s = incStat k s"
| "count (Dir r x es) s =
     (let s1 = s\<lparr>ndir := ndir s + 1\<rparr> in if r \<and> x then count_in es s1 else s1)"
| "count_in ENil s = s"
| "count_in (ECons n t es) s = count t (count_in es s)"

text \<open>
  Whether a directory in the walk cannot be opened or entered, and the messages: one for each such directory,
  and one for each directory that is read when \<^verbatim>\<open>errno\<close> is set (\<open>b\<close>) from before.
\<close>

primrec barred :: "ftree \<Rightarrow> bool" and barred_in :: "fentries \<Rightarrow> bool" where
  "barred (Leaf k) = False"
| "barred (Dir r x es) = (if r \<and> x then barred_in es else True)"
| "barred_in ENil = False"
| "barred_in (ECons n t es) = (barred_in es \<or> barred t)"

primrec messages :: "ftree \<Rightarrow> bool \<Rightarrow> diag list" and messages_in :: "fentries \<Rightarrow> bool \<Rightarrow> diag list" where
  "messages (Leaf k) b = []"
| "messages (Dir r x es) b =
     (if \<not> r then [Opendir_error] else if \<not> x then [Chdir_error]
      else (if b then [Error_readdir] else []) @ messages_in es b)"
| "messages_in ENil b = []"
| "messages_in (ECons n t es) b = messages_in es b @ messages t (b \<or> barred_in es)"

text \<open>The number of turns of the loop: one for each node, one for each \<^verbatim>\<open>..\<close>.\<close>

primrec turns :: "ftree \<Rightarrow> nat" and turns_in :: "fentries \<Rightarrow> nat" where
  "turns (Leaf k) = 1"
| "turns (Dir r x es) = (if r \<and> x then Suc (Suc (turns_in es)) else 1)"
| "turns_in ENil = 0"
| "turns_in (ECons n t es) = turns_in es + turns t"

text \<open>Names a walk can handle: short, no dots, no repetition in a directory, and not that of the root.\<close>

primrec tree_ok :: "string \<Rightarrow> ftree \<Rightarrow> bool" and entries_ok :: "string \<Rightarrow> fentries \<Rightarrow> bool" where
  "tree_ok root (Leaf k) \<longleftrightarrow> k \<noteq> S_IFDIR"
| "tree_ok root (Dir r x es) = entries_ok root es"
| "entries_ok root ENil = True"
| "entries_ok root (ECons n t es) \<longleftrightarrow> length n < MAX_NAME \<and> n \<noteq> ''.'' \<and> n \<noteq> ''..'' \<and> n \<noteq> root \<and>
     n \<notin> set (names es) \<and> tree_ok root t \<and> entries_ok root es"


subsection \<open>The walk does it\<close>

lemma push_all_ok:
  "entries_ok root es \<Longrightarrow> push_all (names es) d st = Some (rev (map (\<lambda>n. (n, d)) (names es)) @ st)"
  by (induction es arbitrary: st) (simp_all add: push_def create_node_def)

lemma push_readdir:
  "entries_ok root es \<Longrightarrow> push_all (readdir_names es) d st = Some (rev (map (\<lambda>n. (n, d)) (names es)) @ st)"
  by (simp add: readdir_names_def push_all_ok)

lemma root_not_entry: "entries_ok root es \<Longrightarrow> root \<notin> set (names es)"
  by (induct es rule: fentries.induct [where ?P1.0 = "\<lambda>_. True"]) auto

text \<open>
  A node \<open>(n, d)\<close> that the current directory resolves to a tree is worked off in as many turns as
  the tree has, after which the next node of the stack is due and the current directory is what
  it was; the same for the nodes of a whole directory.
\<close>

lemma ftw_tree:
  "tree_ok (fst root) t \<Longrightarrow> resolve root (cwd s) n = Some t \<Longrightarrow> 0 \<le> d \<Longrightarrow> stk s = x # st \<Longrightarrow> n \<noteq> fst root \<Longrightarrow>
     ftw_loop (turns t + m) root (n, d) s =
     ftw_loop m root x (s\<lparr>stk := st, stats := count t (stats s), log := log s @ visits t n d,
       err_set := err_set s \<or> barred t, perrors := perrors s @ messages t (err_set s)\<rparr>)"
  and ftw_entries:
  "entries_ok (fst root) es \<Longrightarrow> 0 \<le> d \<Longrightarrow>
     (\<forall>k \<in> set (names es). resolve root (cwd s) k = lookup es k) \<Longrightarrow>
     rev (map (\<lambda>k. (k, d)) (names es)) @ x # st = e # stk s \<Longrightarrow>
     ftw_loop (turns_in es + m) root e s =
     ftw_loop m root x (s\<lparr>stk := st, stats := count_in es (stats s), log := log s @ visits_in es d,
       err_set := err_set s \<or> barred_in es, perrors := perrors s @ messages_in es (err_set s)\<rparr>)"
proof (induction t and es arbitrary: s n d x st m and s d x st m e)
  case (Leaf k)
  then show ?case by (cases s) (simp add: doPath_def)
next
  case (Dir r y es)
  show ?case
  proof (cases "r \<and> y")
    case False
    with Dir.prems show ?thesis by (cases s) (auto simp: doPath_def perror_def Let_def)
  next
    case True
    define s1 where "s1 = s\<lparr>log := log s @ [(n, FTW_DIR, d)],
      stats := (stats s)\<lparr>ndir := ndir (stats s) + 1\<rparr>, cwd := es # cwd s,
      perrors := perrors s @ (if err_set s then [Error_readdir] else [])\<rparr>"
    let ?L = "rev (map (\<lambda>k. (k, d + 1)) (names es)) @ (''..'', - 1) # x # st"
    have dp: "doPath root (n, d) s = Some (s1\<lparr>stk := ?L\<rparr>)"
      using Dir.prems True push_readdir [of "fst root" es "d + 1" "(''..'', - 1) # x # st"]
      by (cases s) (simp add: doPath_def s1_def perror_def Let_def push_def create_node_def MAX_NAME_def)
    obtain e' L' where L: "?L = e' # L'" by (cases ?L) auto
    have "turns (Dir r y es) + m = Suc (turns_in es + Suc m)" using True by simp
    then have "ftw_loop (turns (Dir r y es) + m) root (n, d) s =
        ftw_loop (turns_in es + Suc m) root e' (s1\<lparr>stk := L'\<rparr>)"
      using dp L Dir.prems(4) by simp
    also have "\<dots> = ftw_loop (Suc m) root (''..'', - 1)
        (s1\<lparr>stk := x # st, stats := count_in es (stats s1), log := log s1 @ visits_in es (d + 1),
         err_set := err_set s1 \<or> barred_in es, perrors := perrors s1 @ messages_in es (err_set s1)\<rparr>)"
    proof -
      have "resolve root (cwd (s1\<lparr>stk := L'\<rparr>)) k = lookup es k" if "k \<in> set (names es)" for k
      proof -
        have "k \<noteq> fst root" using that Dir.prems(1) root_not_entry by auto
        then show ?thesis by (simp add: resolve_def s1_def)
      qed
      then show ?thesis
        using Dir.IH [of "d + 1" "s1\<lparr>stk := L'\<rparr>" "(''..'', - 1)" "x # st" e' "Suc m"] Dir.prems L by simp
    qed
    also have "\<dots> = ftw_loop m root x (s\<lparr>stk := st, stats := count (Dir r y es) (stats s),
        log := log s @ visits (Dir r y es) n d, err_set := err_set s \<or> barred (Dir r y es),
        perrors := perrors s @ messages (Dir r y es) (err_set s)\<rparr>)"
      using True by (cases s) (simp add: doPath_def s1_def Let_def)
    finally show ?thesis .
  qed
next
  case ENil
  then show ?case by auto
next
  case (ECons n t es)
  let ?L = "rev (map (\<lambda>k. (k, d)) (names es)) @ (n, d) # x # st"
  have L: "?L = e # stk s" using ECons.prems(4) by simp
  have "turns_in (ECons n t es) + m = turns_in es + (turns t + m)" by simp
  also have "ftw_loop \<dots> root e s = ftw_loop (turns t + m) root (n, d)
      (s\<lparr>stk := x # st, stats := count_in es (stats s), log := log s @ visits_in es d,
        err_set := err_set s \<or> barred_in es, perrors := perrors s @ messages_in es (err_set s)\<rparr>)"
    using ECons.IH(2) [of d s "(n, d)" "x # st" e "turns t + m"] ECons.prems L by auto
  also have "\<dots> = ftw_loop m root x
      (s\<lparr>stk := st, stats := count t (count_in es (stats s)), log := (log s @ visits_in es d) @ visits t n d,
        err_set := (err_set s \<or> barred_in es) \<or> barred t,
        perrors := (perrors s @ messages_in es (err_set s)) @ messages t (err_set s \<or> barred_in es)\<rparr>)"
    using ECons.IH(1) [of "s\<lparr>stk := x # st, stats := count_in es (stats s), log := log s @ visits_in es d,
        err_set := err_set s \<or> barred_in es, perrors := perrors s @ messages_in es (err_set s)\<rparr>" n d x st m]
      ECons.prems by simp
  finally show ?case by simp
qed

lemma ntotal_count:
  "ntotal (count t s) = ntotal s + length (visits t n d)"
  and ntotal_count_in:
  "ntotal (count_in es s) = ntotal s + length (visits_in es d)"
proof (induction t and es arbitrary: s n d and s d)
  case (Leaf k)
  then show ?case by (cases k) (simp_all add: ntotal_def)
next
  case (Dir r x es)
  show ?case
    using Dir.IH [of "s\<lparr>ndir := ndir s + 1\<rparr>" "d + 1"] by (simp add: ntotal_def Let_def)
next
  case (ECons k t es)
  show ?case
    using ECons.IH(1) [of "count_in es s" k d] ECons.IH(2) [of s d] by simp
qed simp

text \<open>The first turn, at the root: its entries come onto the stack above its own copy.\<close>

lemma ftw_root:
  assumes ok: "entries_ok nm es" and len: "length nm < MAX_NAME"
  shows "ftw_loop (turns (Dir r True es) + Suc m) (nm, Dir r True es) (nm, 0)
      \<lparr>stk = [(nm, 0)], cwd = [es], stats = no_stats, log = [], err_set = False, perrors = []\<rparr> =
    Some (Done \<lparr>stk = [], cwd = (if r then [] else [es]), stats = count (Dir r True es) no_stats,
      log = visits (Dir r True es) nm 0, err_set = barred (Dir r True es), perrors = messages (Dir r True es) False\<rparr>)"
proof (cases r)
  case False
  then show ?thesis by (simp add: doPath_def resolve_def perror_def Let_def)
next
  case True
  let ?root = "(nm, Dir r True es)"
  let ?L = "rev (map (\<lambda>k. (k, 1)) (names es)) @ (''..'', - 1) # [(nm, 0)] :: node list"
  let ?s = "\<lparr>stk = [(nm, 0)], cwd = [es], stats = no_stats, log = [], err_set = False, perrors = []\<rparr> :: ftw"
  define s1 where "s1 = ?s\<lparr>log := [(nm, FTW_DIR, 0)],
      stats := no_stats\<lparr>ndir := ndir no_stats + 1\<rparr>\<rparr>"
  have dp: "doPath ?root (nm, 0) ?s = Some (s1\<lparr>stk := ?L\<rparr>)"
    using True push_readdir [OF ok, of 1 "(''..'', - 1) # [(nm, 0)]"]
    by (simp add: doPath_def resolve_def s1_def Let_def push_def create_node_def MAX_NAME_def)
  obtain e' L' where L: "?L = e' # L'" by (metis append_is_Nil_conv list.distinct(1) neq_Nil_conv)
  have res: "\<forall>k \<in> set (names es). resolve ?root (cwd (s1\<lparr>stk := L'\<rparr>)) k = lookup es k"
    using root_not_entry [OF ok] by (auto simp: resolve_def s1_def)
  have "turns (Dir r True es) + Suc m = Suc (turns_in es + Suc (Suc m))" using True by simp
  then have "ftw_loop (turns (Dir r True es) + Suc m) ?root (nm, 0) ?s =
      ftw_loop (turns_in es + Suc (Suc m)) ?root e' (s1\<lparr>stk := L'\<rparr>)"
    using dp L by simp
  also have "\<dots> = ftw_loop (Suc (Suc m)) ?root (''..'', - 1)
      (s1\<lparr>stk := [(nm, 0)], stats := count_in es (stats s1), log := log s1 @ visits_in es 1,
       err_set := err_set s1 \<or> barred_in es, perrors := perrors s1 @ messages_in es (err_set s1)\<rparr>)"
    using ftw_entries [of ?root es 1 "s1\<lparr>stk := L'\<rparr>" "(''..'', - 1)" "[(nm, 0)]" e' "Suc (Suc m)"] ok res L
    by simp
  finally show ?thesis using True by (simp add: doPath_def s1_def Let_def)
qed

text \<open>The whole run.\<close>

lemma ftw_run_done:
  assumes "tree_ok nm (Dir r True es)" and "length nm < MAX_NAME" and "turns (Dir r True es) < k"
  shows "ftw_run k (nm, Dir r True es) = Some (Done \<lparr>stk = [], cwd = (if r then [] else [es]),
    stats = count (Dir r True es) no_stats, log = visits (Dir r True es) nm 0,
    err_set = barred (Dir r True es), perrors = messages (Dir r True es) False\<rparr>)"
proof -
  obtain m where k: "k = turns (Dir r True es) + Suc m"
    using assms(3) less_iff_Suc_add [of "turns (Dir r True es)" k] by auto
  show ?thesis
    using ftw_root [of nm es r m] assms(1,2) unfolding k
    by (simp add: ftw_run_def create_node_def push_def)
qed


subsection \<open>Properties\<close>

text \<open>C8: The walk ends, within as many turns as the tree has nodes and enterable directories, plus one, and it does
  what it is for: the visitor is called in preorder with the depth of each file, nothing under a
  directory that cannot be read or entered is visited, each visited file is counted once under
  its kind, and the total that is printed is the number of calls of the visitor.
\<close>

theorem ftw_walks:
  assumes "root = (nm, Dir r True es)" and "tree_ok nm (snd root)" and "length nm < MAX_NAME"
    and "turns (snd root) < k"
  shows "\<exists>s. ftw_run k root = Some (Done s) \<and> stk s = [] \<and> log s = visits (snd root) nm 0 \<and>
    stats s = count (snd root) no_stats \<and> ntotal (stats s) = length (log s)"
  using ftw_run_done [of nm r es k] assms ntotal_count [of "snd root" no_stats nm 0]
  by (simp add: ntotal_def no_stats_def)

definition sample_tree :: "string \<times> ftree" where
  "sample_tree = (''/r'', Dir True True (ECons ''a'' (Leaf S_IFREG)
     (ECons ''b'' (Dir True True (ECons ''c'' (Leaf S_IFLNK) ENil))
     (ECons ''d'' (Dir True False (ECons ''e'' (Leaf S_IFREG) ENil)) ENil))))"

theorem ftw_walks_witness:
  "\<exists>s. ftw_run 9 sample_tree = Some (Done s) \<and> ntotal (stats s) = length (log s) \<and>
     map fst (log s) = [''/r'', ''d'', ''b'', ''c'', ''a'']"
  using ftw_walks [of sample_tree "''/r''" True _ 9, OF sample_tree_def]
  by (auto simp: sample_tree_def MAX_NAME_def)

text \<open>A directory entry of 200 characters or more, which file systems allow up to 255, overruns
  the name field of a node: the walk of a directory that has one ends in the copy, whatever else the directory holds.
\<close>

theorem ftw_long_entry:
  assumes "root = (nm, Dir True True es)" and "n \<in> set (names es)" and "length n \<ge> MAX_NAME"
  shows "ftw_run (Suc k) root = Some Overflow"
proof -
  have none: "push_all ns d st = None" if "n \<in> set ns" for ns d st
    using that assms(3)
    by (induction ns arbitrary: st)
      (auto simp: push_def create_node_def MAX_NAME_def split: option.splits)
  have "push_all (readdir_names es) 1 st = None" for st
    by (rule none) (simp add: readdir_names_def assms(2))
  then show ?thesis
    using assms(1)
    by (simp add: ftw_run_def create_node_def push_def doPath_def resolve_def Let_def split: option.splits)
qed

theorem ftw_long_entry_witness:
  "ftw_run 3 (''/r'', Dir True True (ECons (replicate 255 (CHR ''x'')) (Leaf S_IFREG) ENil)) = Some Overflow"
  using ftw_long_entry [of _ "''/r''" _ "replicate 255 (CHR ''x'')" 2, OF refl]
  by (simp add: MAX_NAME_def numeral_3_eq_3 numeral_2_eq_2)

end
