(* ===== verification/Pagemap.thy ===== *)
theory Pagemap
  imports Prelude
begin

section \<open>Reading a page map entry\<close>

text \<open>
  Model of lab-fileSystem/task-proc/pagemap.c: the arguments, the position of the entry of a virtual
  address in the page map of a process, and the entry's bytes and bits. Words are 64 bits wide, a byte that
  \<^verbatim>\<open>getc\<close> returns has 8; the file, the page size and the byte order of the machine are arguments.
\<close>

unbundle bit_operations_syntax

subsection \<open>Bits and bytes of an entry\<close>

definition PAGEMAP_ENTRY :: nat where "PAGEMAP_ENTRY = 8"

definition GET_BIT :: "64 word \<Rightarrow> nat \<Rightarrow> 64 word" where
  "GET_BIT X Y = drop_bit Y (X AND push_bit Y 1)"

definition GET_PFN :: "64 word \<Rightarrow> 64 word" where
  "GET_PFN X = X AND 0x7FFFFFFFFFFFFF"

text \<open>
  The first loop reads the bytes of the entry and stores them most significant first; a file that ends
  within the entry is \<^term>\<open>None\<close>.
\<close>

fun fill :: "bool \<Rightarrow> nat \<Rightarrow> 8 word list \<Rightarrow> 8 word list \<Rightarrow> 8 word list option" where
  "fill big i bs buf =
     (if i \<ge> PAGEMAP_ENTRY then Some buf
      else
        case bs of
          [] \<Rightarrow> None
        | c # bs' \<Rightarrow> fill big (Suc i) bs' (buf[(if big then i else PAGEMAP_ENTRY - i - 1) := c]))"

declare fill.simps [simp del]

text \<open>The second loop: \<^verbatim>\<open>read_val = (read_val << 8) + c_buf[i]\<close>.\<close>

definition assemble :: "8 word list \<Rightarrow> 64 word" where
  "assemble buf = fold (\<lambda>b v. push_bit 8 v + ucast b) buf 0"

text \<open>The offset in the file: the quotient of two \<^verbatim>\<open>unsigned long\<close>s, times the size of an entry.\<close>

definition file_offset :: "64 word \<Rightarrow> 64 word \<Rightarrow> 64 word" where
  "file_offset virt_addr page = virt_addr div page * of_nat PAGEMAP_ENTRY"


subsection \<open>The reader\<close>

text \<open>
  What is printed about the entry, how the function ends, and whether the file is still open then.
\<close>

datatype line =
  Cannot_open | Fseek_failed | End_of_file | Result "64 word" | Pfn "64 word" | Not_present | Swapped

record outcome =
  ret :: int
  lines :: "line list"
  left_open :: bool

text \<open>
  The file is \<^term>\<open>None\<close> when it cannot be opened; otherwise it is its content. \<^verbatim>\<open>fseek\<close> takes a
  \<^verbatim>\<open>long\<close>, so an offset of \<open>2^63\<close> or more is negative and refused; beyond the end there is nothing to read.
\<close>

definition read_pagemap :: "bool \<Rightarrow> 64 word \<Rightarrow> 8 word list option \<Rightarrow> 64 word \<Rightarrow> outcome" where
  "read_pagemap big page file virt_addr =
     (case file of
        None \<Rightarrow> \<lparr>ret = - 1, lines = [Cannot_open], left_open = False\<rparr>
      | Some bs \<Rightarrow>
          (let off = file_offset virt_addr page in
           if sint off < 0 then \<lparr>ret = - 1, lines = [Fseek_failed], left_open = True\<rparr>
           else
             case fill big 0 (drop (unat off) bs) (replicate PAGEMAP_ENTRY 0) of
               None \<Rightarrow> \<lparr>ret = 0, lines = [End_of_file], left_open = True\<rparr>
             | Some c_buf \<Rightarrow>
                 (let read_val = assemble c_buf in
                  \<lparr>ret = 0,
                   lines = Result read_val #
                     (if GET_BIT read_val 63 \<noteq> 0 then [Pfn (GET_PFN read_val)] else [Not_present]) @
                     (if GET_BIT read_val 62 \<noteq> 0 then [Swapped] else []),
                   left_open = False\<rparr>)))"

text \<open>
  The arguments. \<^verbatim>\<open>strtol\<close> in base 10 is an argument that returns the value and the rest of the
  string; \<open>hex\<close> is \<^verbatim>\<open>strtol\<close> in base 16, whose rest is not looked at. The value is cut to an
  \<^verbatim>\<open>int\<close>. \<^term>\<open>None\<close> is the refusal; the process of \<^verbatim>\<open>self\<close> has number -1.
\<close>

definition to_int :: "int \<Rightarrow> int" where
  "to_int x = sint (word_of_int x :: 32 word)"

definition parse_args ::
  "(string \<Rightarrow> int \<times> string) \<Rightarrow> (string \<Rightarrow> int) \<Rightarrow> string list \<Rightarrow> (int \<times> 64 word) option" where
  "parse_args strtol hex args =
     (case args of
        [a, v] \<Rightarrow>
          if a = ''self'' then Some (- 1, word_of_int (hex v))
          else
            (let (n, end) = strtol a; pid = to_int n in
             if end = a \<or> end \<noteq> '''' \<or> pid \<le> 0 then None else Some (pid, word_of_int (hex v)))
      | _ \<Rightarrow> None)"


subsection \<open>An entry as the kernel writes it\<close>

text \<open>
  An entry has the frame number in bits 0 to 54, the present bit 63 and the swapped bit 62, and
  the bits between as they come (\<open>fl\<close>, 7 bits from bit 55); its bytes in memory order.
\<close>

definition entry :: "bool \<Rightarrow> bool \<Rightarrow> 64 word \<Rightarrow> 64 word \<Rightarrow> 64 word" where
  "entry present swapped fl pfn =
     push_bit 63 (of_bool present) OR push_bit 62 (of_bool swapped) OR push_bit 55 (take_bit 7 fl) OR take_bit 55 pfn"

definition be_bytes :: "64 word \<Rightarrow> 8 word list" where
  "be_bytes w = map (\<lambda>k. ucast (drop_bit (8 * k) w)) [7, 6, 5, 4, 3, 2, 1, 0]"

definition mem_bytes :: "bool \<Rightarrow> 64 word \<Rightarrow> 8 word list" where
  "mem_bytes big w = (if big then be_bytes w else rev (be_bytes w))"

lemma fill_eight:
  "fill big 0 (b0 # b1 # b2 # b3 # b4 # b5 # b6 # b7 # bs) (replicate PAGEMAP_ENTRY 0) =
     Some (if big then [b0, b1, b2, b3, b4, b5, b6, b7] else [b7, b6, b5, b4, b3, b2, b1, b0])"
  by (simp add: fill.simps PAGEMAP_ENTRY_def numeral_eq_Suc)

lemma fill_mem_bytes:
  "fill big 0 (mem_bytes big w @ bs) (replicate PAGEMAP_ENTRY 0) = Some (be_bytes w)"
  by (simp add: mem_bytes_def be_bytes_def fill_eight)

lemma fill_short:
  "length bs < PAGEMAP_ENTRY - i \<Longrightarrow> fill big i bs buf = None"
proof (induction "PAGEMAP_ENTRY - i" arbitrary: i bs buf)
  case (Suc n)
  then show ?case by (subst fill.simps) (auto split: list.split)
qed simp

text \<open>Adding a byte to a shifted word is to put it into the free bits.\<close>

lemma push_byte_disj: "push_bit 8 v + ucast (b :: 8 word) = (push_bit 8 v OR ucast b :: 64 word)"
  by (rule disjunctive_add) (auto simp: bit_simps dest: bit_imp_le_length)

lemma assemble_be_bytes: "assemble (be_bytes w) = w"
proof (rule bit_word_eqI)
  fix n assume "n < LENGTH(64)"
  then show "bit (assemble (be_bytes w)) n \<longleftrightarrow> bit w n"
    by (cases "n < 8"; cases "n < 16"; cases "n < 24"; cases "n < 32"; cases "n < 40"; cases "n < 48"; cases "n < 56";
      simp add: assemble_def be_bytes_def push_byte_disj bit_simps less_diff_conv2)
qed

lemma GET_BIT_eq: "GET_BIT X Y = of_bool (bit X Y)"
  by (rule bit_word_eqI) (auto simp: GET_BIT_def bit_simps dest: bit_imp_le_length)

lemma GET_PFN_eq: "GET_PFN X = take_bit 55 X"
proof -
  have "(0x7FFFFFFFFFFFFF :: 64 word) = mask 55" by (simp add: mask_eq_exp_minus_1)
  then show ?thesis by (simp add: GET_PFN_def take_bit_eq_mask)
qed

lemma entry_bits:
  "GET_BIT (entry p s fl pfn) 63 \<noteq> 0 \<longleftrightarrow> p"
  "GET_BIT (entry p s fl pfn) 62 \<noteq> 0 \<longleftrightarrow> s"
  "GET_PFN (entry p s fl pfn) = take_bit 55 pfn"
proof -
  show "GET_BIT (entry p s fl pfn) 63 \<noteq> 0 \<longleftrightarrow> p" "GET_BIT (entry p s fl pfn) 62 \<noteq> 0 \<longleftrightarrow> s"
    by (simp_all add: GET_BIT_eq entry_def bit_simps)
  show "GET_PFN (entry p s fl pfn) = take_bit 55 pfn"
    by (rule bit_word_eqI) (auto simp: GET_PFN_eq entry_def bit_simps)
qed

lemma eight_bytes:
  "8 \<le> length xs \<Longrightarrow> \<exists>b0 b1 b2 b3 b4 b5 b6 b7 r. xs = b0 # b1 # b2 # b3 # b4 # b5 # b6 # b7 # r"
  by (auto simp: numeral_eq_Suc Suc_le_length_iff)

lemma fill_mem_bytes_drop:
  assumes "drop k bs = mem_bytes big w @ rest"
  shows "fill big 0 (drop k bs) (replicate PAGEMAP_ENTRY 0) = Some (be_bytes w)"
  by (simp add: assms fill_mem_bytes)


subsection \<open>Properties\<close>

text \<open>C26: What the reader says about an entry is what the kernel wrote: on a machine of either byte order, when the
  eight bytes of an entry stand at the offset of the address, it prints the entry's value, the
  frame number exactly when the page is present, and the swapped line exactly when it is swapped.
\<close>

theorem pagemap_decodes:
  assumes "drop (unat (file_offset va page)) bs = mem_bytes big (entry p s fl pfn) @ rest"
    and "0 \<le> sint (file_offset va page)"
  shows "read_pagemap big page (Some bs) va =
    \<lparr>ret = 0, lines = Result (entry p s fl pfn) #
       (if p then [Pfn (take_bit 55 pfn)] else [Not_present]) @ (if s then [Swapped] else []),
     left_open = False\<rparr>"
  using assms fill_mem_bytes_drop [OF assms(1)]
  by (simp add: read_pagemap_def assemble_be_bytes entry_bits Let_def)

theorem pagemap_decodes_witness:
  "read_pagemap False 4096 (Some (replicate 8 0 @ mem_bytes False (entry True False 2 0x12345))) 0x1234 =
     \<lparr>ret = 0, lines = [Result 0x8100000000012345, Pfn 0x12345], left_open = False\<rparr>"
proof -
  have "file_offset 0x1234 4096 = 8" by (simp add: file_offset_def PAGEMAP_ENTRY_def)
  moreover have "entry True False 2 0x12345 = 0x8100000000012345" by (simp add: entry_def)
  ultimately show ?thesis
    using pagemap_decodes [of "0x1234" 4096 "replicate 8 0 @ mem_bytes False (entry True False 2 0x12345)"
        False True False 2 "0x12345" "[]"]
    by (simp add: take_bit_eq_mask mask_eq_exp_minus_1)
qed

text \<open>Every path out of the reader with an opened file that is not the decoding of an entry leaves the file open:
  the file is closed exactly when an entry has been printed.
\<close>

theorem pagemap_leaks:
  "left_open (read_pagemap big page (Some bs) va) \<longleftrightarrow>
     sint (file_offset va page) < 0 \<or> length bs < unat (file_offset va page) + PAGEMAP_ENTRY"
proof (cases "length bs < unat (file_offset va page) + PAGEMAP_ENTRY")
  case True
  then have "length (drop (unat (file_offset va page)) bs) < PAGEMAP_ENTRY - 0"
    by (auto simp: PAGEMAP_ENTRY_def)
  then show ?thesis
    using fill_short [of "drop (unat (file_offset va page)) bs" 0 big "replicate PAGEMAP_ENTRY 0"] True
    by (simp add: read_pagemap_def Let_def)
next
  case False
  let ?d = "drop (unat (file_offset va page)) bs"
  have "8 \<le> length ?d" using False by (simp add: PAGEMAP_ENTRY_def)
  then obtain b0 b1 b2 b3 b4 b5 b6 b7 r where d: "?d = b0 # b1 # b2 # b3 # b4 # b5 # b6 # b7 # r"
    using eight_bytes by blast
  then show ?thesis using False by (simp add: read_pagemap_def Let_def fill_eight)
qed

end
