(* ===== verification/Win_Readwrite.thy ===== *)
theory Win_Readwrite
  imports Rw_Lock
begin

section \<open>Readers and writers over Windows objects\<close>

text \<open>
  Model of lab-shmemory/mutex/main.c: five readers and three writers, threads of one process that
  share counters, a flag and two auto-reset events. A thread is a program counter over the statements of
  \<^verbatim>\<open>reader\<close> and \<^verbatim>\<open>writer\<close> and of the four functions they call; each access to a shared variable is a step
  of its own, so that a test and what follows it can be interleaved.
\<close>

subsection \<open>State\<close>

definition READERS :: nat where "READERS = 5"
definition WRITERS :: nat where "WRITERS = 3"

text \<open>
  \<open>Sr\<close>, \<open>Tr\<close>, \<open>Sw\<close>, \<open>Tw\<close> stand for \<^verbatim>\<open>start_read\<close>, \<^verbatim>\<open>stop_read\<close>, \<^verbatim>\<open>start_write\<close> and
  \<^verbatim>\<open>stop_write\<close>; the numbers are the statements in their order.
\<close>

datatype wm_pc =
    WmLoop | WmDone
  | Sr_inc | Sr_writing | Sr_poll | Sr_wait | Sr_mutex | Sr_dec | Sr_active | Sr_set | Sr_release
  | Rd_print | Tr_dec | Tr_test | Tr_set
  | Sw_inc | Sw_active | Sw_writing | Sw_wait | Sw_dec | Sw_set
  | Wr_char | Wr_load int | Wr_store int int | Wr_print int
  | Tw_clear | Tw_test | Tw_readers | Tw_writers

record wm_sys =
  can_read :: bool
  can_write :: bool
  mutex :: "rw_actor option"
  waiting_writers :: int
  waiting_readers :: int
  active_readers :: int
  writing :: bool
  wm_ch :: int
  wm_flag :: bool
  wm_pc :: "rw_actor \<Rightarrow> wm_pc"
  wm_out :: "(rw_actor \<times> int) list"

definition wm_init :: wm_sys where
  "wm_init = \<lparr>can_read = False, can_write = False, mutex = None, waiting_writers = 0,
     waiting_readers = 0, active_readers = 0, writing = False, wm_ch = 0, wm_flag = True,
     wm_pc = (\<lambda>_. WmLoop), wm_out = []\<rparr>"

definition wm_goto :: "rw_actor \<Rightarrow> wm_pc \<Rightarrow> wm_sys \<Rightarrow> wm_sys" where
  "wm_goto a p s = s\<lparr>wm_pc := (wm_pc s)(a := p)\<rparr>"


subsection \<open>The statements\<close>

text \<open>
  \<^verbatim>\<open>WaitForSingleObject\<close> on an auto-reset event passes when the event is set, and resets it; with a time-out
  of 0 it returns at once and says which. A wait that does not pass is \<^term>\<open>None\<close>.
\<close>

fun wm_reader :: "rw_actor \<Rightarrow> wm_sys \<Rightarrow> wm_pc \<Rightarrow> wm_sys option" where
  "wm_reader a s WmLoop = Some (wm_goto a (if wm_flag s then Sr_inc else WmDone) s)"
| "wm_reader a s Sr_inc = Some (wm_goto a Sr_writing (s\<lparr>waiting_readers := waiting_readers s + 1\<rparr>))"
| "wm_reader a s Sr_writing = Some (wm_goto a (if writing s then Sr_wait else Sr_poll) s)"
| "wm_reader a s Sr_poll =
     (if can_write s then Some (wm_goto a Sr_wait (s\<lparr>can_write := False\<rparr>))
      else Some (wm_goto a Sr_mutex s))"
| "wm_reader a s Sr_wait =
     (if can_read s then Some (wm_goto a Sr_mutex (s\<lparr>can_read := False\<rparr>)) else None)"
| "wm_reader a s Sr_mutex =
     (if mutex s = None then Some (wm_goto a Sr_dec (s\<lparr>mutex := Some a\<rparr>)) else None)"
| "wm_reader a s Sr_dec = Some (wm_goto a Sr_active (s\<lparr>waiting_readers := waiting_readers s - 1\<rparr>))"
| "wm_reader a s Sr_active = Some (wm_goto a Sr_set (s\<lparr>active_readers := active_readers s + 1\<rparr>))"
| "wm_reader a s Sr_set = Some (wm_goto a Sr_release (s\<lparr>can_read := True\<rparr>))"
| "wm_reader a s Sr_release = Some (wm_goto a Rd_print (s\<lparr>mutex := None\<rparr>))"
| "wm_reader a s Rd_print =
     Some (wm_goto a Tr_dec (s\<lparr>wm_out := wm_out s @ [(a, 97 + c_rem (wm_ch s - 1) 26)]\<rparr>))"
| "wm_reader a s Tr_dec = Some (wm_goto a Tr_test (s\<lparr>active_readers := active_readers s - 1\<rparr>))"
| "wm_reader a s Tr_test = Some (wm_goto a (if active_readers s = 0 then Tr_set else WmLoop) s)"
| "wm_reader a s Tr_set = Some (wm_goto a WmLoop (s\<lparr>can_write := True\<rparr>))"
| "wm_reader a s _ = None"

fun wm_writer :: "rw_actor \<Rightarrow> wm_sys \<Rightarrow> wm_pc \<Rightarrow> wm_sys option" where
  "wm_writer a s WmLoop = Some (wm_goto a (if wm_flag s then Sw_inc else WmDone) s)"
| "wm_writer a s Sw_inc = Some (wm_goto a Sw_active (s\<lparr>waiting_writers := waiting_writers s + 1\<rparr>))"
| "wm_writer a s Sw_active = Some (wm_goto a (if 0 < active_readers s then Sw_wait else Sw_writing) s)"
| "wm_writer a s Sw_writing = Some (wm_goto a (if writing s then Sw_wait else Sw_dec) s)"
| "wm_writer a s Sw_wait =
     (if can_write s then Some (wm_goto a Sw_dec (s\<lparr>can_write := False\<rparr>)) else None)"
| "wm_writer a s Sw_dec = Some (wm_goto a Sw_set (s\<lparr>waiting_writers := waiting_writers s - 1\<rparr>))"
| "wm_writer a s Sw_set = Some (wm_goto a Wr_char (s\<lparr>writing := True\<rparr>))"
| "wm_writer a s Wr_char = Some (wm_goto a (Wr_load (to_schar (97 + c_rem (wm_ch s) 26))) s)"
| "wm_writer a s (Wr_load c) = Some (wm_goto a (Wr_store c (wm_ch s)) s)"
| "wm_writer a s (Wr_store c v) = Some (wm_goto a (Wr_print c) (s\<lparr>wm_ch := to_schar (v + 1)\<rparr>))"
| "wm_writer a s (Wr_print c) = Some (wm_goto a Tw_clear (s\<lparr>wm_out := wm_out s @ [(a, c)]\<rparr>))"
| "wm_writer a s Tw_clear = Some (wm_goto a Tw_test (s\<lparr>writing := False\<rparr>))"
| "wm_writer a s Tw_test = Some (wm_goto a (if waiting_readers s \<noteq> 0 then Tw_readers else Tw_writers) s)"
| "wm_writer a s Tw_readers = Some (wm_goto a WmLoop (s\<lparr>can_read := True\<rparr>))"
| "wm_writer a s Tw_writers = Some (wm_goto a WmLoop (s\<lparr>can_write := True\<rparr>))"
| "wm_writer a s _ = None"

datatype wm_event = Step rw_actor | Sigint

fun wm_exec :: "wm_sys \<Rightarrow> wm_event \<Rightarrow> wm_sys option" where
  "wm_exec s (Step (Reader i)) =
     (if i < READERS then wm_reader (Reader i) s (wm_pc s (Reader i)) else None)"
| "wm_exec s (Step (Writer i)) =
     (if i < WRITERS then wm_writer (Writer i) s (wm_pc s (Writer i)) else None)"
| "wm_exec s Sigint = Some (s\<lparr>wm_flag := False\<rparr>)"


subsection \<open>The counters\<close>

text \<open>How many of the first \<open>n\<close> threads are at a statement of a set.\<close>

definition tally :: "nat \<Rightarrow> ('p \<Rightarrow> bool) \<Rightarrow> (nat \<Rightarrow> 'p) \<Rightarrow> int" where
  "tally n P h = int (card {i. i < n \<and> P (h i)})"

lemma tally_upd:
  assumes "k < n"
  shows "tally n P (\<lambda>i. if i = k then x else h i) = tally n P h - of_bool (P (h k)) + of_bool (P x)"
proof -
  let ?A = "{i. i < n \<and> i \<noteq> k \<and> P (h i)}"
  have fin: "finite ?A" by simp
  have "{i. i < n \<and> P (if i = k then x else h i)} = (if P x then insert k ?A else ?A)"
    "{i. i < n \<and> P (h i)} = (if P (h k) then insert k ?A else ?A)"
    using assms by auto
  then show ?thesis using fin by (simp add: tally_def)
qed

lemma tally_pos: "k < n \<Longrightarrow> P (h k) \<Longrightarrow> 0 < tally n P h"
  by (auto simp: tally_def card_gt_0_iff)

lemma tally_bounds: "0 \<le> tally n P h \<and> tally n P h \<le> int n"
proof -
  have "card {i. i < n \<and> P (h i)} \<le> card {..<n}" by (rule card_mono) auto
  then show ?thesis by (simp add: tally_def)
qed

fun wr_waits :: "wm_pc \<Rightarrow> bool" where
  "wr_waits Sr_writing = True"
| "wr_waits Sr_poll = True"
| "wr_waits Sr_wait = True"
| "wr_waits Sr_mutex = True"
| "wr_waits Sr_dec = True"
| "wr_waits _ = False"

fun wr_active :: "wm_pc \<Rightarrow> bool" where
  "wr_active Sr_set = True"
| "wr_active Sr_release = True"
| "wr_active Rd_print = True"
| "wr_active Tr_dec = True"
| "wr_active _ = False"

fun ww_waits :: "wm_pc \<Rightarrow> bool" where
  "ww_waits Sw_active = True"
| "ww_waits Sw_writing = True"
| "ww_waits Sw_wait = True"
| "ww_waits Sw_dec = True"
| "ww_waits _ = False"

fun registers :: "wm_pc \<Rightarrow> bool" where
  "registers Sr_dec = True"
| "registers Sr_active = True"
| "registers Sr_set = True"
| "registers Sr_release = True"
| "registers _ = False"

definition wm_tallies :: "wm_sys \<Rightarrow> bool" where
  "wm_tallies s \<longleftrightarrow>
     waiting_readers s = tally READERS wr_waits (\<lambda>i. wm_pc s (Reader i)) \<and>
     active_readers s = tally READERS wr_active (\<lambda>i. wm_pc s (Reader i)) \<and>
     waiting_writers s = tally WRITERS ww_waits (\<lambda>i. wm_pc s (Writer i))"

definition wm_owner :: "wm_sys \<Rightarrow> bool" where
  "wm_owner s \<longleftrightarrow> (\<forall>i. registers (wm_pc s (Reader i)) \<longleftrightarrow> mutex s = Some (Reader i))"

definition wm_inv :: "wm_sys \<Rightarrow> bool" where
  "wm_inv s \<longleftrightarrow> wm_tallies s \<and> wm_owner s"

lemma wm_inv_init: "wm_inv wm_init"
  by (simp add: wm_inv_def wm_tallies_def wm_owner_def wm_init_def tally_def)

lemma wm_tallies_reader:
  "wm_reader (Reader k) s (wm_pc s (Reader k)) = Some t \<Longrightarrow> k < READERS \<Longrightarrow> wm_tallies s \<Longrightarrow> wm_tallies t"
  by (cases "wm_pc s (Reader k)")
    (auto simp: wm_tallies_def wm_goto_def tally_upd split: if_splits)

lemma wm_tallies_writer:
  "wm_writer (Writer k) s (wm_pc s (Writer k)) = Some t \<Longrightarrow> k < WRITERS \<Longrightarrow> wm_tallies s \<Longrightarrow> wm_tallies t"
  by (cases "wm_pc s (Writer k)")
    (auto simp: wm_tallies_def wm_goto_def tally_upd split: if_splits)

lemma wm_owner_reader:
  assumes "wm_reader (Reader k) s (wm_pc s (Reader k)) = Some t" and "wm_owner s"
  shows "wm_owner t"
proof -
  have m: "registers (wm_pc s (Reader i)) \<longleftrightarrow> mutex s = Some (Reader i)" for i
    using assms(2) by (simp add: wm_owner_def)
  have "registers (wm_pc t (Reader i)) \<longleftrightarrow> mutex t = Some (Reader i)" for i
    using assms(1) m [of i] m [of k]
    by (cases "i = k"; cases "wm_pc s (Reader k)") (simp_all add: wm_goto_def split: if_splits, (clarsimp)+)
  then show ?thesis by (simp add: wm_owner_def)
qed

lemma wm_owner_writer:
  "wm_writer (Writer k) s (wm_pc s (Writer k)) = Some t \<Longrightarrow> wm_owner s \<Longrightarrow> wm_owner t"
  by (cases "wm_pc s (Writer k)") (auto simp: wm_owner_def wm_goto_def split: if_splits)

interpretation wm: invariant_system wm_exec wm_init wm_inv
proof
  show "wm_inv wm_init" by (rule wm_inv_init)
next
  fix s e t
  assume "wm_inv s" and "wm_exec s e = Some t"
  then show "wm_inv t"
  proof (cases e)
    case Sigint
    with \<open>wm_inv s\<close> \<open>wm_exec s e = Some t\<close> show ?thesis
      by (auto simp: wm_inv_def wm_tallies_def wm_owner_def)
  next
    case (Step a)
    with \<open>wm_inv s\<close> \<open>wm_exec s e = Some t\<close> show ?thesis
      by (cases a) (auto simp: wm_inv_def split: if_splits
        intro: wm_tallies_reader wm_tallies_writer wm_owner_reader wm_owner_writer)
  qed
qed

subsection \<open>Runs\<close>

abbreviation R0 :: wm_event where "R0 \<equiv> Step (Reader 0)"
abbreviation W0 :: wm_event where "W0 \<equiv> Step (Writer 0)"
abbreviation W1 :: wm_event where "W1 \<equiv> Step (Writer 1)"

lemmas wm_eval = wm_init_def wm_goto_def READERS_def WRITERS_def c_rem_def to_schar_def
  signed_modulo_int_def sgn_if

text \<open>Both writers test before either has set the flag.\<close>

definition wm_two_schedule :: "wm_event list" where
  "wm_two_schedule = [W0, W0, W0, W0, W1, W1, W1, W1, W0, W0, W1, W1, W0, W1, W0, W0, W0, W1, W1, W1]"

text \<open>A reader enters while a writer that has passed its tests has not yet set the flag.\<close>

definition wm_beside_schedule :: "wm_event list" where
  "wm_beside_schedule = replicate 4 W0 @ replicate 9 R0 @ [W0, W0]"

text \<open>
  A writer leaves and signals the one that waits; a reader's poll takes the signal and
  then waits for the readers' event; the signal SIGINT ends the threads that come back to their loop.
\<close>

definition wm_hang_schedule :: "wm_event list" where
  "wm_hang_schedule =
     replicate 6 W0 @ replicate 4 W1 @ replicate 7 W0 @ replicate 4 R0 @ [Sigint, W0] @
     [Step (Reader 1), Step (Reader 2), Step (Reader 3), Step (Reader 4), Step (Writer 2)]"

lemma run_reached: "\<exists>s. run wm_exec wm_init es = Some s \<and> P s \<Longrightarrow> \<exists>s. reach wm_exec wm_init s \<and> P s"
  by (elim exE conjE) (auto intro: run_reach_init)

lemma wm_two_run:
  "\<exists>s. run wm_exec wm_init wm_two_schedule = Some s \<and>
     wm_out s = [(Writer 0, 97), (Writer 1, 97)] \<and> writing s \<and>
     wm_pc s (Writer 0) = Tw_clear \<and> wm_pc s (Writer 1) = Tw_clear"
  by (simp add: wm_two_schedule_def wm_eval)

lemma wm_beside_run:
  "\<exists>s. run wm_exec wm_init wm_beside_schedule = Some s \<and>
     wm_pc s (Writer 0) = Wr_char \<and> wm_pc s (Reader 0) = Rd_print \<and> active_readers s = 1"
  by (simp add: wm_beside_schedule_def wm_eval numeral_eq_Suc)

lemma less_READERS: "i < READERS \<longleftrightarrow> i = 0 \<or> i = 1 \<or> i = 2 \<or> i = 3 \<or> i = 4"
  by (auto simp: READERS_def)

lemma less_WRITERS: "i < WRITERS \<longleftrightarrow> i = 0 \<or> i = 1 \<or> i = 2"
  by (auto simp: WRITERS_def)

text \<open>What a run has come to: the two events and the statements of all threads.\<close>

definition wm_view :: "wm_sys \<Rightarrow> bool \<times> bool \<times> wm_pc list \<times> wm_pc list" where
  "wm_view s = (can_read s, can_write s,
     map (\<lambda>i. wm_pc s (Reader i)) [0, 1, 2, 3, 4], map (\<lambda>i. wm_pc s (Writer i)) [0, 1, 2])"

definition wm_hung :: "bool \<times> bool \<times> wm_pc list \<times> wm_pc list" where
  "wm_hung = (False, False, [Sr_wait, WmDone, WmDone, WmDone, WmDone], [WmDone, Sw_wait, WmDone])"

lemma wm_hang_run: "map_option wm_view (run wm_exec wm_init wm_hang_schedule) = Some wm_hung"
  by code_simp

lemma wm_stuck: "wm_view s = wm_hung \<Longrightarrow> wm_exec s (Step a) = None"
  by (cases a) (auto simp: wm_view_def wm_hung_def less_READERS less_WRITERS)


subsection \<open>Properties\<close>

text \<open>C17: the counters of the monitor count: in every reachable state they are the numbers of readers
  between their two updates and of waiting writers, never negative, and at most one reader is in
  the part of \<^verbatim>\<open>start_read\<close> that the mutex protects.\<close>

theorem wm_counters:
  assumes "reach wm_exec wm_init s"
  shows "waiting_readers s = int (card {i. i < READERS \<and> wr_waits (wm_pc s (Reader i))}) \<and>
    active_readers s = int (card {i. i < READERS \<and> wr_active (wm_pc s (Reader i))}) \<and>
    waiting_writers s = int (card {i. i < WRITERS \<and> ww_waits (wm_pc s (Writer i))}) \<and>
    (registers (wm_pc s (Reader i)) \<and> registers (wm_pc s (Reader j)) \<longrightarrow> i = j)"
  using wm.reach_inv [OF assms] by (auto simp: wm_inv_def wm_tallies_def wm_owner_def tally_def)

theorem wm_counters_witness:
  "\<exists>s. reach wm_exec wm_init s \<and> card {i. i < READERS \<and> wr_active (wm_pc s (Reader i))} = 1"
proof -
  obtain s where s: "reach wm_exec wm_init s" "active_readers s = 1"
    using run_reached [OF wm_beside_run] by auto
  then show ?thesis using wm_counters [OF s(1)] by auto
qed

text \<open>A writer that leaves lets the waiting readers go first: when a reader waits for its event, the two
  steps with which \<^verbatim>\<open>stop_write\<close> ends signal that event, and the reader can go on.\<close>

theorem wm_release_wakes_reader:
  assumes "reach wm_exec wm_init s" and "j < WRITERS" and "wm_pc s (Writer j) = Tw_test"
    and "i < READERS" and "wm_pc s (Reader i) = Sr_wait"
  shows "\<exists>t. run wm_exec s [Step (Writer j), Step (Writer j), Step (Reader i)] = Some t \<and>
    wm_pc t (Reader i) = Sr_mutex \<and> wm_pc t (Writer j) = WmLoop"
proof -
  have "0 < waiting_readers s"
    using wm.reach_inv [OF assms(1)] tally_pos [OF assms(4), of wr_waits "\<lambda>i. wm_pc s (Reader i)"] assms(5)
    by (simp add: wm_inv_def wm_tallies_def)
  then show ?thesis using assms by (simp add: wm_goto_def)
qed

text \<open>The state in which a reader waits and a writer is about to look for readers.\<close>

definition wm_wake_schedule :: "wm_event list" where
  "wm_wake_schedule = replicate 7 W0 @ replicate 3 R0 @ replicate 4 W0"

lemma wm_wake_run:
  "\<exists>s. run wm_exec wm_init wm_wake_schedule = Some s \<and>
     wm_pc s (Writer 0) = Tw_test \<and> wm_pc s (Reader 0) = Sr_wait"
  by (simp add: wm_wake_schedule_def wm_eval numeral_eq_Suc)

theorem wm_release_wakes_reader_witness:
  "\<exists>s t. reach wm_exec wm_init s \<and> run wm_exec s [W0, W0, R0] = Some t \<and> wm_pc t (Reader 0) = Sr_mutex"
proof -
  obtain s where s: "reach wm_exec wm_init s" "wm_pc s (Writer 0) = Tw_test" "wm_pc s (Reader 0) = Sr_wait"
    using run_reached [OF wm_wake_run] by blast
  from wm_release_wakes_reader [OF s(1) _ s(2) _ s(3)] s(1) show ?thesis
    by (auto simp: READERS_def WRITERS_def)
qed

text \<open>Writers do not exclude each other, because the test in \<^verbatim>\<open>start_write\<close> and the flag that it tests are
  separate steps: two writers can be inside at once and print the same letter.\<close>

theorem wm_two_writers:
  "\<exists>s. reach wm_exec wm_init s \<and> wm_out s = [(Writer 0, 97), (Writer 1, 97)] \<and> writing s \<and>
     wm_pc s (Writer 0) = Tw_clear \<and> wm_pc s (Writer 1) = Tw_clear"
  using run_reached [OF wm_two_run] by simp

text \<open>Readers and writers do not exclude each other either: a reader can print while a writer is
  about to take its letter.\<close>

theorem wm_reader_beside_writer:
  "\<exists>s. reach wm_exec wm_init s \<and> wm_pc s (Writer 0) = Wr_char \<and> wm_pc s (Reader 0) = Rd_print"
  using run_reached [OF wm_beside_run] by blast

text \<open>A reader's poll of the writers' event consumes the signal meant for a waiting writer. If the
  interrupt comes then, both wait for ever and \<^verbatim>\<open>main\<close>, which waits for all threads, never ends.\<close>

theorem wm_hang:
  "\<exists>s. reach wm_exec wm_init s \<and> wm_pc s (Reader 0) = Sr_wait \<and> wm_pc s (Writer 1) = Sw_wait \<and>
     (\<forall>a. wm_exec s (Step a) = None)"
proof -
  obtain s where r: "run wm_exec wm_init wm_hang_schedule = Some s" and v: "wm_view s = wm_hung"
    using wm_hang_run by auto
  have "reach wm_exec wm_init s" by (rule run_reach_init [OF r])
  moreover have "wm_pc s (Reader 0) = Sr_wait" "wm_pc s (Writer 1) = Sw_wait"
    using v by (simp_all add: wm_view_def wm_hung_def)
  ultimately show ?thesis using wm_stuck [OF v] by blast
qed

end
