(* ===== verification/Stdio_Streams.thy ===== *)
theory Stdio_Streams
  imports Prelude "HOL-Library.Multiset"
begin

section \<open>Buffered streams over shared files\<close>

text \<open>
  Models of lab-bio: two streams over one open file (task-01, task-02), two descriptors of one file
  without buffers (task-03, task-04, task-05), and two buffered writers of one file (task-06, task-07).
  A file is its list of characters; an open file has a position that all its users share.
\<close>

subsection \<open>Reading\<close>

definition BUFF_SIZE :: nat where "BUFF_SIZE = 20"

text \<open>
  A stream is the part of its buffer that has not been delivered. When that is empty, the next
  character comes with a \<^verbatim>\<open>read\<close> of a whole buffer from the open file, whose unread part is \<open>inp\<close>.
\<close>

fun stream_getc :: "string \<Rightarrow> string \<Rightarrow> char option \<times> string \<times> string" where
  "stream_getc (c # rest) inp = (Some c, rest, inp)"
| "stream_getc [] inp =
     (case take BUFF_SIZE inp of
        [] \<Rightarrow> (None, [], inp)
      | c # rest \<Rightarrow> (Some c, rest, drop BUFF_SIZE inp))"

lemma stream_getc_None: "stream_getc b inp = (None, b', inp') \<longleftrightarrow> b = [] \<and> inp = [] \<and> b' = [] \<and> inp' = []"
  by (cases b) (auto simp: BUFF_SIZE_def split: list.splits)

lemma stream_getc_Some:
  assumes "stream_getc b inp = (Some c, b', inp')"
  shows "mset b + mset inp = add_mset c (mset b' + mset inp')"
proof (cases b)
  case Nil
  have "mset inp = mset (take BUFF_SIZE inp) + mset (drop BUFF_SIZE inp)"
    by (metis append_take_drop_id mset_append)
  then show ?thesis using assms Nil by (auto split: list.splits)
qed (use assms in auto)

lemma stream_getc_length:
  "stream_getc b inp = (Some c, b', inp') \<Longrightarrow> length b + length inp = Suc (length b' + length inp')"
  using stream_getc_Some by (metis size_add_mset size_mset size_union)


subsection \<open>Two streams in turn: task-01\<close>

text \<open>
  The loop of \<^verbatim>\<open>main\<close>: one character from the first stream, one from the second, until a turn in which
  both calls fail. What is printed carries the number of the stream, for the colour.
\<close>

definition tagged :: "nat \<Rightarrow> char option \<Rightarrow> (nat \<times> char) list" where
  "tagged k c = (case c of None \<Rightarrow> [] | Some x \<Rightarrow> [(k, x)])"

function bio_loop1 :: "string \<Rightarrow> string \<Rightarrow> string \<Rightarrow> (nat \<times> char) list" where
  "bio_loop1 b1 b2 inp =
     (let (c1, b1', inp1) = stream_getc b1 inp; (c2, b2', inp2) = stream_getc b2 inp1 in
      if c1 = None \<and> c2 = None then []
      else tagged 1 c1 @ tagged 2 c2 @ bio_loop1 b1' b2' inp2)"
  by pat_completeness auto
termination
proof (relation "measure (\<lambda>(b1, b2, inp). length b1 + length b2 + length inp)", goal_cases)
  case (2 b1 b2 inp x c1 y b1' inp1 z c2 w b2' inp2)
  have x: "stream_getc b1 inp = (c1, b1', inp1)" "stream_getc b2 inp1 = (c2, b2', inp2)"
    using 2 by simp_all
  then show ?case
    using 2(7) stream_getc_length [of b1 inp _ b1' inp1] stream_getc_length [of b2 inp1 _ b2' inp2]
    by (cases c1; cases c2) (auto simp: stream_getc_None)
qed simp

declare bio_loop1.simps [simp del]

definition bio_task1 :: "string \<Rightarrow> (nat \<times> char) list" where
  "bio_task1 content = bio_loop1 [] [] content"

text \<open>What two lists give in turn, and then the rest of the longer one.\<close>

fun in_turn :: "string \<Rightarrow> string \<Rightarrow> (nat \<times> char) list" where
  "in_turn [] ys = map (Pair 2) ys"
| "in_turn xs [] = map (Pair 1) xs"
| "in_turn (x # xs) (y # ys) = (1, x) # (2, y) # in_turn xs ys"

lemma bio_loop1_empty: "bio_loop1 xs ys [] = in_turn xs ys"
proof (induction xs ys rule: in_turn.induct)
  case (1 ys)
  show ?case by (induction ys) (simp_all add: bio_loop1.simps tagged_def)
next
  case (2 x xs)
  have "bio_loop1 zs [] [] = map (Pair 1) zs" for zs
    by (induction zs) (simp_all add: bio_loop1.simps tagged_def)
  then show ?case by simp
next
  case (3 x xs y ys)
  then show ?case by (simp add: bio_loop1.simps [of "x # xs"] tagged_def)
qed

lemma bio_loop1_mset: "image_mset snd (mset (bio_loop1 b1 b2 inp)) = mset b1 + mset b2 + mset inp"
proof (induction b1 b2 inp rule: bio_loop1.induct)
  case (1 b1 b2 inp)
  obtain c1 b1' inp1 where x1: "stream_getc b1 inp = (c1, b1', inp1)" by (metis prod_cases3)
  obtain c2 b2' inp2 where x2: "stream_getc b2 inp1 = (c2, b2', inp2)" by (metis prod_cases3)
  show ?case
  proof (cases "c1 = None \<and> c2 = None")
    case True
    then show ?thesis using x1 x2 bio_loop1_empty [of "[]" "[]"] by (simp add: stream_getc_None)
  next
    case False
    note IH = "1.IH" [OF x1 [symmetric] refl refl x2 [symmetric] refl refl False]
    have m1: "mset b1 + mset inp = image_mset snd (mset (tagged 1 c1)) + mset b1' + mset inp1"
      using x1 stream_getc_Some [of b1 inp _ b1' inp1] by (cases c1) (auto simp: tagged_def stream_getc_None)
    have m2: "mset b2 + mset inp1 = image_mset snd (mset (tagged 2 c2)) + mset b2' + mset inp2"
      using x2 stream_getc_Some [of b2 inp1 _ b2' inp2] by (cases c2) (auto simp: tagged_def stream_getc_None)
    have "image_mset snd (mset (bio_loop1 b1 b2 inp)) =
        image_mset snd (mset (tagged 1 c1)) + image_mset snd (mset (tagged 2 c2)) +
          (mset b1' + mset b2' + mset inp2)"
      using False x1 x2 IH by (cases c1; cases c2) (simp_all add: bio_loop1.simps [of b1] add.assoc)
    also have "\<dots> = (image_mset snd (mset (tagged 1 c1)) + mset b1') +
        (image_mset snd (mset (tagged 2 c2)) + mset b2' + mset inp2)"
      by (simp only: ac_simps)
    also have "\<dots> = (mset b1 + mset inp) + mset b2"
      unfolding m2 [symmetric] m1 by (simp only: ac_simps)
    finally show ?thesis by (simp only: ac_simps)
  qed
qed

lemma in_turn_Nil: "in_turn xs [] = map (Pair 1) xs"
  by (cases xs) simp_all

lemma buff_Cons:
  "take BUFF_SIZE (c # cs) = c # take 19 cs" "drop BUFF_SIZE (c # cs) = drop 19 cs"
  by (simp_all add: BUFF_SIZE_def take_Cons' drop_Cons')

lemma bio_task1_short:
  assumes "length content \<le> 2 * BUFF_SIZE"
  shows "bio_task1 content = in_turn (take BUFF_SIZE content) (drop BUFF_SIZE content)"
proof (cases content)
  case Nil
  then show ?thesis by (simp add: bio_task1_def bio_loop1_empty)
next
  case (Cons c cs)
  have g1: "stream_getc [] content = (Some c, take 19 cs, drop 19 cs)"
    using Cons by (simp add: buff_Cons)
  show ?thesis
  proof (cases "drop 19 cs")
    case Nil
    then show ?thesis using g1 Cons
      by (simp add: bio_task1_def bio_loop1.simps [of "[]"] bio_loop1_empty tagged_def buff_Cons in_turn_Nil)
  next
    case (Cons y ys)
    have "length (y # ys) \<le> BUFF_SIZE"
      using assms \<open>content = c # cs\<close> by (simp add: BUFF_SIZE_def flip: Cons)
    then have "stream_getc [] (y # ys) = (Some y, ys, [])" by simp
    then show ?thesis using g1 Cons \<open>content = c # cs\<close>
      by (simp add: bio_task1_def bio_loop1.simps [of "[]"] bio_loop1_empty tagged_def buff_Cons)
  qed
qed


subsection \<open>Two streams in two threads: task-02\<close>

text \<open>
  A turn of \<^verbatim>\<open>fileReader\<close>, or of the loop in \<^verbatim>\<open>main\<close>: \<^verbatim>\<open>fscanf\<close> with the format \<^verbatim>\<open>%c\n\<close> delivers one character and then
  skips blanks, for which it may read the next buffer. It holds the lock of its stream all the time.
\<close>

definition is_space :: "char \<Rightarrow> bool" where
  "is_space c \<longleftrightarrow> c = CHR '' '' \<or> of_char c \<in> {9 :: nat, 10, 11, 12, 13}"

function skip_space :: "string \<Rightarrow> string \<Rightarrow> string \<times> string" where
  "skip_space (c # b) inp = (if is_space c then skip_space b inp else (c # b, inp))"
| "skip_space [] inp =
     (case take BUFF_SIZE inp of [] \<Rightarrow> ([], inp) | c # rest \<Rightarrow> skip_space (c # rest) (drop BUFF_SIZE inp))"
  by pat_completeness auto
termination
proof (relation "measure (\<lambda>(b, inp). 2 * (length b + length inp) + (if b = [] then 1 else 0))", goal_cases)
  case (3 inp c rest)
  have "length (take BUFF_SIZE inp) + length (drop BUFF_SIZE inp) = length inp"
    by (metis append_take_drop_id length_append)
  then show ?case using 3 by simp
qed auto

declare skip_space.simps [simp del]

definition scan_char :: "string \<Rightarrow> string \<Rightarrow> char option \<times> string \<times> string" where
  "scan_char b inp =
     (case stream_getc b inp of
        (None, b', inp') \<Rightarrow> (None, b', inp')
      | (Some c, b', inp') \<Rightarrow> (Some c, skip_space b' inp'))"

record sc_sys =
  sc_buf1 :: string
  sc_buf2 :: string
  sc_inp :: string
  sc_end1 :: bool
  sc_end2 :: bool
  sc_out :: "(nat \<times> char) list"

datatype sc_event = Scan1 | Scan2

fun sc_exec :: "sc_sys \<Rightarrow> sc_event \<Rightarrow> sc_sys option" where
  "sc_exec s Scan1 =
     (if sc_end1 s then None
      else
        let (c, b, inp) = scan_char (sc_buf1 s) (sc_inp s) in
        Some (s\<lparr>sc_buf1 := b, sc_inp := inp, sc_end1 := (c = None), sc_out := sc_out s @ tagged 1 c\<rparr>))"
| "sc_exec s Scan2 =
     (if sc_end2 s then None
      else
        let (c, b, inp) = scan_char (sc_buf2 s) (sc_inp s) in
        Some (s\<lparr>sc_buf2 := b, sc_inp := inp, sc_end2 := (c = None), sc_out := sc_out s @ tagged 2 c\<rparr>))"

definition sc_init :: "string \<Rightarrow> sc_sys" where
  "sc_init content = \<lparr>sc_buf1 = [], sc_buf2 = [], sc_inp = content, sc_end1 = False, sc_end2 = False, sc_out = []\<rparr>"

text \<open>What is not blank.\<close>

definition solid :: "char multiset \<Rightarrow> char multiset" where
  "solid = filter_mset (\<lambda>c. \<not> is_space c)"

lemma solid_simps [simp]:
  "solid {#} = {#}" "solid (add_mset c M) = (if is_space c then solid M else add_mset c (solid M))"
  "solid (M + N) = solid M + solid N"
  by (simp_all add: solid_def)

lemma skip_space_solid:
  "skip_space b inp = (b', inp') \<Longrightarrow> solid (mset b' + mset inp') = solid (mset b + mset inp)"
proof (induction b inp rule: skip_space.induct)
  case (1 c b inp)
  then show ?case by (auto simp: skip_space.simps(1) split: if_splits)
next
  case (2 inp)
  have "mset inp = mset (take BUFF_SIZE inp) + mset (drop BUFF_SIZE inp)"
    by (metis append_take_drop_id mset_append)
  then show ?case using 2 by (auto simp: skip_space.simps(2) split: list.splits)
qed

lemma scan_char_solid:
  assumes "scan_char b inp = (c, b', inp')"
  shows "solid (mset b + mset inp) = solid (image_mset snd (mset (tagged k c))) + solid (mset b' + mset inp')"
    and "c = None \<longleftrightarrow> b = [] \<and> inp = []" and "c = None \<Longrightarrow> b' = [] \<and> inp' = []"
    and "inp = [] \<Longrightarrow> inp' = []"
proof -
  obtain d b1 inp1 where g: "stream_getc b inp = (d, b1, inp1)" by (metis prod_cases3)
  show s: "solid (mset b + mset inp) = solid (image_mset snd (mset (tagged k c))) + solid (mset b' + mset inp')"
  proof (cases d)
    case None
    then show ?thesis using assms g by (auto simp: scan_char_def stream_getc_None tagged_def)
  next
    case (Some x)
    then have sk: "c = Some x" "skip_space b1 inp1 = (b', inp')" using assms g by (auto simp: scan_char_def)
    show ?thesis using stream_getc_Some [of b inp x b1 inp1] g Some skip_space_solid [OF sk(2)] sk(1)
      by (simp add: tagged_def)
  qed
  show "c = None \<longleftrightarrow> b = [] \<and> inp = []"
  proof (cases d)
    case None
    then show ?thesis using assms g by (auto simp: scan_char_def stream_getc_None)
  next
    case (Some x)
    then show ?thesis using assms g stream_getc_None [of b inp "[]" "[]"] by (auto simp: scan_char_def)
  qed
  show "c = None \<Longrightarrow> b' = [] \<and> inp' = []"
    using assms g by (cases d) (auto simp: scan_char_def stream_getc_None)
  have "skip_space u [] = (v, w) \<Longrightarrow> w = []" for u v w
    by (induction u arbitrary: v w) (auto simp: skip_space.simps split: if_splits)
  then show "inp = [] \<Longrightarrow> inp' = []"
    using assms g by (cases b; cases d) (auto simp: scan_char_def)
qed

definition sc_inv :: "string \<Rightarrow> sc_sys \<Rightarrow> bool" where
  "sc_inv content s \<longleftrightarrow>
     solid (mset content) = solid (image_mset snd (mset (sc_out s))) +
       solid (mset (sc_buf1 s)) + solid (mset (sc_buf2 s)) + solid (mset (sc_inp s)) \<and>
     (sc_end1 s \<longrightarrow> sc_buf1 s = [] \<and> sc_inp s = []) \<and> (sc_end2 s \<longrightarrow> sc_buf2 s = [] \<and> sc_inp s = [])"

lemma sc_inv_exec:
  assumes inv: "sc_inv content s" and ex: "sc_exec s e = Some t"
  shows "sc_inv content t"
proof (cases e)
  case Scan1
  obtain c b inp where sc: "scan_char (sc_buf1 s) (sc_inp s) = (c, b, inp)" by (metis prod_cases3)
  note eff = scan_char_solid [OF sc]
  show ?thesis using Scan1 inv ex sc eff(1) [of 1] eff(3,4) by (auto simp: sc_inv_def split: if_splits)
next
  case Scan2
  obtain c b inp where sc: "scan_char (sc_buf2 s) (sc_inp s) = (c, b, inp)" by (metis prod_cases3)
  note eff = scan_char_solid [OF sc]
  show ?thesis using Scan2 inv ex sc eff(1) [of 2] eff(3,4) by (auto simp: sc_inv_def ac_simps split: if_splits)
qed

interpretation sc: invariant_system sc_exec "sc_init content" "sc_inv content" for content
proof
  show "sc_inv content (sc_init content)" by (simp add: sc_inv_def sc_init_def)
qed (rule sc_inv_exec)


subsection \<open>Two descriptors in turn: task-03\<close>

text \<open>
  Each descriptor has a position of its own; the arguments are what each has not read yet. A \<^verbatim>\<open>read\<close> of one
  byte at the end of the file returns 0.
\<close>

function bio_loop3 :: "string \<Rightarrow> string \<Rightarrow> string" where
  "bio_loop3 u v =
     (let out = take 1 u @ take 1 v in
      if u = [] \<and> v = [] then out else out @ bio_loop3 (drop 1 u) (drop 1 v))"
  by pat_completeness auto
termination
proof (relation "measure (\<lambda>(u, v). length u + length v)", goal_cases)
  case (2 u v out)
  then show ?case by (cases u; cases v) auto
qed simp

declare bio_loop3.simps [simp del]

definition bio_task3 :: "string \<Rightarrow> string" where
  "bio_task3 content = bio_loop3 content content @ [CHR 0x0A]"

lemma bio_loop3_same: "bio_loop3 u u = concat (map (\<lambda>c. [c, c]) u)"
  by (induction u) (simp_all add: bio_loop3.simps)


subsection \<open>Two descriptors in two threads: task-04 and task-05\<close>

text \<open>
  Thread \<open>k\<close> runs \<^verbatim>\<open>fileReader\<close>: \<^verbatim>\<open>read\<close> of a character into its own \<^verbatim>\<open>c\<close>, then \<^verbatim>\<open>write\<close>. In
  task-05 the second thread is \<^verbatim>\<open>main\<close> itself.
\<close>

record fr_thread =
  unread :: string
  held :: "char option"
  at_end :: bool

record fr_sys =
  fr_thread1 :: fr_thread
  fr_thread2 :: fr_thread
  fr_out :: string

datatype fr_event = Turn1 | Turn2

definition fileReader :: "fr_thread \<Rightarrow> string \<Rightarrow> (fr_thread \<times> string) option" where
  "fileReader t out =
     (if at_end t then None
      else case held t of
        Some c \<Rightarrow> Some (t\<lparr>held := None\<rparr>, out @ [c])
      | None \<Rightarrow>
          (case unread t of
             [] \<Rightarrow> Some (t\<lparr>at_end := True\<rparr>, out)
           | c # cs \<Rightarrow> Some (t\<lparr>unread := cs, held := Some c\<rparr>, out)))"

fun fr_exec :: "fr_sys \<Rightarrow> fr_event \<Rightarrow> fr_sys option" where
  "fr_exec s Turn1 =
     map_option (\<lambda>(t, out). s\<lparr>fr_thread1 := t, fr_out := out\<rparr>) (fileReader (fr_thread1 s) (fr_out s))"
| "fr_exec s Turn2 =
     map_option (\<lambda>(t, out). s\<lparr>fr_thread2 := t, fr_out := out\<rparr>) (fileReader (fr_thread2 s) (fr_out s))"

definition fr_init :: "string \<Rightarrow> fr_sys" where
  "fr_init content =
     (let t = \<lparr>unread = content, held = None, at_end = False\<rparr> in
      \<lparr>fr_thread1 = t, fr_thread2 = t, fr_out = []\<rparr>)"

text \<open>What a thread has still to write, and what it has written.\<close>

definition to_write :: "fr_thread \<Rightarrow> string" where
  "to_write t = (case held t of None \<Rightarrow> unread t | Some c \<Rightarrow> c # unread t)"

definition fr_inv :: "string \<Rightarrow> fr_sys \<Rightarrow> bool" where
  "fr_inv content s \<longleftrightarrow>
     (\<exists>w1 w2. fr_out s \<in> shuffles w1 w2 \<and>
        w1 @ to_write (fr_thread1 s) = content \<and> w2 @ to_write (fr_thread2 s) = content) \<and>
     (at_end (fr_thread1 s) \<longrightarrow> to_write (fr_thread1 s) = []) \<and>
     (at_end (fr_thread2 s) \<longrightarrow> to_write (fr_thread2 s) = [])"

lemma shuffles_snoc1: "zs \<in> shuffles xs ys \<Longrightarrow> zs @ [c] \<in> shuffles (xs @ [c]) ys"
proof (induction xs ys arbitrary: zs rule: shuffles.induct)
  case (1 ys)
  then show ?case by (induction ys arbitrary: zs) (auto simp: Cons_in_shuffles_iff)
next
  case (2 xs)
  then show ?case by simp
next
  case (3 x xs y ys)
  then show ?case by auto
qed

lemma shuffles_snoc2: "zs \<in> shuffles xs ys \<Longrightarrow> zs @ [c] \<in> shuffles xs (ys @ [c])"
  by (subst shuffles_commutes, rule shuffles_snoc1, subst shuffles_commutes)

lemma fileReader_cases:
  assumes "fileReader t out = Some (t', out')"
  obtains (wrote) c where "held t = Some c" "t' = t\<lparr>held := None\<rparr>" "out' = out @ [c]" "\<not> at_end t"
  | (ended) "held t = None" "unread t = []" "t' = t\<lparr>at_end := True\<rparr>" "out' = out" "\<not> at_end t"
  | (got) c cs where "held t = None" "unread t = c # cs" "t' = t\<lparr>unread := cs, held := Some c\<rparr>"
      "out' = out" "\<not> at_end t"
  using assms by (auto simp: fileReader_def split: if_splits option.splits list.splits)

lemma fileReader_to_write:
  assumes "fileReader t out = Some (t', out')" and "at_end t \<longrightarrow> to_write t = []"
  shows "\<exists>w. out' = out @ w \<and> length w \<le> 1 \<and> to_write t = w @ to_write t' \<and> (at_end t' \<longrightarrow> to_write t' = [])"
  using assms(1) by (cases rule: fileReader_cases) (auto simp: to_write_def)

lemma shuffles_app1: "zs \<in> shuffles xs ys \<Longrightarrow> length w \<le> 1 \<Longrightarrow> zs @ w \<in> shuffles (xs @ w) ys"
  by (cases w) (auto intro: shuffles_snoc1)

lemma shuffles_app2: "zs \<in> shuffles xs ys \<Longrightarrow> length w \<le> 1 \<Longrightarrow> zs @ w \<in> shuffles xs (ys @ w)"
  by (cases w) (auto intro: shuffles_snoc2)

lemma fr_inv_init: "fr_inv content (fr_init content)"
  by (simp add: fr_inv_def fr_init_def to_write_def Let_def)

lemma fr_inv_exec:
  assumes inv: "fr_inv content s" and ex: "fr_exec s e = Some t"
  shows "fr_inv content t"
proof -
  obtain w1 w2 where w: "fr_out s \<in> shuffles w1 w2"
    "w1 @ to_write (fr_thread1 s) = content" "w2 @ to_write (fr_thread2 s) = content"
    and e1: "at_end (fr_thread1 s) \<longrightarrow> to_write (fr_thread1 s) = []"
    and e2: "at_end (fr_thread2 s) \<longrightarrow> to_write (fr_thread2 s) = []"
    using inv by (auto simp: fr_inv_def)
  show ?thesis
  proof (cases e)
    case Turn1
    then obtain t' out' where f: "fileReader (fr_thread1 s) (fr_out s) = Some (t', out')"
      and t: "t = s\<lparr>fr_thread1 := t', fr_out := out'\<rparr>" using ex by auto
    from fileReader_to_write [OF f e1] obtain w where "out' = fr_out s @ w" "length w \<le> 1"
      "to_write (fr_thread1 s) = w @ to_write t'" "at_end t' \<longrightarrow> to_write t' = []" by blast
    with w e2 shuffles_app1 [OF w(1)] show ?thesis
      unfolding t fr_inv_def by (intro conjI exI [of _ "w1 @ w"] exI [of _ w2]) auto
  next
    case Turn2
    then obtain t' out' where f: "fileReader (fr_thread2 s) (fr_out s) = Some (t', out')"
      and t: "t = s\<lparr>fr_thread2 := t', fr_out := out'\<rparr>" using ex by auto
    from fileReader_to_write [OF f e2] obtain w where "out' = fr_out s @ w" "length w \<le> 1"
      "to_write (fr_thread2 s) = w @ to_write t'" "at_end t' \<longrightarrow> to_write t' = []" by blast
    with w e1 shuffles_app2 [OF w(1)] show ?thesis
      unfolding t fr_inv_def by (intro conjI exI [of _ w1] exI [of _ "w2 @ w"]) auto
  qed
qed

interpretation fr: invariant_system fr_exec "fr_init content" "fr_inv content" for content
  by unfold_locales (auto intro: fr_inv_init fr_inv_exec)


subsection \<open>Two buffered writers: task-06 and task-07\<close>

text \<open>
  A stream has a position and a buffer of a block; a full buffer is written before the next character goes
  in. \<^verbatim>\<open>fopen(.., "w")\<close> empties the file, whoever else has it open.
\<close>

definition BLOCK :: nat where "BLOCK = 4096"

record wstream =
  wpos :: nat
  wbuf :: string

definition write_at :: "nat \<Rightarrow> string \<Rightarrow> string \<Rightarrow> string" where
  "write_at p data content =
     take p (content @ replicate (p - length content) (CHR 0x00)) @ data @ drop (p + length data) content"

definition flush :: "wstream \<times> string \<Rightarrow> wstream \<times> string" where
  "flush = (\<lambda>(w, content).
     (\<lparr>wpos = wpos w + length (wbuf w), wbuf = []\<rparr>, write_at (wpos w) (wbuf w) content))"

definition fopen_w :: "string \<Rightarrow> wstream \<times> string" where
  "fopen_w content = (\<lparr>wpos = 0, wbuf = []\<rparr>, [])"

definition stream_putc :: "char \<Rightarrow> wstream \<times> string \<Rightarrow> wstream \<times> string" where
  "stream_putc c sf =
     (let (w, content) = (if length (wbuf (fst sf)) < BLOCK then sf else flush sf) in
      (w\<lparr>wbuf := wbuf w @ [c]\<rparr>, content))"

record two_writers =
  fs1 :: wstream
  fs2 :: wstream
  out_file :: string

definition put1 :: "char \<Rightarrow> two_writers \<Rightarrow> two_writers" where
  "put1 c s = (let (w, content) = stream_putc c (fs1 s, out_file s) in s\<lparr>fs1 := w, out_file := content\<rparr>)"

definition put2 :: "char \<Rightarrow> two_writers \<Rightarrow> two_writers" where
  "put2 c s = (let (w, content) = stream_putc c (fs2 s, out_file s) in s\<lparr>fs2 := w, out_file := content\<rparr>)"

definition open_two :: "string \<Rightarrow> two_writers" where
  "open_two content =
     (let (w1, content1) = fopen_w content; (w2, content2) = fopen_w content1 in
      \<lparr>fs1 = w1, fs2 = w2, out_file = content2\<rparr>)"

text \<open>The two \<^verbatim>\<open>fclose\<close> calls: the file after the first and after the second.\<close>

definition close_two :: "two_writers \<Rightarrow> string \<times> string" where
  "close_two s =
     (let (_, content1) = flush (fs1 s, out_file s); (_, content2) = flush (fs2 s, content1) in
      (content1, content2))"

text \<open>task-06: the letters in order, the odd codes to the first stream.\<close>

definition bio_task6 :: "string \<Rightarrow> string \<times> string" where
  "bio_task6 content =
     close_two (fold (\<lambda>c s. if odd c then put1 (char_of c) s else put2 (char_of c) s) [65..<91]
       (open_two content))"

text \<open>task-07: each thread has its own \<^verbatim>\<open>c\<close>, which starts at its offset and goes up by two.\<close>

record bio_threads =
  wc1 :: nat
  wc2 :: nat
  files :: two_writers

fun bio_exec :: "bio_threads \<Rightarrow> fr_event \<Rightarrow> bio_threads option" where
  "bio_exec s Turn1 =
     (if wc1 s \<le> 90 then Some (s\<lparr>wc1 := wc1 s + 2, files := put1 (char_of (wc1 s)) (files s)\<rparr>) else None)"
| "bio_exec s Turn2 =
     (if wc2 s \<le> 90 then Some (s\<lparr>wc2 := wc2 s + 2, files := put2 (char_of (wc2 s)) (files s)\<rparr>) else None)"

definition bio_init :: "string \<Rightarrow> bio_threads" where
  "bio_init content = \<lparr>wc1 = 65 + 0, wc2 = 65 + 1, files = open_two content\<rparr>"

definition every_second :: "nat \<Rightarrow> nat \<Rightarrow> string" where
  "every_second c n = map (\<lambda>k. char_of (c + 2 * k)) [0..<n]"

lemma every_second_Suc: "every_second c (Suc n) = every_second c n @ [char_of (c + 2 * n)]"
  by (simp add: every_second_def)

lemma every_second_length [simp]: "length (every_second c n) = n"
  by (simp add: every_second_def)

definition bio_inv :: "bio_threads \<Rightarrow> bool" where
  "bio_inv s \<longleftrightarrow> (\<exists>n1 n2. n1 \<le> 13 \<and> n2 \<le> 13 \<and> wc1 s = 65 + 2 * n1 \<and> wc2 s = 66 + 2 * n2 \<and>
     files s = \<lparr>fs1 = \<lparr>wpos = 0, wbuf = every_second 65 n1\<rparr>,
       fs2 = \<lparr>wpos = 0, wbuf = every_second 66 n2\<rparr>, out_file = []\<rparr>)"

lemma bio_inv_init: "bio_inv (bio_init content)"
  unfolding bio_inv_def bio_init_def
  by (intro exI [of _ 0]) (simp add: open_two_def fopen_w_def every_second_def)

lemma bio_inv_exec:
  assumes "bio_inv s" and "bio_exec s e = Some t"
  shows "bio_inv t"
proof -
  obtain n1 n2 where n: "n1 \<le> 13" "n2 \<le> 13" "wc1 s = 65 + 2 * n1" "wc2 s = 66 + 2 * n2"
    "files s = \<lparr>fs1 = \<lparr>wpos = 0, wbuf = every_second 65 n1\<rparr>,
       fs2 = \<lparr>wpos = 0, wbuf = every_second 66 n2\<rparr>, out_file = []\<rparr>"
    using assms(1) by (auto simp: bio_inv_def)
  show ?thesis
  proof (cases e)
    case Turn1
    with assms(2) n have "n1 < 13" by (auto split: if_splits)
    with Turn1 assms(2) n show ?thesis unfolding bio_inv_def
      by (intro exI [of _ "Suc n1"] exI [of _ n2])
        (auto simp: put1_def stream_putc_def BLOCK_def every_second_Suc split: if_splits)
  next
    case Turn2
    with assms(2) n have "n2 < 13" by (auto split: if_splits)
    with Turn2 assms(2) n show ?thesis unfolding bio_inv_def
      by (intro exI [of _ n1] exI [of _ "Suc n2"])
        (auto simp: put2_def stream_putc_def BLOCK_def every_second_Suc split: if_splits)
  qed
qed

interpretation bio: invariant_system bio_exec "bio_init content" bio_inv for content
  by unfold_locales (auto intro: bio_inv_init bio_inv_exec)

lemma close_two_fresh:
  "close_two \<lparr>fs1 = \<lparr>wpos = 0, wbuf = xs\<rparr>, fs2 = \<lparr>wpos = 0, wbuf = ys\<rparr>, out_file = []\<rparr> =
     (xs, ys @ drop (length ys) xs)"
  by (simp add: close_two_def flush_def write_at_def)

text \<open>task-06 makes the turns of the two threads of task-07 alternately.\<close>

lemma every_second_eval:
  "every_second 65 13 = ''ACEGIKMOQSUWY''" "every_second 66 13 = ''BDFHJLNPRTVXZ''"
  by code_simp+

lemma bio_done:
  assumes "reach bio_exec (bio_init content) s" and "90 < wc1 s" and "90 < wc2 s"
  shows "close_two (files s) = (every_second 65 13, every_second 66 13)"
proof -
  obtain n1 n2 where n: "n1 \<le> 13" "n2 \<le> 13" "wc1 s = 65 + 2 * n1" "wc2 s = 66 + 2 * n2"
    "files s = \<lparr>fs1 = \<lparr>wpos = 0, wbuf = every_second 65 n1\<rparr>,
       fs2 = \<lparr>wpos = 0, wbuf = every_second 66 n2\<rparr>, out_file = []\<rparr>"
    using bio.reach_inv [OF assms(1)] by (auto simp: bio_inv_def)
  then have "n1 = 13" "n2 = 13" using assms(2,3) by auto
  then show ?thesis using n(5) by (simp add: close_two_fresh)
qed


subsection \<open>Properties\<close>

text \<open>Two streams over one open file share its characters: whatever the file holds, each character is
  printed exactly once by one of them, and in a file of at most two buffers the first stream gets the first
  buffer and the second the rest, printed in turn.\<close>

theorem bio_shared_position:
  "image_mset snd (mset (bio_task1 content)) = mset content \<and>
   (length content \<le> 2 * BUFF_SIZE \<longrightarrow>
      bio_task1 content = in_turn (take BUFF_SIZE content) (drop BUFF_SIZE content))"
  by (simp add: bio_task1_def bio_loop1_mset bio_task1_short [unfolded bio_task1_def])

definition alphabet :: string where
  "alphabet = map (\<lambda>k. char_of (97 + k)) [0..<26::nat]"

theorem bio_shared_position_witness:
  "bio_task1 alphabet = in_turn ''abcdefghijklmnopqrst'' ''uvwxyz''"
proof -
  have a: "alphabet = ''abcdefghijklmnopqrst'' @ ''uvwxyz''" by code_simp
  have "bio_task1 alphabet = in_turn (take BUFF_SIZE alphabet) (drop BUFF_SIZE alphabet)"
    using bio_shared_position [of alphabet] by (simp add: a BUFF_SIZE_def)
  then show ?thesis by (simp add: a BUFF_SIZE_def)
qed

text \<open>Two descriptors have two positions: read in turn, every character is printed twice in a row; read by two
  threads, the output is a shuffle of two copies of the file, whatever the schedule.\<close>

theorem bio_own_positions:
  "bio_task3 content = concat (map (\<lambda>c. [c, c]) content) @ [CHR 0x0A] \<and>
   (reach fr_exec (fr_init content) s \<and> at_end (fr_thread1 s) \<and> at_end (fr_thread2 s) \<longrightarrow>
      fr_out s \<in> shuffles content content)"
proof -
  have "fr_out s \<in> shuffles content content"
    if "reach fr_exec (fr_init content) s" "at_end (fr_thread1 s)" "at_end (fr_thread2 s)"
    using fr.reach_inv [OF that(1)] that(2,3) by (auto simp: fr_inv_def)
  then show ?thesis by (simp add: bio_task3_def bio_loop3_same)
qed

lemma fr_run_ab:
  "map_option (\<lambda>s. (fr_out s, at_end (fr_thread1 s), at_end (fr_thread2 s)))
     (run fr_exec (fr_init ''ab'') ([Turn1, Turn2, Turn2, Turn2, Turn2, Turn2] @ replicate 4 Turn1)) =
   Some (''abab'', True, True)"
  by code_simp

theorem bio_own_positions_witness:
  "\<exists>s. reach fr_exec (fr_init ''ab'') s \<and> fr_out s = ''abab'' \<and> fr_out s \<in> shuffles ''ab'' ''ab''"
proof -
  obtain s where "run fr_exec (fr_init ''ab'') ([Turn1, Turn2, Turn2, Turn2, Turn2, Turn2] @ replicate 4 Turn1) = Some s"
    and o: "fr_out s = ''abab''" "at_end (fr_thread1 s)" "at_end (fr_thread2 s)"
    using fr_run_ab by auto
  then have "reach fr_exec (fr_init ''ab'') s" by (intro run_reach_init)
  with o bio_own_positions [of "''ab''" s] show ?thesis by auto
qed

text \<open>Of two buffered streams that write one file, the one that is closed last wins: with one thread or two, and
  for every schedule of the two, the file holds the second half of the letters in the end and the first half is lost.\<close>

theorem bio_last_close_wins:
  "bio_task6 content = (''ACEGIKMOQSUWY'', ''BDFHJLNPRTVXZ'') \<and>
   (reach bio_exec (bio_init content) s \<and> 90 < wc1 s \<and> 90 < wc2 s \<longrightarrow>
      close_two (files s) = (''ACEGIKMOQSUWY'', ''BDFHJLNPRTVXZ''))"
proof -
  have "bio_task6 content = bio_task6 []" by (simp add: bio_task6_def open_two_def fopen_w_def)
  also have "\<dots> = (''ACEGIKMOQSUWY'', ''BDFHJLNPRTVXZ'')" by code_simp
  finally show ?thesis using bio_done [of content s] every_second_eval by simp
qed

lemma bio_run_all:
  "map_option (\<lambda>s. (wc1 s, wc2 s)) (run bio_exec (bio_init []) (replicate 13 Turn2 @ replicate 13 Turn1)) = Some (91, 92)"
  by code_simp

theorem bio_last_close_wins_witness:
  "\<exists>s. reach bio_exec (bio_init []) s \<and> snd (close_two (files s)) = ''BDFHJLNPRTVXZ''"
proof -
  obtain s where "run bio_exec (bio_init []) (replicate 13 Turn2 @ replicate 13 Turn1) = Some s"
    and o: "wc1 s = 91" "wc2 s = 92"
    using bio_run_all by auto
  then have "reach bio_exec (bio_init []) s" by (intro run_reach_init)
  with o bio_last_close_wins [of "[]" s] show ?thesis by auto
qed

text \<open>Two threads that read one open file through two streams and skip blanks print every character that is
  not blank exactly once, for every schedule; each stops when its buffer and the file are empty.\<close>

theorem bio_blanks_skipped:
  assumes "reach sc_exec (sc_init content) s" and "sc_end1 s" and "sc_end2 s"
  shows "solid (image_mset snd (mset (sc_out s))) = solid (mset content) \<and>
    sc_buf1 s = [] \<and> sc_buf2 s = [] \<and> sc_inp s = []"
  using sc.reach_inv [OF assms(1)] assms(2,3) by (simp add: sc_inv_def)

lemma sc_run:
  "map_option (\<lambda>s. (sc_out s, sc_end1 s, sc_end2 s)) (run sc_exec (sc_init ''a b'') [Scan2, Scan1, Scan2, Scan2]) =
   Some ([(2, CHR ''a''), (2, CHR ''b'')], True, True)"
  by code_simp

theorem bio_blanks_skipped_witness:
  "\<exists>s. reach sc_exec (sc_init ''a b'') s \<and> solid (image_mset snd (mset (sc_out s))) = {#CHR ''a'', CHR ''b''#}"
proof -
  obtain s where "run sc_exec (sc_init ''a b'') [Scan2, Scan1, Scan2, Scan2] = Some s"
    and e: "sc_end1 s" "sc_end2 s"
    using sc_run by auto
  then have r: "reach sc_exec (sc_init ''a b'') s" by (intro run_reach_init)
  have "is_space CHR '' ''" "\<not> is_space CHR ''a''" "\<not> is_space CHR ''b''" by (simp_all add: is_space_def)
  with bio_blanks_skipped [OF r e] r show ?thesis by (intro exI [of _ s]) simp
qed

end
