(* ===== verification/Proc_Info.thy ===== *)
theory Proc_Info
  imports Pagemap
begin

section \<open>The report on a process\<close>

text \<open>
  Model of lab-fileSystem/task-proc/proc_info.c. What the files under /proc hold, which of them can be
  opened, and the library's parsers are arguments; the buffer size PATH\_SIZE, which the sources never
  define, is the argument \<open>psize\<close>. A section of the report is a list of messages on the two output streams.
\<close>

datatype msg = Err string | Out string

definition newline :: char where "newline = CHR 0x0A"

text \<open>A C string ends at the first zero byte.\<close>

definition c_str :: "string \<Rightarrow> string" where
  "c_str s = takeWhile (\<lambda>c. c \<noteq> CHR 0x00) s"

lemma c_str_app: "CHR 0x00 \<notin> set s \<Longrightarrow> c_str (s @ CHR 0x00 # t) = s"
  by (induction s) (auto simp: c_str_def)


subsection \<open>Whole files and links\<close>

definition print_file :: "string \<Rightarrow> string \<Rightarrow> string \<Rightarrow> nat \<Rightarrow> string option \<Rightarrow> msg list" where
  "print_file label cannot_open cannot_read psize f =
     (case f of
        None \<Rightarrow> [Err cannot_open]
      | Some content \<Rightarrow>
          (let buf = take (psize - 1) content in
           if buf = [] then [Err cannot_read] else [Out (label @ c_str buf @ [newline])]))"

definition print_cmdline :: "nat \<Rightarrow> string option \<Rightarrow> msg list" where
  "print_cmdline = print_file ''CMDLINE:'' ''error opening cmdline file'' ''error reading cmdline''"

definition print_comm :: "nat \<Rightarrow> string option \<Rightarrow> msg list" where
  "print_comm = print_file ''COMM:'' ''error opening comm file'' ''error reading comm''"

definition print_link :: "string \<Rightarrow> string \<Rightarrow> nat \<Rightarrow> string option \<Rightarrow> msg list" where
  "print_link label cannot_read psize target =
     (case target of
        None \<Rightarrow> [Err cannot_read]
      | Some t \<Rightarrow> [Out (label @ c_str (take (psize - 1) t) @ [newline])])"

definition print_cwd :: "nat \<Rightarrow> string option \<Rightarrow> msg list" where
  "print_cwd = print_link ''CWD:'' ''error reading cwd link''"

definition print_exe :: "nat \<Rightarrow> string option \<Rightarrow> msg list" where
  "print_exe = print_link ''EXE:'' ''error reading exe link''"

definition print_root :: "string option \<Rightarrow> msg list" where
  "print_root = print_link (newline # ''ROOT:'') ''failed to read root directory link'' 4096"


subsection \<open>Files in pieces\<close>

text \<open>The pieces that \<^verbatim>\<open>fread\<close> with \<open>n\<close> bytes delivers until it returns 0.\<close>

fun pieces :: "nat \<Rightarrow> string \<Rightarrow> string list" where
  "pieces n s = (if n = 0 \<or> s = [] then [] else take n s # pieces n (drop n s))"

declare pieces.simps [simp del]

lemma concat_pieces: "0 < n \<Longrightarrow> concat (pieces n s) = s"
  by (induction n s rule: pieces.induct) (simp add: pieces.simps)

lemma concat_map_concat: "concat (map (\<lambda>b. concat (map f b)) bs) = concat (map f (concat bs))"
  by (induction bs) simp_all

definition environ_char :: "char \<Rightarrow> string" where
  "environ_char c =
     (let c' = (if c = CHR 0x00 then newline else c) in
      (if c' = newline then [CHR 0x09] else []) @ [c'])"

definition print_environ :: "nat \<Rightarrow> string option \<Rightarrow> msg list" where
  "print_environ psize f =
     (case f of
        None \<Rightarrow> [Err ''Error opening environ file'']
      | Some content \<Rightarrow>
          [Out (''ENVIRON:'' @ [newline]),
           Out (concat (map (\<lambda>buf. concat (map environ_char buf)) (pieces (psize - 1) content))),
           Out [newline]])"

definition print_io :: "nat \<Rightarrow> string option \<Rightarrow> msg list" where
  "print_io psize f =
     (case f of
        None \<Rightarrow> [Err ''failed to open IO file'']
      | Some content \<Rightarrow>
          [Out (''IO:'' @ [newline]), Out (concat (map c_str (pieces (psize - 1) content))), Out [newline]])"


subsection \<open>Directories\<close>

text \<open>\<open>dir\<close> is the name of the directory; an entry has a name and the target of its link.\<close>

fun fd_line :: "nat \<Rightarrow> string \<Rightarrow> string \<times> string option \<Rightarrow> msg list" where
  "fd_line psize dir (name, target) =
     (if name = ''.'' \<or> name = ''..'' then []
      else if psize \<le> length dir + length name + 1 then [Err ''warning: Path is too long for buffer'']
      else
        case target of
          None \<Rightarrow> [Err ''failed to read link'']
        | Some t \<Rightarrow> [Out (name @ '' -> '' @ c_str (take 4095 t) @ [newline])])"

definition print_fd :: "nat \<Rightarrow> string \<Rightarrow> (string \<times> string option) list option \<Rightarrow> msg list" where
  "print_fd psize dir entries =
     (case entries of
        None \<Rightarrow> [Err ''failed to open directory'']
      | Some es \<Rightarrow>
          Out (''FD:'' @ [newline]) # concat (map (fd_line psize dir) es) @ [Out [newline]])"

definition print_task :: "string list option \<Rightarrow> msg list" where
  "print_task entries =
     Out (newline # ''TASK:'' @ [newline]) #
     (case entries of None \<Rightarrow> [] | Some es \<Rightarrow> map (\<lambda>n. Out (n @ [newline])) es)"


subsection \<open>Memory regions\<close>

type_synonym region = "64 word \<times> 64 word"

text \<open>
  The array grows by doubling. \<open>arr\<close> has as many cells as the allocation; a write outside is \<^term>\<open>None\<close>,
  a failed \<^verbatim>\<open>realloc\<close> (the third argument says which capacities it can provide) is
  \<^term>\<open>Some None\<close>.
\<close>

fun region_loop ::
  "(string \<Rightarrow> region option) \<Rightarrow> (nat \<Rightarrow> bool) \<Rightarrow> string list \<Rightarrow> nat \<Rightarrow> nat \<Rightarrow> region list \<Rightarrow>
     region list option option" where
  "region_loop scan can [] capacity cnt arr = Some (Some (take cnt arr))"
| "region_loop scan can (line # rest) capacity cnt arr =
     (case scan line of
        None \<Rightarrow> region_loop scan can rest capacity cnt arr
      | Some r \<Rightarrow>
          if capacity \<le> cnt then
            (if \<not> can (capacity * 2) then Some None
             else
               let arr' = arr @ replicate capacity (0, 0) in
               if length arr' \<le> cnt then None
               else region_loop scan can rest (capacity * 2) (cnt + 1) (arr'[cnt := r]))
          else if length arr \<le> cnt then None
          else region_loop scan can rest capacity (cnt + 1) (arr[cnt := r]))"

definition get_memory_regions ::
  "(string \<Rightarrow> region option) \<Rightarrow> (nat \<Rightarrow> bool) \<Rightarrow> string list option \<Rightarrow> region list option option" where
  "get_memory_regions scan can f =
     (case f of
        None \<Rightarrow> Some None
      | Some ls \<Rightarrow> if \<not> can 10 then Some None else region_loop scan can ls 10 0 (replicate 10 (0, 0)))"

text \<open>The regions that the lines of the file name.\<close>

definition scanned :: "(string \<Rightarrow> region option) \<Rightarrow> string list \<Rightarrow> region list" where
  "scanned scan ls = List.map_filter scan ls"

lemma scanned_simps [simp]:
  "scanned scan [] = []"
  "scanned scan (l # ls) = (case scan l of None \<Rightarrow> scanned scan ls | Some r \<Rightarrow> r # scanned scan ls)"
  by (simp_all add: scanned_def List.map_filter_def split: option.splits)

lemma region_loop_scans:
  assumes "length arr = capacity" and "0 < capacity" and "cnt \<le> capacity" and "\<forall>c. can c"
  shows "region_loop scan can ls capacity cnt arr = Some (Some (take cnt arr @ scanned scan ls))"
  using assms
proof (induction ls arbitrary: capacity cnt arr)
  case Nil
  then show ?case by simp
next
  case (Cons l ls)
  show ?case
  proof (cases "scan l")
    case None
    with Cons show ?thesis by simp
  next
    case (Some r)
    have t: "take (Suc cnt) (a[cnt := r]) = take cnt a @ [r]" if "cnt < length a" for a
      using that by (simp add: take_Suc_conv_app_nth)
    show ?thesis
      using Cons.IH [of "(arr @ replicate capacity (0, 0))[cnt := r]" "capacity * 2" "cnt + 1"]
        Cons.IH [of "arr[cnt := r]" capacity "cnt + 1"]
        Some Cons.prems t [of arr] t [of "arr @ replicate capacity (0, 0)"]
      by (auto simp: Let_def)
  qed
qed

text \<open>
  \<^verbatim>\<open>print_region\<close>. A region has as many bytes as the difference of its ends, in 64 bits; \<^verbatim>\<open>read\<close> fills the
  beginning of the buffer, and what lies behind is the argument \<open>junk\<close>. All of the buffer is printed.
\<close>

definition hex_digit :: "nat \<Rightarrow> char" where
  "hex_digit d = ''0123456789abcdef'' ! d"

fun hex :: "nat \<Rightarrow> string" where
  "hex n = (if n < 16 then [hex_digit n] else hex (n div 16) @ [hex_digit (n mod 16)])"

declare hex.simps [simp del]

definition hex2 :: "8 word \<Rightarrow> string" where
  "hex2 b = [hex_digit (unat b div 16), hex_digit (unat b mod 16)]"

text \<open>The bytes from index \<open>i\<close> on: \<^verbatim>\<open>"%02x "\<close>, and a new line after each sixteenth.\<close>

fun hex_dump :: "nat \<Rightarrow> 8 word list \<Rightarrow> string" where
  "hex_dump i [] = []"
| "hex_dump i (b # bs) =
     hex2 b @ '' '' @ (if (i + 1) mod 16 = 0 then [newline] else []) @ hex_dump (i + 1) bs"

definition print_region ::
  "(nat \<Rightarrow> bool) \<Rightarrow> bool \<Rightarrow> 8 word list option \<Rightarrow> (nat \<Rightarrow> 8 word) \<Rightarrow> region \<Rightarrow> msg list" where
  "print_region can seek_ok mem junk r =
     (let (start_addr, end_addr) = r; region_size = unat (end_addr - start_addr) in
      if \<not> can region_size then [Err ''malloc'']
      else if \<not> seek_ok then [Err ''lseek'']
      else
        case mem of
          None \<Rightarrow> [Err ''read'']
        | Some bytes \<Rightarrow>
            let n = min (length bytes) region_size;
                buffer = take n bytes @ map junk [n..<region_size] in
            [Out (''Memory region: '' @ hex (unat start_addr) @ '' - '' @ hex (unat end_addr) @ [newline]),
             Out (hex_dump 0 buffer @ [newline])])"

text \<open>Reading a dump back: pairs of digits, blanks and new lines skipped.\<close>

lemma unat_bound: "unat w < 2 ^ 64" for w :: "64 word"
  by (rule less_le_trans [OF unsigned_less]) simp

definition digit_value :: "char \<Rightarrow> nat" where
  "digit_value c = (if (of_char c :: nat) < 58 then of_char c - 48 else of_char c - 87)"

fun undump :: "string \<Rightarrow> 8 word list" where
  "undump (a # b # cs) =
     (if a = newline then undump (b # cs)
      else of_nat (16 * digit_value a + digit_value b) # undump (drop 1 cs))"
| "undump _ = []"

lemma digit_value_hex: "d < 16 \<Longrightarrow> digit_value (hex_digit d) = d \<and> hex_digit d \<noteq> newline"
proof -
  have "list_all (\<lambda>d. digit_value (hex_digit d) = d \<and> hex_digit d \<noteq> newline) [0..<16]" by code_simp
  then show "d < 16 \<Longrightarrow> digit_value (hex_digit d) = d \<and> hex_digit d \<noteq> newline"
    by (simp add: list_all_iff)
qed

lemma undump_newline: "undump (newline # cs) = undump cs"
  by (cases cs) simp_all

lemma undump_dump: "undump (hex_dump i bs @ [newline]) = bs"
proof (induction bs arbitrary: i)
  case Nil
  show ?case by simp
next
  case (Cons b bs)
  have "unat b < 256" by (rule less_le_trans [OF unsigned_less]) simp
  then have "unat b div 16 < 16" by (simp add: div_less_iff_less_mult)
  then have d: "digit_value (hex_digit (unat b div 16)) = unat b div 16"
    "hex_digit (unat b div 16) \<noteq> newline" "digit_value (hex_digit (unat b mod 16)) = unat b mod 16"
    using digit_value_hex by simp_all
  have "undump (hex_dump i (b # bs) @ [newline]) =
      of_nat (16 * (unat b div 16) + unat b mod 16) #
        undump ((if (i + 1) mod 16 = 0 then [newline] else []) @ hex_dump (i + 1) bs @ [newline])"
    using d by (simp add: hex2_def)
  also have "\<dots> = b # bs" using Cons.IH [of "i + 1"] by (simp add: undump_newline)
  finally show ?case .
qed

definition print_mem ::
  "(string \<Rightarrow> region option) \<Rightarrow> (nat \<Rightarrow> bool) \<Rightarrow> string list option \<Rightarrow>
     (region \<Rightarrow> bool \<times> 8 word list option) option \<Rightarrow> (nat \<Rightarrow> 8 word) \<Rightarrow> msg list option" where
  "print_mem scan can maps mem junk =
     map_option (\<lambda>regions. Out (newline # ''MEM:'' @ [newline]) #
       (case regions of
          None \<Rightarrow> [Err ''Failed to get memory regions'']
        | Some rs \<Rightarrow>
            (case mem of
               None \<Rightarrow> [Err ''open'']
             | Some rd \<Rightarrow> concat (map (\<lambda>r. print_region can (fst (rd r)) (snd (rd r)) junk r) rs))))
       (get_memory_regions scan can maps)"


subsection \<open>The page map\<close>

text \<open>The five columns of \<^verbatim>\<open>print_page\<close>.\<close>

definition print_page :: "64 word \<Rightarrow> 64 word list" where
  "print_page data =
     [data AND (push_bit 55 1 - 1), drop_bit 55 data AND 1, drop_bit 61 data AND 1,
      drop_bit 62 data AND 1, drop_bit 63 data AND 1]"

text \<open>
  The addresses of the pages of a region: \<^verbatim>\<open>for (i = start; i < end; i += page)\<close> on \<^verbatim>\<open>uint64_t\<close>,
  \<^term>\<open>None\<close> when it does not end.
\<close>

partial_function (option) page_addrs :: "64 word \<Rightarrow> 64 word \<Rightarrow> 64 word \<Rightarrow> 64 word list option" where
  "page_addrs page i e =
     (if i < e then
        Option.bind (page_addrs page (i + page) e) (\<lambda>as. Some (i # as))
      else Some [])"

definition page_index :: "64 word \<Rightarrow> 64 word \<Rightarrow> 64 word" where
  "page_index page i = i div page * 8"

lemma page_bit: "drop_bit n data AND 1 = of_bool (bit data n)" for data :: "64 word"
  by (rule bit_word_eqI) (auto simp: bit_simps dest: bit_imp_le_length)

lemma page_addrs_enum:
  assumes "unat i + n * unat page = unat e" and "0 < page"
  shows "page_addrs page i e = Some (map (\<lambda>k. i + of_nat k * page) [0..<n])"
  using assms
proof (induction n arbitrary: i)
  case 0
  then show ?case by (subst page_addrs.simps) (simp add: word_less_nat_alt)
next
  case (Suc n)
  have p: "0 < unat page" using Suc.prems(2) by (simp add: word_less_nat_alt)
  have lt: "i < e" using Suc.prems(1) p by (simp add: word_less_nat_alt)
  have "unat i + unat page \<le> unat e" using Suc.prems(1) by simp
  then have "unat (i + page) = unat i + unat page"
    using unat_bound [of e] by (simp add: unat_word_ariths)
  then have "page_addrs page (i + page) e = Some (map (\<lambda>k. i + page + of_nat k * page) [0..<n])"
    using Suc.IH [of "i + page"] Suc.prems by simp
  then show ?case using lt
    by (subst page_addrs.simps)
      (simp add: upt_conv_Cons map_Suc_upt [symmetric] comp_def algebra_simps del: upt_Suc)
qed

lemma page_addrs_step:
  fixes i e page :: "64 word"
  assumes "page = 4096" and "4096 dvd unat i" and "2 ^ 64 - 4096 < unat e"
  shows "i < e" and "4096 dvd unat (i + page)"
proof -
  have u: "unat i < 2 ^ 64" by (rule unat_bound)
  obtain k where k: "unat i = 4096 * k" using assms(2) by (auto elim: dvdE)
  have "k \<le> 2 ^ 52 - 1" using u k by simp
  then show "i < e" using k assms(3) by (simp add: word_less_nat_alt)
  have "unat (i + page) = (4096 * k + 4096) mod 2 ^ 64"
    using k assms(1) by (simp add: unat_word_ariths)
  moreover have "4096 dvd (4096 * k + 4096) mod (2 ^ 64 :: nat)"
    by (rule dvd_mod) auto
  ultimately show "4096 dvd unat (i + page)" by simp
qed

lemma page_addrs_diverges:
  assumes "4096 dvd unat i" and "2 ^ 64 - 4096 < unat e"
  shows "page_addrs 4096 i e = None"
proof (cases "page_addrs 4096 i e")
  case (Some as)
  have "\<not> (4096 = (4096 :: 64 word) \<and> 4096 dvd unat i \<and> 2 ^ 64 - 4096 < unat e)"
  proof (rule page_addrs.raw_induct [of "\<lambda>p i e as. \<not> (p = 4096 \<and> 4096 dvd unat i \<and> 2 ^ 64 - 4096 < unat e)", OF _ Some])
    fix rec :: "64 word \<Rightarrow> 64 word \<Rightarrow> 64 word \<Rightarrow> 64 word list option" and p i e as
    assume IH: "\<And>p i e as. rec p i e = Some as \<Longrightarrow>
        \<not> (p = 4096 \<and> 4096 dvd unat i \<and> 2 ^ 64 - 4096 < unat e)"
      and step: "(if i < e then Option.bind (rec p (i + p) e) (\<lambda>as. Some (i # as)) else Some []) = Some as"
    show "\<not> (p = 4096 \<and> 4096 dvd unat i \<and> 2 ^ 64 - 4096 < unat e)"
    proof
      assume h: "p = 4096 \<and> 4096 dvd unat i \<and> 2 ^ 64 - 4096 < unat e"
      then have n: "i < e" "4096 dvd unat (i + p)" using page_addrs_step [of p i e] by auto
      then obtain as' where "rec p (i + p) e = Some as'"
        using step by (cases "rec p (i + p) e") auto
      from IH [OF this] h n show False by blast
    qed
  qed
  with assms show ?thesis by blast
qed

text \<open>Decimal and hexadecimal columns.\<close>

fun dec :: "nat \<Rightarrow> string" where
  "dec n = (if n < 10 then [hex_digit n] else dec (n div 10) @ [hex_digit (n mod 10)])"

declare dec.simps [simp del]

definition ljust :: "nat \<Rightarrow> string \<Rightarrow> string" where
  "ljust n s = s @ replicate (n - length s) (CHR 0x20)"

definition page_line :: "64 word \<Rightarrow> 64 word \<Rightarrow> string" where
  "page_line address data =
     (case print_page data of
        pfn # bits \<Rightarrow>
          ''0x'' @ ljust 16 (hex (unat address)) @ '' : '' @ ljust 16 (hex (unat pfn)) @
          concat (map (\<lambda>b. '' '' @ ljust 10 (dec (unat b))) bits) @ [newline]
      | [] \<Rightarrow> [])"

text \<open>\<^verbatim>\<open>strtok\<close> with one delimiter: the non-empty parts between delimiters.\<close>

fun split_on :: "char \<Rightarrow> string \<Rightarrow> string list" where
  "split_on d [] = [[]]"
| "split_on d (c # cs) =
     (if c = d then [] # split_on d cs
      else case split_on d cs of [] \<Rightarrow> [[c]] | w # ws \<Rightarrow> (c # w) # ws)"

definition tokens :: "char \<Rightarrow> string \<Rightarrow> string list" where
  "tokens d s = filter (\<lambda>w. w \<noteq> []) (split_on d s)"

text \<open>
  A row of the maps file: the addresses of its region, when its first word has two parts.
  \<open>strtoul\<close> is the library's parser in base 16, \<open>entry_at\<close> what \<^verbatim>\<open>pread\<close> reads at an offset.
\<close>

definition row_region :: "(string \<Rightarrow> 64 word) \<Rightarrow> string \<Rightarrow> region option" where
  "row_region strtoul row =
     (case tokens (CHR 0x20) row of
        [] \<Rightarrow> None
      | addresses # _ \<Rightarrow>
          (case tokens (CHR ''-'') addresses of
             a # b # _ \<Rightarrow> Some (strtoul a, strtoul b)
           | _ \<Rightarrow> None))"

definition row_pages ::
  "(string \<Rightarrow> 64 word) \<Rightarrow> 64 word \<Rightarrow> (64 word \<Rightarrow> 64 word) \<Rightarrow> string \<Rightarrow> string list option" where
  "row_pages strtoul page entry_at row =
     (case row_region strtoul row of
        None \<Rightarrow> Some []
      | Some (a, b) \<Rightarrow>
          map_option (map (\<lambda>i. page_line i (entry_at (page_index page i)))) (page_addrs page a b))"

text \<open>The rows that the outer \<^verbatim>\<open>strtok_r\<close> finds, piece by piece: a row that crosses a piece is cut in two.\<close>

definition maps_rows :: "nat \<Rightarrow> string \<Rightarrow> string list" where
  "maps_rows psize content =
     concat (map (\<lambda>buf. tokens newline (map (\<lambda>c. if c = CHR 0x00 then newline else c) buf))
       (pieces psize content))"

fun all_some :: "'a list option list \<Rightarrow> 'a list option" where
  "all_some [] = Some []"
| "all_some (x # xs) =
     (case x of None \<Rightarrow> None | Some a \<Rightarrow> (case all_some xs of None \<Rightarrow> None | Some as \<Rightarrow> Some (a @ as)))"


subsection \<open>Sections that can end the program\<close>

text \<open>
  How a section ends: the next one follows, the program exits with a status, it is in an endless loop, or
  its behaviour is undefined (a null pointer, an access outside an array).
\<close>

datatype ending = Continue | Stop int | Endless | Undefined

definition print_pagemap ::
  "(string \<Rightarrow> 64 word) \<Rightarrow> 64 word \<Rightarrow> (64 word \<Rightarrow> 64 word) \<Rightarrow> nat \<Rightarrow> string option \<Rightarrow> msg list \<times> ending" where
  "print_pagemap strtoul page entry_at psize maps =
     (let heading = [Out (''PAGEMAP'' @ [newline]),
            Out ('' addr : pfn soft-dirty file/shared swapped present'' @ [newline])] in
      case maps of
        None \<Rightarrow> (heading, Undefined)
      | Some content \<Rightarrow>
          (case all_some (map (row_pages strtoul page entry_at) (maps_rows psize content)) of
             None \<Rightarrow> (heading, Endless)
           | Some ls \<Rightarrow> (heading @ map Out ls, Continue)))"

text \<open>What \<^verbatim>\<open>sscanf\<close> finds in a line of the maps file: the number of fields, and those used later.\<close>

record maps_fields =
  mf_count :: int
  mf_start :: "64 word"
  mf_end :: "64 word"
  mf_path :: string

definition MAX_REGIONS :: nat where "MAX_REGIONS = 100"

text \<open>\<^verbatim>\<open>strstr\<close>, as a test.\<close>

fun strstr :: "string \<Rightarrow> string \<Rightarrow> bool" where
  "strstr [] p = (p = [])"
| "strstr (c # cs) p = (take (length p) (c # cs) = p \<or> strstr cs p)"

definition WANTED :: string where
  "WANTED = ''/home/parallels/Desktop/proc_info_2/task-03/s.out''"

text \<open>
  The loop of \<^verbatim>\<open>print_maps\<close>: the lines printed (\<open>six\<close> renders a line without a path) and the regions
  selected, of which there is room for 100.
\<close>

fun maps_loop ::
  "(string \<Rightarrow> maps_fields) \<Rightarrow> (nat \<Rightarrow> maps_fields \<Rightarrow> string) \<Rightarrow> nat \<Rightarrow> string list \<Rightarrow> region list \<Rightarrow>
     msg list \<times> region list" where
  "maps_loop scan six page [] regions = ([], regions)"
| "maps_loop scan six page (line # rest) regions =
     (let f = scan line; pages = unat (mf_end f - mf_start f) div page in
      if line = [] then maps_loop scan six page rest regions
      else if mf_count f < 6 then maps_loop scan six page rest regions
      else
        let shown = (if mf_count f = 6 then six pages f
                     else replicate (8 - length (dec pages)) (CHR 0x20) @ dec pages @ '' '' @ line);
            regions' = (if 6 < mf_count f \<and> strstr (mf_path f) WANTED \<and> length regions < MAX_REGIONS
                        then regions @ [(mf_start f, mf_end f)] else regions);
            (out, chosen) = maps_loop scan six page rest regions' in
        (Out shown # out, chosen))"

definition print_maps ::
  "(string \<Rightarrow> maps_fields) \<Rightarrow> (nat \<Rightarrow> maps_fields \<Rightarrow> string) \<Rightarrow> nat \<Rightarrow> (nat \<Rightarrow> bool) \<Rightarrow> (nat \<Rightarrow> 8 word) \<Rightarrow>
     string list option \<Rightarrow> (region \<Rightarrow> bool \<times> 8 word list option) option \<Rightarrow> bool \<Rightarrow> msg list \<times> ending" where
  "print_maps scan six page can junk maps mem read_error =
     (case maps of
        None \<Rightarrow> ([Err ''Failed to open /proc/[pid]/maps''], Stop 1)
      | Some ls \<Rightarrow>
          (case mem of
             None \<Rightarrow> ([Err ''Failed to open /proc/[pid]/mem''], Stop 1)
           | Some rd \<Rightarrow>
               (let (out, chosen) = maps_loop scan six page ls [];
                    head = Out (newline # ''MAPS:'' @ [newline]) in
                if read_error then (head # out @ [Err ''Error reading /proc/[pid]/maps''], Stop 1)
                else
                  (head # out @ Out (newline # ''Selected memory regions:'' @ [newline]) #
                     concat (map (\<lambda>r. print_region can (fst (rd r)) (snd (rd r)) junk r) chosen),
                   Continue))))"

text \<open>The regions whose line names the wanted file.\<close>

definition wanted_regions :: "(string \<Rightarrow> maps_fields) \<Rightarrow> string list \<Rightarrow> region list" where
  "wanted_regions scan ls =
     map (\<lambda>l. (mf_start (scan l), mf_end (scan l)))
       (filter (\<lambda>l. l \<noteq> [] \<and> 6 < mf_count (scan l) \<and> strstr (mf_path (scan l)) WANTED) ls)"

lemma maps_loop_regions:
  "length regions \<le> MAX_REGIONS \<Longrightarrow>
     snd (maps_loop scan six page ls regions) = take MAX_REGIONS (regions @ wanted_regions scan ls)"
proof (induction ls arbitrary: regions)
  case Nil
  then show ?case by (simp add: wanted_regions_def)
next
  case (Cons l ls)
  show ?case
    using Cons.IH [of regions] Cons.IH [of "regions @ [(mf_start (scan l), mf_end (scan l))]"] Cons.prems
    by (auto simp: Let_def wanted_regions_def split: prod.splits)
qed


subsection \<open>Numbered fields\<close>

text \<open>The labels of the fields of the stat file, without the quotes around the value.\<close>

definition NO_DESCR :: "string list" where
  "NO_DESCR = [
     ''(1) pid  '', ''(2) comm '', ''(3) state  '', ''(4) ppid  '', ''(5) pgrp  '',
     ''(6) session  '', ''(7) tty_nr  '', ''(8) tpgid  '', ''(9) flags  '', ''(10) minflt  '',
     ''(11) cminflt  '', ''(12) majflt  '', ''(13) cmajflt  '', ''(14) utime  '',
     ''(15) stime  '', ''(16) cutime  '', ''(17) cstime  '', ''(18) priority  '',
     ''(19) nice  '', ''(20) num_threads  '', ''(21) itrealvalue  '', ''(22) starttime  '',
     ''(23) vsize  '', ''(24) rss  '', ''(25) rsslim  '', ''(26) startcode  '',
     ''(27) endcode  '', ''(28) startstack  '', ''(29) kstkesp  '', ''(30) kstkeip  '',
     ''(31) signal  '', ''(32) blocked  '', ''(33) sigignore  '', ''(34) sigcatch  '',
     ''(35) wchan  '', ''(36) nswap  '', ''(37) cnswap  '', ''(38) exit_signal  '',
     ''(39) processor  '', ''(40) rt_priority  '', ''(41) policy  '',
     ''(42) delayacct_blkio_ticks  '', ''(43) guest_time  '', ''(44) cguest_time  '',
     ''(45) start_data  '', ''(46) end_data  '', ''(47) start_brk  '', ''(48) arg_start  '',
     ''(49) arg_end  '', ''(50) env_start  '', ''(51) env_end  '', ''(52) exit_code  '']"

definition STATM_PATTERNS :: "(string \<times> string) list" where
  "STATM_PATTERNS = [
     (''size     '', ''  (1)''),
     (''resident '', ''  (2)''),
     (''shared   '', ''  (3)''),
     (''text     '', ''  (4)''),
     (''lib      '', ''  (5)''),
     (''data     '', ''  (6)''),
     (''dt       '', ''  (7)'')]"

text \<open>
  The loop over the words: the \<open>i\<close>-th is printed with the \<open>i\<close>-th pattern, and one after the last
  pattern is an access outside the array.
\<close>

fun label_words :: "(string \<times> string) list \<Rightarrow> string list \<Rightarrow> msg list \<times> ending" where
  "label_words pats [] = ([], Continue)"
| "label_words [] (w # ws) = ([], Undefined)"
| "label_words ((pre, post) # pats) (w # ws) =
     (let (out, e) = label_words pats ws in (Out (pre @ w @ post @ [newline]) # out, e))"

text \<open>
  \<^verbatim>\<open>fread\<close> does not end the buffer with a zero: \<open>after\<close> is what the memory holds behind the content.
\<close>

definition print_words ::
  "string \<Rightarrow> (string \<times> string) list \<Rightarrow> nat \<Rightarrow> string \<Rightarrow> string option \<Rightarrow> msg list \<times> ending" where
  "print_words heading pats psize after f =
     (case f of
        None \<Rightarrow> ([], Undefined)
      | Some content \<Rightarrow>
          (let (out, e) = label_words pats (tokens (CHR 0x20) (c_str (take psize content @ after))) in
           (Out (newline # heading @ [newline]) # out, e)))"

definition print_stat :: "nat \<Rightarrow> string \<Rightarrow> string option \<Rightarrow> msg list \<times> ending" where
  "print_stat = print_words ''STAT:'' (map (\<lambda>d. (d @ [CHR 0x27], [CHR 0x27])) NO_DESCR)"

definition print_statm :: "nat \<Rightarrow> string \<Rightarrow> string option \<Rightarrow> msg list \<times> ending" where
  "print_statm = print_words ''STATM: '' STATM_PATTERNS"


subsection \<open>The program\<close>

text \<open>\<^verbatim>\<open>get_pid\<close>: the arguments after the program's name; \<open>exists\<close> says which processes are there.\<close>

definition get_pid :: "(string \<Rightarrow> int) \<Rightarrow> (int \<Rightarrow> bool) \<Rightarrow> string list \<Rightarrow> string + int" where
  "get_pid atoi exists args =
     (case args of
        [] \<Rightarrow> Inl ''error: PID must be provided as a command-line argument''
      | a # _ \<Rightarrow>
          (let pid = atoi a in
           if pid \<le> 0 then Inl ''error: invalid PID''
           else if \<not> exists pid then Inl ''error: process not found or unable to access the /proc directory''
           else Inr pid))"

fun run_sections :: "(msg list \<times> ending) list \<Rightarrow> msg list \<times> ending" where
  "run_sections [] = ([], Continue)"
| "run_sections ((out, e) # rest) =
     (if e = Continue then (let (out', e') = run_sections rest in (out @ out', e')) else (out, e))"

text \<open>The files of one process, and the library calls that the report makes.\<close>

record proc_env =
  pe_size :: nat
  pe_page :: "64 word"
  pe_cmdline :: "string option"
  pe_cwd :: "string option"
  pe_comm :: "string option"
  pe_exe :: "string option"
  pe_environ :: "string option"
  pe_fd :: "(string \<times> string option) list option"
  pe_io :: "string option"
  pe_maps_lines :: "string list option"
  pe_maps_error :: bool
  pe_mem :: "(region \<Rightarrow> bool \<times> 8 word list option) option"
  pe_maps :: "string option"
  pe_root :: "string option"
  pe_stat :: "string option"
  pe_statm :: "string option"
  pe_task :: "string list option"
  pe_scan :: "string \<Rightarrow> maps_fields"
  pe_six :: "nat \<Rightarrow> maps_fields \<Rightarrow> string"
  pe_strtoul :: "string \<Rightarrow> 64 word"
  pe_entry :: "64 word \<Rightarrow> 64 word"
  pe_can :: "nat \<Rightarrow> bool"
  pe_junk :: "nat \<Rightarrow> 8 word"
  pe_after :: string

definition first_sections :: "int \<Rightarrow> proc_env \<Rightarrow> (msg list \<times> ending) list" where
  "first_sections pid e =
     map (\<lambda>out. (out, Continue))
       [print_cmdline (pe_size e) (pe_cmdline e), print_cwd (pe_size e) (pe_cwd e),
        print_comm (pe_size e) (pe_comm e), print_exe (pe_size e) (pe_exe e),
        print_environ (pe_size e) (pe_environ e),
        print_fd (pe_size e) (''/proc/'' @ dec (nat pid) @ ''/fd/'') (pe_fd e),
        print_io (pe_size e) (pe_io e)]"

definition last_sections :: "proc_env \<Rightarrow> (msg list \<times> ending) list" where
  "last_sections e =
     [print_pagemap (pe_strtoul e) (pe_page e) (pe_entry e) (pe_size e) (pe_maps e),
      (print_root (pe_root e), Continue),
      print_stat (pe_size e) (pe_after e) (pe_stat e),
      print_statm (pe_size e) (pe_after e) (pe_statm e),
      (print_task (pe_task e), Continue)]"

definition proc_main ::
  "(string \<Rightarrow> int) \<Rightarrow> (int \<Rightarrow> bool) \<Rightarrow> proc_env \<Rightarrow> string list \<Rightarrow> msg list \<times> ending" where
  "proc_main atoi exists e args =
     (case get_pid atoi exists args of
        Inl m \<Rightarrow> ([Err m], Stop 1)
      | Inr pid \<Rightarrow>
          (let (out, end) = run_sections (first_sections pid e @
                 [print_maps (pe_scan e) (pe_six e) (unat (pe_page e)) (pe_can e) (pe_junk e)
                    (pe_maps_lines e) (pe_mem e) (pe_maps_error e)] @
                 last_sections e) in
           (out, if end = Continue then Stop 0 else end)))"

lemma run_sections_app:
  "list_all (\<lambda>x. snd x = Continue) xs \<Longrightarrow>
     run_sections (xs @ ys) =
       (concat (map fst xs) @ fst (run_sections ys), snd (run_sections ys))"
  by (induction xs) (auto simp: Let_def split: prod.splits)

lemma first_sections_continue: "list_all (\<lambda>x. snd x = Continue) (first_sections pid e)"
  by (simp add: first_sections_def)


subsection \<open>Lemmas on words and labels\<close>

lemma split_on_nonempty: "split_on d s \<noteq> []"
  by (induction s) (auto split: list.splits)

lemma split_on_app: "d \<notin> set w \<Longrightarrow> split_on d (w @ d # s) = w # split_on d s"
  by (induction w) (auto split: list.splits)

lemma split_on_word: "d \<notin> set w \<Longrightarrow> split_on d w = [w]"
  by (induction w) auto

lemma tokens_Cons: "d \<notin> set w \<Longrightarrow> w \<noteq> [] \<Longrightarrow> tokens d (w @ d # s) = w # tokens d s"
  by (simp add: tokens_def split_on_app)

text \<open>Words with one delimiter after each.\<close>

definition blanked :: "string list \<Rightarrow> string" where
  "blanked ws = concat (map (\<lambda>w. w @ [CHR 0x20]) ws)"

lemma tokens_blanked:
  "list_all (\<lambda>w. w \<noteq> [] \<and> CHR 0x20 \<notin> set w) ws \<Longrightarrow> tokens (CHR 0x20) (blanked ws) = ws"
proof (induction ws)
  case Nil
  show ?case by (simp add: blanked_def tokens_def)
next
  case (Cons w ws)
  then show ?case using tokens_Cons [of "CHR 0x20" w "blanked ws"] by (simp add: blanked_def)
qed

lemma label_words_all:
  "length ws \<le> length pats \<Longrightarrow>
     label_words pats ws = (map (\<lambda>((pre, post), w). Out (pre @ w @ post @ [newline])) (zip pats ws), Continue)"
  by (induction pats ws rule: label_words.induct) simp_all

lemma label_words_overrun: "length pats < length ws \<Longrightarrow> snd (label_words pats ws) = Undefined"
  by (induction pats ws rule: label_words.induct) (auto simp: Let_def split: prod.splits)

lemma NO_DESCR_length: "length NO_DESCR = 52"
  by (simp add: NO_DESCR_def)


subsection \<open>Properties\<close>

text \<open>The pieces in which the environment is read do not show: for every buffer of at least two
  bytes, the section is the file with a tab before each end of an entry.\<close>

theorem environ_pieces:
  assumes "2 \<le> psize"
  shows "print_environ psize (Some content) =
    [Out (''ENVIRON:'' @ [newline]), Out (concat (map environ_char content)), Out [newline]]"
proof -
  have "concat (map (\<lambda>buf. concat (map environ_char buf)) (pieces (psize - 1) content)) =
      concat (map environ_char (concat (pieces (psize - 1) content)))"
    by (rule concat_map_concat)
  also have "\<dots> = concat (map environ_char content)" using assms by (simp add: concat_pieces)
  finally show ?thesis by (simp add: print_environ_def)
qed

theorem environ_pieces_witness:
  "print_environ 4 (Some ''AB=1'') = [Out (''ENVIRON:'' @ [newline]), Out ''AB=1'', Out [newline]]"
  using environ_pieces [of 4 "''AB=1''"] by (simp add: environ_char_def newline_def)

text \<open>Of a command line only the name of the program is printed: the arguments follow a zero byte.\<close>

theorem cmdline_first_word:
  assumes "CHR 0x00 \<notin> set prog" and "length prog + 1 < psize"
  shows "print_cmdline psize (Some (prog @ CHR 0x00 # args)) = [Out (''CMDLINE:'' @ prog @ [newline])]"
proof -
  have t: "take (psize - 1) (prog @ CHR 0x00 # args) = prog @ CHR 0x00 # take (psize - 2 - length prog) args"
    using assms(2) by (simp add: take_Cons')
  show ?thesis
    unfolding print_cmdline_def print_file_def option.case t Let_def
    using c_str_app [OF assms(1)] by simp
qed

theorem cmdline_first_word_witness:
  "print_cmdline 4096 (Some (''ls'' @ CHR 0x00 # ''-l'')) = [Out (''CMDLINE:ls'' @ [newline])]"
  using cmdline_first_word [of "''ls''" 4096 "''-l''"] by simp

text \<open>The growing array of regions holds every region of the file, in order, and is never written
  outside, however long the file is.\<close>

theorem regions_complete:
  "get_memory_regions scan (\<lambda>_. True) (Some ls) = Some (Some (scanned scan ls))"
  using region_loop_scans [of "replicate 10 (0, 0)" 10 0 "\<lambda>_. True" scan ls]
  by (simp add: get_memory_regions_def)

text \<open>The dump of a region can be read back: it shows the bytes that were read, and behind them whatever the
  uninitialised buffer held, up to the size of the region.\<close>

theorem region_dump:
  assumes "length bytes \<le> unat (b - a)" and "can (unat (b - a))"
  shows "\<exists>header text. print_region can True (Some bytes) junk (a, b) = [Out header, Out text] \<and>
    undump text = bytes @ map junk [length bytes..<unat (b - a)]"
  using assms by (simp add: print_region_def Let_def undump_dump min_absorb1)

theorem region_dump_witness:
  "\<exists>header text. print_region (\<lambda>_. True) True (Some [1, 255]) (\<lambda>_. 7) (16, 19) = [Out header, Out text] \<and>
     undump text = [1, 255, 7]"
  using region_dump [of "[1, 255]" 19 16 "\<lambda>_. True" "\<lambda>_. 7"] by (simp add: upt_rec)

text \<open>The two page map readers agree: the columns of the report are the bit fields of pagemap.c, and
  both look for the entry of an address at the same offset.\<close>

theorem page_columns_agree:
  "print_page data = [GET_PFN data, GET_BIT data 55, GET_BIT data 61, GET_BIT data 62, GET_BIT data 63] \<and>
   page_index page i = file_offset i page"
proof -
  have "(push_bit 55 1 - 1 :: 64 word) = mask 55"
    by (simp add: mask_eq_decr_exp flip: push_bit_eq_mult)
  then have "data AND (push_bit 55 1 - 1) = take_bit 55 data" by (simp only: take_bit_eq_mask)
  then show ?thesis
    by (simp add: print_page_def page_bit GET_BIT_eq GET_PFN_eq page_index_def file_offset_def PAGEMAP_ENTRY_def)
qed

text \<open>The loop over the pages of a region ends when the region is a whole number of pages, and has
  shown each of them once, in order; a region of the kernel's maps is.\<close>

theorem pages_enumerated:
  assumes "unat a + n * unat page = unat b" and "0 < page"
  shows "page_addrs page a b = Some (map (\<lambda>k. a + of_nat k * page) [0..<n])"
  by (rule page_addrs_enum [OF assms])

theorem pages_enumerated_witness: "page_addrs 4096 0x1000 0x4000 = Some [0x1000, 0x2000, 0x3000]"
  using pages_enumerated [of "0x1000" 3 4096 "0x4000"] by (simp add: upt_rec)

text \<open>A region that ends inside the last page of the address space is never left: the address wraps
  around to 0 before it reaches the end, and starts again.\<close>

theorem pages_endless:
  assumes "4096 dvd unat a" and "2 ^ 64 - 4096 < unat b"
  shows "page_addrs 4096 a b = None"
  by (rule page_addrs_diverges [OF assms])

theorem pages_endless_witness: "page_addrs 4096 0 0xFFFFFFFFFFFFFFFF = None"
  using pages_endless [of 0 "0xFFFFFFFFFFFFFFFF"] by simp

text \<open>The regions that are dumped are the first hundred whose line names the wanted file, and no
  more are stored than there is room for.\<close>

theorem maps_selects:
  "snd (maps_loop scan six page ls []) = take MAX_REGIONS (wanted_regions scan ls)"
  using maps_loop_regions [of "[]"] by simp

text \<open>The words of the stat file are labelled by their position. When the name of the program has
  blanks, its second word takes the next label, and every later field is labelled one too far for each blank.\<close>

theorem stat_labels:
  assumes "list_all (\<lambda>w. w \<noteq> [] \<and> CHR 0x20 \<notin> set w) (pid # comm @ rest)"
    and "length (pid # comm @ rest) \<le> 52"
    and "c_str (take psize content @ after) = blanked (pid # comm @ rest)" and "j < length rest"
  shows "fst (print_stat psize after (Some content)) ! (2 + length comm + j) =
    Out (NO_DESCR ! (1 + length comm + j) @ [CHR 0x27] @ rest ! j @ [CHR 0x27, newline])"
proof -
  let ?ws = "pid # comm @ rest" and ?pats = "map (\<lambda>d. (d @ [CHR 0x27], [CHR 0x27])) NO_DESCR"
  have "label_words ?pats ?ws =
      (map (\<lambda>((pre, post), w). Out (pre @ w @ post @ [newline])) (zip ?pats ?ws), Continue)"
    using assms(2) by (intro label_words_all) (simp add: NO_DESCR_length)
  then have "fst (print_stat psize after (Some content)) ! Suc (1 + length comm + j) =
      map (\<lambda>((pre, post), w). Out (pre @ w @ post @ [newline])) (zip ?pats ?ws) ! (1 + length comm + j)"
    using tokens_blanked [OF assms(1)] assms(3) by (simp add: print_stat_def print_words_def)
  also have "\<dots> = Out (NO_DESCR ! (1 + length comm + j) @ [CHR 0x27] @ rest ! j @ [CHR 0x27, newline])"
    using assms(2,4) by (simp add: NO_DESCR_length nth_append)
  finally show ?thesis by simp
qed

theorem stat_labels_witness:
  "fst (print_stat 4096 [CHR 0x00] (Some ''7 (a b) S '')) ! 4 = Out (''(4) ppid  '' @ [CHR 0x27] @ ''S'' @ [CHR 0x27, newline])"
  using stat_labels [of "''7''" "[''(a'', ''b)'']" "[''S'']" 4096 "''7 (a b) S ''" "[CHR 0x00]" 0]
  by (simp add: blanked_def c_str_def NO_DESCR_def)

text \<open>A process whose memory file cannot be opened, which is any process of another user, ends the
  report: everything after the maps is missing and the status is 1.\<close>

theorem report_stops_at_memory:
  assumes "get_pid atoi exists args = Inr pid" and "pe_maps_lines e = Some ls" and "pe_mem e = None"
  shows "proc_main atoi exists e args =
    (concat (map fst (first_sections pid e)) @ [Err ''Failed to open /proc/[pid]/mem''], Stop 1)"
  using assms by (simp add: proc_main_def run_sections_app first_sections_continue print_maps_def)

definition sample_env :: proc_env where
  "sample_env = \<lparr>pe_size = 16, pe_page = 4096, pe_cmdline = None, pe_cwd = None, pe_comm = None,
     pe_exe = None, pe_environ = None, pe_fd = None, pe_io = None, pe_maps_lines = Some [],
     pe_maps_error = False, pe_mem = None, pe_maps = None, pe_root = None, pe_stat = None,
     pe_statm = None, pe_task = None,
     pe_scan = (\<lambda>_. \<lparr>mf_count = 0, mf_start = 0, mf_end = 0, mf_path = []\<rparr>), pe_six = (\<lambda>_ _. []),
     pe_strtoul = (\<lambda>_. 0), pe_entry = (\<lambda>_. 0), pe_can = (\<lambda>_. True), pe_junk = (\<lambda>_. 0), pe_after = []\<rparr>"

theorem report_stops_at_memory_witness:
  "snd (proc_main (\<lambda>_. 1) (\<lambda>_. True) sample_env [''1'']) = Stop 1"
  using report_stops_at_memory [of "\<lambda>_. 1" "\<lambda>_. True" "[''1'']" 1 sample_env "[]"]
  by (simp add: get_pid_def sample_env_def)

end
