(* ===== verification/Rpc_Transport.thy ===== *)
theory Rpc_Transport
  imports Rpc_Prodcons Bakery "HOL-Library.Monad_Syntax" "HOL-Library.Word"
begin

unbundle bit_operations_syntax

section \<open>Remote procedure calls\<close>

text \<open>
  Model of the files under lab-rpc that carry the calls: the encoding of the requests (\_xdr.c), the
  client stubs (\_clnt.c), and the dispatchers and start of the servers (\_svc.c). The encodings of single
  numbers and characters belong to the RPC library: they are the fields of \<open>xdr\<close>, and \<open>xdr_ok\<close> says
  what RFC 4506 promises of them. The clients call over UDP, where the library sends a request again until
  an answer comes or its time is up: the argument \<open>call\<close> of the stubs, of which \<open>network\<close> is the instance
  for a given fate of each transmission.
\<close>

type_synonym bytes = "8 word list"

record 'f xdr =
  put_int :: "int \<Rightarrow> bytes"
  get_int :: "bytes \<Rightarrow> (int \<times> bytes) option"
  get_long :: "bytes \<Rightarrow> int"
  put_char :: "int \<Rightarrow> bytes"
  get_char :: "bytes \<Rightarrow> (int \<times> bytes) option"
  put_float :: "'f \<Rightarrow> bytes"
  get_float :: "bytes \<Rightarrow> ('f \<times> bytes) option"

definition xdr_ok :: "'f xdr \<Rightarrow> bool" where
  "xdr_ok X \<longleftrightarrow>
     (\<forall>i rest. is_c_int i \<longrightarrow> get_int X (put_int X i @ rest) = Some (i, rest)) \<and>
     (\<forall>i rest. is_c_int i \<longrightarrow> get_long X (put_int X i @ rest) = i) \<and>
     (\<forall>c rest. - 128 \<le> c \<and> c < 128 \<longrightarrow> get_char X (put_char X c @ rest) = Some (c, rest)) \<and>
     (\<forall>f rest. get_float X (put_float X f @ rest) = Some (f, rest)) \<and>
     (\<forall>i. length (put_int X i) = 4) \<and>
     (\<forall>bs f. get_float X bs = Some f \<longrightarrow> length bs = 4 + length (snd f)) \<and>
     (\<forall>bs i. get_int X bs = Some i \<longrightarrow> length bs = 4 + length (snd i)) \<and>
     (\<forall>bs c. get_char X bs = Some c \<longrightarrow> length bs = 4 + length (snd c)) \<and>
     (\<forall>bs. 4 \<le> length bs \<longrightarrow> get_float X bs \<noteq> None)"


subsection \<open>The encodings\<close>

text \<open>The structure of the bakery's calls: two more fields than its server looks at.\<close>

record 'f bk_struct = "'f bk_request" +
  bs_num :: int
  bs_res :: 'f

text \<open>
  \<^verbatim>\<open>xdr_REQUEST\<close> of the bakery. The macros for the four integers, used when the buffer of the stream has room
  for them at once, write the same bytes as \<^verbatim>\<open>xdr_int\<close>; reading goes one way or the other (\<open>room\<close>).
\<close>

definition bk_put :: "'f xdr \<Rightarrow> 'f bk_struct \<Rightarrow> bytes" where
  "bk_put X r = put_int X (bq_pid r) @ put_int X (bq_idx r) @ put_int X (bs_num r) @ put_int X (bq_op r) @
     put_float X (bq_arg1 r) @ put_float X (bq_arg2 r) @ put_float X (bs_res r)"

definition bk_get :: "'f xdr \<Rightarrow> bool \<Rightarrow> bytes \<Rightarrow> ('f bk_struct \<times> bytes) option" where
  "bk_get X room bs = do {
     (pid, idx, num, op, bs) \<leftarrow>
       (if room \<and> 16 \<le> length bs then
          Some (get_long X bs, get_long X (drop 4 bs), get_long X (drop 8 bs), get_long X (drop 12 bs), drop 16 bs)
        else do {
          (pid, bs) \<leftarrow> get_int X bs;
          (idx, bs) \<leftarrow> get_int X bs;
          (num, bs) \<leftarrow> get_int X bs;
          (op, bs) \<leftarrow> get_int X bs;
          Some (pid, idx, num, op, bs)
        });
     (a1, bs) \<leftarrow> get_float X bs;
     (a2, bs) \<leftarrow> get_float X bs;
     (res, bs) \<leftarrow> get_float X bs;
     Some (\<lparr>bq_pid = pid, bq_idx = idx, bq_op = op, bq_arg1 = a1, bq_arg2 = a2, bs_num = num, bs_res = res\<rparr>, bs)
   }"

definition rq_put :: "'f xdr \<Rightarrow> rp_request \<Rightarrow> bytes" where
  "rq_put X r = put_int X (rq_idx r) @ put_char X (rq_type r) @ put_char X (rq_result r)"

definition rq_get :: "'f xdr \<Rightarrow> bytes \<Rightarrow> (rp_request \<times> bytes) option" where
  "rq_get X bs = do {
     (idx, bs) \<leftarrow> get_int X bs;
     (ty, bs) \<leftarrow> get_char X bs;
     (res, bs) \<leftarrow> get_char X bs;
     Some (\<lparr>rq_idx = idx, rq_type = ty, rq_result = res\<rparr>, bs)
   }"

record 'f calc_struct = "'f calc_request" +
  cs_result :: 'f

definition ca_put :: "'f xdr \<Rightarrow> 'f calc_struct \<Rightarrow> bytes" where
  "ca_put X r = put_int X (ca_op r) @ put_float X (ca_arg1 r) @ put_float X (ca_arg2 r) @ put_float X (cs_result r)"

definition ca_get :: "'f xdr \<Rightarrow> bytes \<Rightarrow> ('f calc_struct \<times> bytes) option" where
  "ca_get X bs = do {
     (op, bs) \<leftarrow> get_int X bs;
     (a1, bs) \<leftarrow> get_float X bs;
     (a2, bs) \<leftarrow> get_float X bs;
     (res, bs) \<leftarrow> get_float X bs;
     Some (\<lparr>ca_op = op, ca_arg1 = a1, ca_arg2 = a2, cs_result = res\<rparr>, bs)
   }"

definition bk_struct_ok :: "'f bk_struct \<Rightarrow> bool" where
  "bk_struct_ok r \<longleftrightarrow> is_c_int (bq_pid r) \<and> is_c_int (bq_idx r) \<and> is_c_int (bs_num r) \<and> is_c_int (bq_op r)"

definition is_c_char :: "int \<Rightarrow> bool" where
  "is_c_char c \<longleftrightarrow> - 128 \<le> c \<and> c < 128"

definition rq_ok :: "rp_request \<Rightarrow> bool" where
  "rq_ok r \<longleftrightarrow> is_c_int (rq_idx r) \<and> is_c_char (rq_type r) \<and> is_c_char (rq_result r)"

lemma xdr_laws:
  assumes "xdr_ok X"
  shows "is_c_int i \<Longrightarrow> get_int X (put_int X i @ rest) = Some (i, rest)"
    and "is_c_int i \<Longrightarrow> get_long X (put_int X i @ rest) = i"
    and "is_c_char c \<Longrightarrow> get_char X (put_char X c @ rest) = Some (c, rest)"
    and "get_float X (put_float X f @ rest) = Some (f, rest)"
    and "length (put_int X i) = 4"
  using assms by (simp_all add: xdr_ok_def is_c_char_def)

lemma xdr_lengths:
  assumes "xdr_ok X"
  shows "get_int X bs = Some (i, r) \<Longrightarrow> length bs = 4 + length r"
    and "get_float X bs = Some (f, r) \<Longrightarrow> length bs = 4 + length r"
    and "get_char X bs = Some (c, r) \<Longrightarrow> length bs = 4 + length r"
  using assms unfolding xdr_ok_def by fastforce+

lemma get_float_total:
  assumes "xdr_ok X" and "4 \<le> length bs"
  shows "\<exists>f r. get_float X bs = Some (f, r) \<and> length r = length bs - 4"
  using assms xdr_lengths(2) [OF assms(1), of bs] unfolding xdr_ok_def by fastforce

lemma put_float_length: "xdr_ok X \<Longrightarrow> length (put_float X f) = 4"
  using xdr_laws(4) [of X f "[]"] xdr_lengths(2) [of X "put_float X f" f "[]"] by simp

lemma xdr_laws_end:
  assumes "xdr_ok X"
  shows "is_c_char c \<Longrightarrow> get_char X (put_char X c) = Some (c, [])"
    and "get_float X (put_float X f) = Some (f, [])"
    and "is_c_int i \<Longrightarrow> get_int X (put_int X i) = Some (i, [])"
  using xdr_laws(3) [OF assms, of c "[]"] xdr_laws(4) [OF assms, of f "[]"]
    xdr_laws(1) [OF assms, of i "[]"] by simp_all

lemma drop_put: "xdr_ok X \<Longrightarrow> n \<ge> 4 \<Longrightarrow> drop n (put_int X i @ rest) = drop (n - 4) rest"
  by (simp add: xdr_laws(5))

lemma bk_round:
  assumes "xdr_ok X" and "bk_struct_ok r"
  shows "bk_get X room (bk_put X r @ rest) = Some (r, rest)"
  using assms(2)
  by (cases r) (simp add: bk_get_def bk_put_def bk_struct_ok_def drop_put [OF assms(1)] xdr_laws [OF assms(1)])

lemma rq_round:
  assumes "xdr_ok X" and "rq_ok r"
  shows "rq_get X (rq_put X r @ rest) = Some (r, rest)"
  using assms(2)
  by (cases r) (simp add: rq_get_def rq_put_def rq_ok_def xdr_laws [OF assms(1)])

lemma ca_round:
  assumes "xdr_ok X" and "is_c_int (ca_op r)"
  shows "ca_get X (ca_put X r @ rest) = Some (r, rest)"
  using assms(2) by (cases r) (simp add: ca_get_def ca_put_def xdr_laws [OF assms(1)])

lemmas bk_round_trip = bk_round [where rest = "[]", unfolded append_Nil2]
lemmas rq_round_trip = rq_round [where rest = "[]", unfolded append_Nil2]
lemmas ca_round_trip = ca_round [where rest = "[]", unfolded append_Nil2]

text \<open>What each decoder consumes, and so needs at least.\<close>

lemma bk_get_length:
  assumes "xdr_ok X"
  shows "bk_get X room bs = Some (r, rest) \<Longrightarrow> length bs = 28 + length rest"
  by (auto simp: bk_get_def bind_eq_Some_conv dest!: xdr_lengths(1,2) [OF assms] split: if_splits)

lemma rq_get_length: "xdr_ok X \<Longrightarrow> rq_get X bs = Some (r, rest) \<Longrightarrow> length bs = 12 + length rest"
  by (auto simp: rq_get_def bind_eq_Some_conv xdr_lengths)

lemma ca_get_length: "xdr_ok X \<Longrightarrow> ca_get X bs = Some (r, rest) \<Longrightarrow> length bs = 16 + length rest"
  by (auto simp: ca_get_def bind_eq_Some_conv xdr_lengths)

lemma get_short:
  assumes "xdr_ok X"
  shows "length bs < 28 \<Longrightarrow> bk_get X room bs = None" and "length bs < 12 \<Longrightarrow> rq_get X bs = None"
    and "length bs < 16 \<Longrightarrow> ca_get X bs = None"
  by (auto dest!: bk_get_length [OF assms] rq_get_length [OF assms] ca_get_length [OF assms] intro: ccontr)


subsection \<open>The encoding of RFC 4506\<close>

text \<open>
  The encoding that the library implements, to evaluate with: four bytes with the most significant
  first, for an \<^verbatim>\<open>int\<close>, a \<^verbatim>\<open>char\<close> and the bits of a \<^verbatim>\<open>float\<close>.
\<close>

definition be32 :: "32 word \<Rightarrow> bytes" where
  "be32 w = map (\<lambda>k. ucast (drop_bit k w)) [24, 16, 8, 0]"

fun un32 :: "bytes \<Rightarrow> (32 word \<times> bytes) option" where
  "un32 (a # b # c # d # rest) =
     Some (push_bit 24 (ucast a) OR push_bit 16 (ucast b) OR push_bit 8 (ucast c) OR ucast d, rest)"
| "un32 _ = None"

definition xdr32 :: "32 word xdr" where
  "xdr32 = \<lparr>put_int = (\<lambda>i. be32 (word_of_int i)),
     get_int = (\<lambda>bs. map_option (\<lambda>(w, r). (sint w, r)) (un32 bs)),
     get_long = (\<lambda>bs. case un32 bs of None \<Rightarrow> 0 | Some (w, _) \<Rightarrow> sint w),
     put_char = (\<lambda>c. be32 (word_of_int c)),
     get_char = (\<lambda>bs. map_option (\<lambda>(w, r). (signed_take_bit 7 (sint w), r)) (un32 bs)),
     put_float = be32, get_float = un32\<rparr>"

lemma un32_be32: "un32 (be32 w @ rest) = Some (w, rest)"
proof -
  have "push_bit 24 (ucast (ucast (drop_bit 24 w) :: 8 word)) OR push_bit 16 (ucast (ucast (drop_bit 16 w) :: 8 word))
     OR push_bit 8 (ucast (ucast (drop_bit 8 w) :: 8 word)) OR ucast (ucast w :: 8 word) = w" (is "?l = w")
  proof (rule bit_word_eqI)
    fix n :: nat
    assume "n < LENGTH(32)"
    then have "n < 8 \<or> 8 \<le> n \<and> n < 16 \<or> 16 \<le> n \<and> n < 24 \<or> 24 \<le> n \<and> n < 32" by auto
    then show "bit ?l n = bit w n" by (elim disjE) (auto simp: bit_simps)
  qed
  then show ?thesis by (simp add: be32_def)
qed

lemma un32_length: "un32 bs = Some (w, rest) \<Longrightarrow> length bs = 4 + length rest"
  by (cases bs rule: un32.cases) auto

lemma un32_total: "4 \<le> length bs \<Longrightarrow> \<exists>w rest. un32 bs = Some (w, rest)"
  by (cases bs rule: un32.cases) auto

lemma sint_c_int: "is_c_int i \<Longrightarrow> sint (word_of_int i :: 32 word) = i"
  by (simp add: is_c_int_def INT_MIN_def INT_MAX_def sint_sbintrunc' signed_take_bit_int_eq_self)

lemma xdr32_ok: "xdr_ok xdr32"
proof -
  have "is_c_int c" "signed_take_bit 7 c = c" if "- 128 \<le> c" "c < 128" for c
    using that by (simp_all add: is_c_int_def INT_MIN_def INT_MAX_def signed_take_bit_int_eq_self)
  then show ?thesis
    by (auto simp: xdr_ok_def xdr32_def un32_be32 sint_c_int un32_total dest: un32_length)
      (simp add: be32_def)
qed


subsection \<open>The dispatchers\<close>

text \<open>What a dispatcher sends, and whether the server goes on after freeing the arguments.\<close>

datatype answer = Reply bytes | NoProc | DecodeError | SystemError | Silent

record svc_io =
  reply_sent :: bool
  args_freed :: bool

text \<open>
  The common part of the three dispatchers, after the \<^verbatim>\<open>switch\<close> has chosen how to decode the arguments,
  the procedure and how to encode its result; a null result is not answered. The outer
  \<^term>\<open>None\<close> is a call whose behaviour is undefined.
\<close>

definition svc_call ::
  "svc_io \<Rightarrow> (bytes \<Rightarrow> ('a \<times> bytes) option) \<Rightarrow> ('a \<Rightarrow> 's \<Rightarrow> ('s \<times> 'r option) option) \<Rightarrow> ('r \<Rightarrow> bytes) \<Rightarrow>
     bytes \<Rightarrow> 's \<Rightarrow> ('s \<times> answer \<times> bool) option" where
  "svc_call io get proc put bs s =
     (case get bs of
        None \<Rightarrow> Some (s, DecodeError, True)
      | Some (a, _) \<Rightarrow>
          (case proc a s of
             None \<Rightarrow> None
           | Some (t, res) \<Rightarrow>
               Some (t, case res of None \<Rightarrow> Silent
                  | Some r \<Rightarrow> if reply_sent io then Reply (put r) else SystemError, args_freed io)))"

definition NULLPROC :: nat where "NULLPROC = 0"
definition GET_NUMBER :: nat where "GET_NUMBER = 1"
definition BAKERY_SERVICE :: nat where "BAKERY_SERVICE = 2"
definition SERVICE :: nat where "SERVICE = 1"
definition CALCULATOR_PROC :: nat where "CALCULATOR_PROC = 1"

text \<open>The procedures of the bakery as the dispatcher calls them: each returns a pointer to a static variable.\<close>

definition get_number_svc :: "'f bk_struct \<Rightarrow> 'f bk_state \<Rightarrow> ('f bk_state \<times> int option) option" where
  "get_number_svc a s = map_option (\<lambda>(t, n). (t, Some n)) (get_number (bk_request.truncate a) s)"

definition bakery_service_svc :: "'f flt \<Rightarrow> 'f bk_struct \<Rightarrow> 'f bk_state \<Rightarrow> ('f bk_state \<times> 'f option) option" where
  "bakery_service_svc F a s =
     map_option (\<lambda>(t, served). (t, Some (bk_result t))) (bakery_service F (bk_request.truncate a) s)"

definition bakery_dispatch ::
  "'f xdr \<Rightarrow> bool \<Rightarrow> 'f flt \<Rightarrow> svc_io \<Rightarrow> nat \<Rightarrow> bytes \<Rightarrow> 'f bk_state \<Rightarrow> ('f bk_state \<times> answer \<times> bool) option" where
  "bakery_dispatch X room F io rq_proc bs s =
     (if rq_proc = NULLPROC then Some (s, Reply [], True)
      else if rq_proc = GET_NUMBER then svc_call io (bk_get X room) get_number_svc (put_int X) bs s
      else if rq_proc = BAKERY_SERVICE then
        svc_call io (bk_get X room) (bakery_service_svc F) (put_float X) bs s
      else Some (s, NoProc, True))"

definition prodcons_dispatch ::
  "'f xdr \<Rightarrow> bool \<Rightarrow> svc_io \<Rightarrow> nat \<Rightarrow> bytes \<Rightarrow> rp_sys \<Rightarrow> (rp_sys \<times> answer \<times> bool) option" where
  "prodcons_dispatch X malloc_ok io rq_proc bs s =
     (if rq_proc = NULLPROC then Some (s, Reply [], True)
      else if rq_proc = SERVICE then svc_call io (rq_get X) (rp_service malloc_ok) (rq_put X) bs s
      else Some (s, NoProc, True))"

text \<open>The state of the calculator is its static structure, of which only the result ever changes.\<close>

definition calculator_svc ::
  "'f flt \<Rightarrow> 'f calc_struct \<Rightarrow> 'f calc_struct \<Rightarrow> ('f calc_struct \<times> 'f calc_struct option) option" where
  "calculator_svc F a s =
     (let t = s\<lparr>cs_result := calculator_proc F (cs_result s) (calc_request.truncate a)\<rparr> in Some (t, Some t))"

definition calculator_dispatch ::
  "'f xdr \<Rightarrow> 'f flt \<Rightarrow> svc_io \<Rightarrow> nat \<Rightarrow> bytes \<Rightarrow> 'f calc_struct \<Rightarrow> ('f calc_struct \<times> answer \<times> bool) option" where
  "calculator_dispatch X F io rq_proc bs s =
     (if rq_proc = NULLPROC then Some (s, Reply [], True)
      else if rq_proc = CALCULATOR_PROC then svc_call io (ca_get X) (calculator_svc F) (ca_put X) bs s
      else Some (s, NoProc, True))"


subsection \<open>The client stubs\<close>

text \<open>
  A stub clears its static result, encodes its argument, and decodes the answer: the new state of the
  server, and what the stub returns, \<^term>\<open>None\<close> for a null pointer. The argument \<open>call\<close> is
  \<^verbatim>\<open>clnt_call\<close> on encoded arguments; it yields no answer when it does not end with RPC_SUCCESS.
\<close>

type_synonym 's rpc = "nat \<Rightarrow> bytes \<Rightarrow> 's \<Rightarrow> ('s \<times> bytes option) option"

definition clnt_stub ::
  "('a \<Rightarrow> bytes) \<Rightarrow> (bytes \<Rightarrow> ('r \<times> bytes) option) \<Rightarrow> 's rpc \<Rightarrow> nat \<Rightarrow> 'a \<Rightarrow> 's \<Rightarrow> ('s \<times> 'r option) option" where
  "clnt_stub put get call rq_proc a s =
     (case call rq_proc (put a) s of
        None \<Rightarrow> None
      | Some (t, None) \<Rightarrow> Some (t, None)
      | Some (t, Some bs) \<Rightarrow> Some (t, map_option fst (get bs)))"

definition get_number_1 ::
  "'f xdr \<Rightarrow> 's rpc \<Rightarrow> 'f bk_struct \<Rightarrow> 's \<Rightarrow> ('s \<times> int option) option" where
  "get_number_1 X call = clnt_stub (bk_put X) (get_int X) call GET_NUMBER"

definition bakery_service_1 ::
  "'f xdr \<Rightarrow> 's rpc \<Rightarrow> 'f bk_struct \<Rightarrow> 's \<Rightarrow> ('s \<times> 'f option) option" where
  "bakery_service_1 X call = clnt_stub (bk_put X) (get_float X) call BAKERY_SERVICE"

definition service_1 ::
  "'f xdr \<Rightarrow> 's rpc \<Rightarrow> rp_request \<Rightarrow> 's \<Rightarrow> ('s \<times> rp_request option) option" where
  "service_1 X call = clnt_stub (rq_put X) (rq_get X) call SERVICE"

definition calculator_proc_1 ::
  "'f xdr \<Rightarrow> 's rpc \<Rightarrow> 'f calc_struct \<Rightarrow> 's \<Rightarrow> ('s \<times> 'f calc_struct option) option" where
  "calculator_proc_1 X call = clnt_stub (ca_put X) (ca_get X) call CALCULATOR_PROC"

text \<open>
  The library over UDP (rpc(3)): one entry for each time the request is sent before the time-out, with what
  the other clients do to the server before it arrives, and what becomes of it. A request that was not
  answered is sent again, and is executed again if it arrives again.
\<close>

datatype delivery = Delivered | RequestLost | ReplyLost

fun network ::
  "(nat \<Rightarrow> bytes \<Rightarrow> 's \<Rightarrow> ('s \<times> answer \<times> bool) option) \<Rightarrow> (('s \<Rightarrow> 's option) \<times> delivery) list \<Rightarrow> 's rpc" where
  "network server [] rq_proc bs s = Some (s, None)"
| "network server ((others, d) # ds) rq_proc bs s =
     (case others s of
        None \<Rightarrow> None
      | Some s1 \<Rightarrow>
          if d = RequestLost then network server ds rq_proc bs s1
          else
            (case server rq_proc bs s1 of
               None \<Rightarrow> None
             | Some (t, ans, alive) \<Rightarrow>
                 if d = Delivered \<and> ans \<noteq> Silent
                 then Some (t, case ans of Reply out \<Rightarrow> Some out | _ \<Rightarrow> None)
                 else if alive then network server ds rq_proc bs t
                 else Some (t, None)))"


subsection \<open>Calls through the network\<close>

definition io_ok :: svc_io where
  "io_ok = \<lparr>reply_sent = True, args_freed = True\<rparr>"

text \<open>The general case: a call that is delivered and answered is the procedure itself.\<close>

lemma delivered_call:
  assumes "\<And>bs s. server n bs s = svc_call io_ok get proc put' bs s"
    and "get (put a) = Some (a, [])"
    and "\<And>t r. proc a s = Some (t, Some r) \<Longrightarrow> get' (put' r) = Some (r, [])"
  shows "clnt_stub put get' (network server [(Some, Delivered)]) n a s = proc a s"
  using assms
  by (auto simp: clnt_stub_def svc_call_def io_ok_def split: option.splits prod.splits)

text \<open>One transmission, whatever becomes of it.\<close>

lemma one_transmission:
  assumes "\<And>bs s. server n bs s = svc_call io_ok get proc put' bs s" and "get (put a) = Some (a, [])"
    and "\<And>t x. proc a s = Some (t, Some x) \<Longrightarrow> get' (put' x) = Some (x, [])"
    and "clnt_stub put get' (network server [(Some, d)]) n a s = Some (t, p)"
  obtains (lost) "d = RequestLost" "t = s" "p = None"
  | (run) r where "d \<noteq> RequestLost" "proc a s = Some (t, r)" "p = (if d = Delivered then r else None)"
proof (cases "d = RequestLost")
  case True
  then show thesis using assms(4) lost by (simp add: clnt_stub_def)
next
  case False
  obtain u q where u: "proc a s = Some (u, q)"
    using assms(4) False by (cases "proc a s") (auto simp: clnt_stub_def assms(1,2) svc_call_def)
  then have "q = Some x \<Longrightarrow> get' (put' x) = Some (x, [])" for x using assms(3) by blast
  with assms(4) False u run show thesis
    by (cases d; cases q) (auto simp: clnt_stub_def assms(1,2) svc_call_def io_ok_def)
qed

text \<open>A lost answer: the server has executed the call, and the request is sent again.\<close>

lemma lost_answer:
  assumes "\<And>bs s. server n bs s = svc_call io_ok get proc put' bs s"
    and "get (put a) = Some (a, [])" and "proc a s = Some (t, r)"
  shows "clnt_stub put get' (network server ((Some, ReplyLost) # ds)) n a s =
    clnt_stub put get' (network server ds) n a t"
  using assms by (simp add: clnt_stub_def svc_call_def io_ok_def)

lemma others_first:
  assumes "others s = Some t"
  shows "clnt_stub put get (network server ((others, d) # ds)) n a s =
    clnt_stub put get (network server ((Some, d) # ds)) n a t"
  using assms by (simp add: clnt_stub_def)

lemma bakery_server:
  "bakery_dispatch X room F io GET_NUMBER bs s = svc_call io (bk_get X room) get_number_svc (put_int X) bs s"
  "bakery_dispatch X room F io BAKERY_SERVICE bs s =
     svc_call io (bk_get X room) (bakery_service_svc F) (put_float X) bs s"
  by (simp_all add: bakery_dispatch_def NULLPROC_def GET_NUMBER_def BAKERY_SERVICE_def)

lemma prodcons_server:
  "prodcons_dispatch X m io SERVICE bs s = svc_call io (rq_get X) (rp_service m) (rq_put X) bs s"
  by (simp add: prodcons_dispatch_def NULLPROC_def SERVICE_def)

lemma calculator_server:
  "calculator_dispatch X F io CALCULATOR_PROC bs s = svc_call io (ca_get X) (calculator_svc F) (ca_put X) bs s"
  by (simp add: calculator_dispatch_def NULLPROC_def CALCULATOR_PROC_def)

lemma get_number_c_int: "get_number r s = Some (t, n) \<Longrightarrow> is_c_int n"
  by (auto simp: get_number_def Let_def split: if_splits)

lemma get_number_svc_c_int: "get_number_svc r s = Some (t, Some n) \<Longrightarrow> is_c_int n"
  by (auto simp: get_number_svc_def dest: get_number_c_int)

lemma get_number_1_delivered:
  assumes "xdr_ok X" and "bk_struct_ok a"
  shows "get_number_1 X (network (bakery_dispatch X room F io_ok) [(Some, Delivered)]) a s = get_number_svc a s"
  unfolding get_number_1_def
  by (rule delivered_call, rule bakery_server(1), rule bk_round_trip [OF assms])
    (rule xdr_laws_end(3) [OF assms(1) get_number_svc_c_int])

lemma get_number_1_resent:
  assumes "xdr_ok X" and "bk_struct_ok a" and "get_number_svc a s = Some (t, r)"
  shows "get_number_1 X (network (bakery_dispatch X room F io_ok) ((Some, ReplyLost) # ds)) a s =
    get_number_1 X (network (bakery_dispatch X room F io_ok) ds) a t"
  unfolding get_number_1_def
  by (rule lost_answer, rule bakery_server(1), rule bk_round_trip [OF assms(1,2)], rule assms(3))

lemma bakery_service_1_resent:
  assumes "xdr_ok X" and "bk_struct_ok a" and "bakery_service_svc F a s = Some (t, r)"
  shows "bakery_service_1 X (network (bakery_dispatch X room F io_ok) ((Some, ReplyLost) # ds)) a s =
    bakery_service_1 X (network (bakery_dispatch X room F io_ok) ds) a t"
  unfolding bakery_service_1_def
  by (rule lost_answer, rule bakery_server(2), rule bk_round_trip [OF assms(1,2)], rule assms(3))

lemma no_more_calls:
  "get_number_1 X (network server []) a s = Some (s, None)"
  by (simp add: get_number_1_def clnt_stub_def)

lemma bakery_service_1_delivered:
  assumes "xdr_ok X" and "bk_struct_ok a"
  shows "bakery_service_1 X (network (bakery_dispatch X room F io_ok) [(Some, Delivered)]) a s =
    bakery_service_svc F a s"
  unfolding bakery_service_1_def
  by (rule delivered_call, rule bakery_server(2), rule bk_round_trip [OF assms])
    (rule xdr_laws_end(2) [OF assms(1)])

lemma calculator_proc_1_delivered:
  assumes "xdr_ok X" and "is_c_int (ca_op a)" and "is_c_int (ca_op s)"
  shows "calculator_proc_1 X (network (calculator_dispatch X F io_ok) [(Some, Delivered)]) a s =
    calculator_svc F a s"
  unfolding calculator_proc_1_def
  by (rule delivered_call, rule calculator_server, rule ca_round_trip [OF assms(1,2)], rule ca_round_trip [OF assms(1)])
    (use assms(3) in \<open>auto simp: calculator_svc_def Let_def\<close>)

lemma bakery_others_first:
  assumes "others s = Some t"
  shows "bakery_service_1 X (network server ((others, d) # ds)) a s =
    bakery_service_1 X (network server ((Some, d) # ds)) a t"
  using others_first [where others = others and s = s and t = t, OF assms]
  by (simp add: bakery_service_1_def)

subsection \<open>The types of the server's variables\<close>

text \<open>Every cell of the server's arrays and its static structure hold values of their C types.\<close>

definition rp_typed :: "rp_sys \<Rightarrow> bool" where
  "rp_typed s \<longleftrightarrow> (\<forall>x \<in> set (rp_buffer s). is_c_char x) \<and> (\<forall>i. is_c_char (rp_result s i)) \<and>
     (\<forall>t sid ch. rp_phase s t = CRead sid ch \<longrightarrow> is_c_char ch) \<and> rq_ok (rp_static s)"

lemma is_c_char_schar: "is_c_char (to_schar x)"
  using to_schar_range [of x] by (simp add: is_c_char_def)

lemma rp_mid_bounds:
  assumes "rp_inv s" and "rp_cs (rp_phase s t)"
  shows "length (rp_buffer s) = 29" and "rp_phase s t = PStored sid \<Longrightarrow> sid < 26"
    and "rp_phase s t = TEntered \<Longrightarrow> rp_sid (rp_buffer s ! 1) < 26"
proof -
  have ok: "rp_buf_ok (rp_done s)" using assms(1) by (simp add: rp_inv_def)
  note b = rp_sid_bound [OF ok]
  have mid: "rp_mid (rp_done s) (rp_role s t) (rp_result s t) (rp_phase s t) (rp_buffer s)"
    using rp_inv_holder [OF assms] by simp
  show "length (rp_buffer s) = 29" using mid b(1) by (cases "rp_phase s t") auto
  show "rp_phase s t = PStored sid \<Longrightarrow> sid < 26" using mid b(2) by simp
  show "rp_phase s t = TEntered \<Longrightarrow> rp_sid (rp_buffer s ! 1) < 26" using mid b(3) by simp
qed

lemma rp_typed_move:
  assumes "rp_typed s" and "rp_phase u = (rp_phase s)(t := p)" and "rp_static u = rp_static s"
    and "\<forall>x \<in> set (rp_buffer u). is_c_char x" and "\<forall>i. is_c_char (rp_result u i)"
    and "\<forall>sid ch. p = CRead sid ch \<longrightarrow> is_c_char ch"
  shows "rp_typed u"
  using assms by (simp add: rp_typed_def)

lemma rp_commit_static [simp]: "rp_static (rp_commit t s) = rp_static s"
  by (simp add: rp_commit_def Let_def)

lemma rp_thread_frame:
  "rp_thread s t = Some u \<Longrightarrow> rp_phase u = (rp_phase s)(t := rp_phase u t) \<and> rp_static u = rp_static s \<and> rp_idx u = rp_idx s"
  by (cases "rp_phase s t"; cases "rp_role s t") (auto simp: Let_def split: semresult.splits if_splits)

lemma rp_typed_thread:
  assumes inv: "rp_inv s" and ty: "rp_typed s" and ex: "rp_thread s t = Some u"
  shows "rp_typed u"
proof -
  have buf: "\<forall>x \<in> set (rp_buffer s). is_c_char x" and res: "\<forall>i. is_c_char (rp_result s i)"
    using ty by (simp_all add: rp_typed_def)
  have nth: "is_c_char (rp_buffer s ! i)" if "i < length (rp_buffer s)" for i using buf nth_mem [OF that] by blast
  have upd: "\<forall>x \<in> set ((rp_buffer s)[i := y]). is_c_char x" if "is_c_char y" for i y
    using buf that by (rule all_nth_update)
  have len: "rp_cs (rp_phase s t) \<Longrightarrow> length (rp_buffer s) = 29" by (rule rp_mid_bounds(1) [OF inv])
  have zero: "is_c_char 0" by (simp add: is_c_char_def)
  note rp_thread_frame [OF ex]
  moreover have "(\<forall>x \<in> set (rp_buffer u). is_c_char x) \<and> (\<forall>i. is_c_char (rp_result u i)) \<and>
      (\<forall>sid ch. rp_phase u t = CRead sid ch \<longrightarrow> is_c_char ch)"
  proof (cases "rp_phase s t")
    case TEntered
    then have "length (rp_buffer s) = 29" "rp_sid (rp_buffer s ! 1) < 26"
      using len rp_mid_bounds(3) [OF inv, of t] by simp_all
    then have c: "is_c_char (rp_buffer s ! 2)" "is_c_char (rp_buffer s ! (3 + rp_sid (rp_buffer s ! 1)))"
      using nth by simp_all
    show ?thesis
      using TEntered ex res buf c upd [OF c(1)] by (cases "rp_role s t") (auto simp: Let_def)
  next
    case (PStored sid)
    then have "is_c_char (rp_buffer s ! (3 + sid))" using len rp_mid_bounds(2) [OF inv, of t sid] nth by simp
    then show ?thesis using PStored ex res buf by (cases "t < MAX_CNT_CLNT") auto
  next
    case PPublished
    then have "u = rp_goto t PBumped (s\<lparr>rp_buffer := (rp_buffer s)[2 := to_schar (rp_buffer s ! 2 + 1)]\<rparr>)"
      using ex by simp
    then show ?thesis using res upd [OF is_c_char_schar] by simp
  next
    case PBumped
    then have "u = rp_commit t (rp_goto t TRelease (s\<lparr>rp_buffer := (rp_buffer s)[0 := rp_next (rp_buffer s ! 0)]\<rparr>))"
      using ex by simp
    then show ?thesis using res upd [OF is_c_char_schar] by (simp add: rp_next_def)
  next
    case (CRead sid ch)
    then have "is_c_char ch" using ty by (simp add: rp_typed_def)
    then show ?thesis using CRead ex res buf by (cases "t < MAX_CNT_CLNT") auto
  next
    case (CPublished sid)
    then have "u = rp_goto t CCleared (s\<lparr>rp_buffer := (rp_buffer s)[3 + sid := 0]\<rparr>)" using ex by simp
    then show ?thesis using res upd [OF zero] by simp
  next
    case CCleared
    then have "u = rp_commit t (rp_goto t TRelease (s\<lparr>rp_buffer := (rp_buffer s)[1 := rp_next (rp_buffer s ! 1)]\<rparr>))"
      using ex by simp
    then show ?thesis using res upd [OF is_c_char_schar] by (simp add: rp_next_def)
  next
    case TLock
    then show ?thesis using ex res buf by (auto split: semresult.splits)
  next
    case TRelease
    then show ?thesis using ex res buf by (auto split: semresult.splits)
  qed (use ex in simp_all)
  ultimately show ?thesis using rp_typed_move [OF ty, of u t "rp_phase u t"] by blast
qed

lemma rp_typed_call:
  assumes ty: "rp_typed s" and ok: "rq_ok a" "is_c_int (int (rp_idx s))" and ex: "rp_service m a s = Some (t, r)"
  shows "rp_typed t"
  using ex ty ok
  by (auto simp: rp_service_def rp_typed_def rq_ok_def is_c_char_def rp_goto_def Let_def split: if_splits)

lemma rp_typed_init: "rp_typed rp_init"
proof -
  have "\<forall>x \<in> set rp_buf0. is_c_char x"
    unfolding rp_buf0_def by (intro all_nth_update) (auto simp: is_c_char_def)
  then show ?thesis
    by (simp add: rp_typed_def rp_init_eq rp_start_def rq_ok_def is_c_char_def is_c_int_def INT_MIN_def INT_MAX_def)
qed

lemma rp_idx_step: "rp_exec s e = Some t \<Longrightarrow> rp_idx t \<le> Suc (rp_idx s)"
proof (cases e)
  case (Call m a)
  assume "rp_exec s e = Some t"
  with Call obtain r where "rp_service m a s = Some (t, r)" by auto
  then show ?thesis by (cases rule: rp_service_effect) simp_all
next
  case (Run k)
  assume "rp_exec s e = Some t"
  then have "rp_idx t = rp_idx s" using Run rp_thread_frame [of s k t] by simp
  then show ?thesis by simp
qed

lemma rp_typed_run:
  "run rp_exec rp_init es = Some s \<Longrightarrow> \<forall>m a. Call m a \<in> set es \<longrightarrow> rq_ok a \<Longrightarrow> int (length es) \<le> INT_MAX \<Longrightarrow>
     rp_typed s \<and> rp_inv s \<and> rp_idx s \<le> length es"
proof (induction es arbitrary: s rule: rev_induct)
  case Nil
  then show ?case using rp_typed_init rp_inv_init by (auto simp: rp_init_eq)
next
  case (snoc e es)
  then obtain u where u: "run rp_exec rp_init es = Some u" "rp_exec u e = Some s"
    by (auto simp: run_append split: option.splits)
  have ih: "rp_typed u" "rp_inv u" "rp_idx u \<le> length es" using snoc.IH [OF u(1)] snoc.prems by auto
  have "rp_typed s"
  proof (cases e)
    case (Call m a)
    with u obtain r where "rp_service m a u = Some (s, r)" by auto
    moreover have "is_c_int (int (rp_idx u))" using ih(3) snoc.prems(3) by (simp add: is_c_int_def INT_MIN_def)
    moreover have "rq_ok a" using Call snoc.prems(2) by simp
    ultimately show ?thesis using rp_typed_call [OF ih(1)] by blast
  next
    case (Run t)
    then show ?thesis using rp_typed_thread [OF ih(2,1)] u(2) by simp
  qed
  moreover have "rp_inv s" by (rule rp.inv_exec [OF ih(2) u(2)])
  ultimately show ?case using rp_idx_step [OF u(2)] ih(3) by simp
qed

text \<open>What is sent and answered fits the fields of the structure in every such state.\<close>

text \<open>A state of the producer/consumer server whose answers fit the fields of the structure.\<close>

definition rp_fits :: "rp_sys \<Rightarrow> bool" where
  "rp_fits s \<longleftrightarrow> rq_ok (rp_static s) \<and> is_c_int (int (rp_idx s)) \<and> (\<forall>i. is_c_char (rp_result s i))"

lemma rp_service_fits:
  "rp_service m a s = Some (t, Some r) \<Longrightarrow> rp_fits s \<Longrightarrow> rq_ok a \<Longrightarrow> rq_ok r"
  by (auto simp: rp_service_def rp_fits_def rq_ok_def Let_def is_c_char_def split: if_splits)

lemma service_1_delivered:
  assumes "xdr_ok X" and "rq_ok a" and "rp_fits s"
  shows "service_1 X (network (prodcons_dispatch X m io_ok) [(Some, Delivered)]) a s = rp_service m a s"
  unfolding service_1_def
  by (rule delivered_call, rule prodcons_server, rule rq_round_trip [OF assms(1,2)])
    (rule rq_round_trip [OF assms(1) rp_service_fits [OF _ assms(3,2)]])


subsection \<open>Starting the servers\<close>

text \<open>
  The port mapper knows one service for a program, version and protocol. Registering fails or not
  (\<open>udp_ok\<close>, \<open>tcp_ok\<close>: creating the transport and registering it); the flag of the result says whether the
  server reached \<^verbatim>\<open>svc_run\<close>. Every way out of \<^verbatim>\<open>main\<close> is \<^verbatim>\<open>exit(1)\<close> and takes no registration back.
\<close>

datatype proto = UDP | TCP
datatype dispatcher = Bakery_prog | Prodcons_prog | Calculator_prog

type_synonym portmap = "nat \<times> nat \<times> proto \<rightharpoonup> dispatcher"

definition BAKERY_PROG :: nat where "BAKERY_PROG = 0x20000001"
definition BAKERY_VER :: nat where "BAKERY_VER = 1"
definition PRODCONS_PROG :: nat where "PRODCONS_PROG = 0x20000001"
definition PRODCONS_VERS :: nat where "PRODCONS_VERS = 1"
definition CALCULATOR_PROG :: nat where "CALCULATOR_PROG = 0x20000001"
definition CALCULATOR_VER :: nat where "CALCULATOR_VER = 1"

lemmas prog_defs = BAKERY_PROG_def BAKERY_VER_def PRODCONS_PROG_def PRODCONS_VERS_def
  CALCULATOR_PROG_def CALCULATOR_VER_def

definition pmap_unset :: "nat \<Rightarrow> nat \<Rightarrow> portmap \<Rightarrow> portmap" where
  "pmap_unset prog vers pm = pm((prog, vers, UDP) := None, (prog, vers, TCP) := None)"

definition bakery_main :: "bool \<Rightarrow> bool \<Rightarrow> portmap \<Rightarrow> bool \<times> portmap" where
  "bakery_main udp_ok tcp_ok pm =
     (let pm1 = pmap_unset BAKERY_PROG BAKERY_VER pm;
          pm2 = pm1((BAKERY_PROG, BAKERY_VER, UDP) \<mapsto> Bakery_prog);
          pm3 = pm2((BAKERY_PROG, BAKERY_VER, TCP) \<mapsto> Bakery_prog) in
      if \<not> udp_ok then (False, pm1) else if \<not> tcp_ok then (False, pm2) else (True, pm3))"

definition calculator_main :: "bool \<Rightarrow> bool \<Rightarrow> portmap \<Rightarrow> bool \<times> portmap" where
  "calculator_main udp_ok tcp_ok pm =
     (let pm1 = pmap_unset CALCULATOR_PROG CALCULATOR_VER pm;
          pm2 = pm1((CALCULATOR_PROG, CALCULATOR_VER, UDP) \<mapsto> Calculator_prog);
          pm3 = pm2((CALCULATOR_PROG, CALCULATOR_VER, TCP) \<mapsto> Calculator_prog) in
      if \<not> udp_ok then (False, pm1) else if \<not> tcp_ok then (False, pm2) else (True, pm3))"

text \<open>This one also creates its semaphores (\<open>init_ok\<close>) before it serves.\<close>

definition prodcons_main :: "bool \<Rightarrow> bool \<Rightarrow> bool \<Rightarrow> portmap \<Rightarrow> bool \<times> portmap" where
  "prodcons_main udp_ok tcp_ok init_ok pm =
     (let pm1 = pmap_unset PRODCONS_PROG PRODCONS_VERS pm;
          pm2 = pm1((PRODCONS_PROG, PRODCONS_VERS, UDP) \<mapsto> Prodcons_prog);
          pm3 = pm2((PRODCONS_PROG, PRODCONS_VERS, TCP) \<mapsto> Prodcons_prog) in
      if \<not> udp_ok then (False, pm1) else if \<not> tcp_ok then (False, pm2)
      else if \<not> init_ok then (False, pm3) else (True, pm3))"


subsection \<open>Properties\<close>

definition req32 :: "int \<Rightarrow> int \<Rightarrow> int \<Rightarrow> 32 word bk_struct" where
  "req32 pid idx op = \<lparr>bq_pid = pid, bq_idx = idx, bq_op = op, bq_arg1 = 5, bq_arg2 = 3, bs_num = 0, bs_res = 0\<rparr>"

definition flt32 :: "32 word flt" where
  "flt32 = \<lparr>f_add = (+), f_sub = (-), f_mul = (*), f_div = (div), f_zero = 0, f_inf = 0x7F800000, f_eq = (=)\<rparr>"

lemma req32_ok: "is_c_int pid \<Longrightarrow> is_c_int idx \<Longrightarrow> is_c_int op \<Longrightarrow> bk_struct_ok (req32 pid idx op)"
  by (simp add: bk_struct_ok_def req32_def is_c_int_def INT_MIN_def INT_MAX_def)

text \<open>C12: what one side encodes the other decodes, whatever follows in the message, and whichever of the
  two ways to read the bakery's integers is taken; the requests take 28, 12 and 16 bytes.\<close>

theorem rpc_round_trip:
  assumes "xdr_ok X" and "bk_struct_ok b" and "rq_ok q" and "is_c_int (ca_op c)"
  shows "bk_get X room (bk_put X b @ rest) = Some (b, rest) \<and> length (bk_put X b) = 28 \<and>
    rq_get X (rq_put X q @ rest) = Some (q, rest) \<and> length (rq_put X q) = 12 \<and>
    ca_get X (ca_put X c @ rest) = Some (c, rest) \<and> length (ca_put X c) = 16"
  using bk_round [OF assms(1,2)] rq_round [OF assms(1,3)] ca_round [OF assms(1,4)]
    bk_get_length [OF assms(1) bk_round_trip [OF assms(1,2)]]
    rq_get_length [OF assms(1) rq_round_trip [OF assms(1,3)]]
    ca_get_length [OF assms(1) ca_round_trip [OF assms(1,4)]] by simp

theorem rpc_round_trip_witness:
  "bk_get xdr32 True (bk_put xdr32 (req32 70 3 2)) = Some (req32 70 3 2, []) \<and>
     length (rq_put xdr32 \<lparr>rq_idx = - 1, rq_type = 112, rq_result = 45\<rparr>) = 12"
  using rpc_round_trip [OF xdr32_ok, of "req32 70 3 2" "\<lparr>rq_idx = - 1, rq_type = 112, rq_result = 45\<rparr>"
      "\<lparr>ca_op = 0, ca_arg1 = 0, ca_arg2 = 0, cs_result = 0\<rparr>" True "[]"]
  by (simp add: req32_ok rq_ok_def is_c_char_def is_c_int_def INT_MIN_def INT_MAX_def)

text \<open>C11: a call that is delivered and answered is the local procedure: it has the same effect on the
  server and hands the client the same result.\<close>

theorem rpc_transparent:
  assumes "xdr_ok X" and "bk_struct_ok b" and "rq_ok q" and "rp_fits p"
    and "is_c_int (ca_op c)" and "is_c_int (ca_op k)"
  shows "get_number_1 X (network (bakery_dispatch X room F io_ok) [(Some, Delivered)]) b s = get_number_svc b s \<and>
    bakery_service_1 X (network (bakery_dispatch X room F io_ok) [(Some, Delivered)]) b s = bakery_service_svc F b s \<and>
    service_1 X (network (prodcons_dispatch X m io_ok) [(Some, Delivered)]) q p = rp_service m q p \<and>
    calculator_proc_1 X (network (calculator_dispatch X F io_ok) [(Some, Delivered)]) c k = calculator_svc F c k"
  using get_number_1_delivered [OF assms(1,2)] bakery_service_1_delivered [OF assms(1,2)]
    service_1_delivered [OF assms(1,3,4)] calculator_proc_1_delivered [OF assms(1,5,6)] by simp

lemma rp_init_fits: "rp_fits rp_init"
  by (simp add: rp_fits_def rp_init_eq rp_start_def rq_ok_def is_c_char_def is_c_int_def INT_MIN_def INT_MAX_def)

theorem rpc_transparent_witness:
  "calculator_proc_1 xdr32 (network (calculator_dispatch xdr32 flt32 io_ok) [(Some, Delivered)])
     \<lparr>ca_op = 2, ca_arg1 = 6, ca_arg2 = 7, cs_result = 0\<rparr> \<lparr>ca_op = 0, ca_arg1 = 0, ca_arg2 = 0, cs_result = 0\<rparr> =
     Some (\<lparr>ca_op = 0, ca_arg1 = 0, ca_arg2 = 0, cs_result = 42\<rparr>,
       Some \<lparr>ca_op = 0, ca_arg1 = 0, ca_arg2 = 0, cs_result = 42\<rparr>)"
  using rpc_transparent [OF xdr32_ok req32_ok, of 70 3 2 "\<lparr>rq_idx = - 1, rq_type = 112, rq_result = 45\<rparr>" rp_init
      "\<lparr>ca_op = 2, ca_arg1 = 6, ca_arg2 = 7, cs_result = 0\<rparr>" "\<lparr>ca_op = 0, ca_arg1 = 0, ca_arg2 = 0, cs_result = 0\<rparr>"
      True flt32] rp_init_fits
  by (simp add: rq_ok_def is_c_char_def is_c_int_def INT_MIN_def INT_MAX_def calculator_svc_def flt32_def
      calculator_proc_def op_codes calc_request.defs Let_def)

text \<open>C38: A procedure number that a server does not have and an argument that ends early are answered
  with an error, and the procedure is not run.\<close>

theorem rpc_errors:
  assumes "xdr_ok X"
  shows "(2 < n \<longrightarrow> bakery_dispatch X room F io n bs s = Some (s, NoProc, True)) \<and>
    (n \<in> {1, 2} \<and> length bs < 28 \<longrightarrow> bakery_dispatch X room F io n bs s = Some (s, DecodeError, True)) \<and>
    (1 < n \<longrightarrow> prodcons_dispatch X m io n bs p = Some (p, NoProc, True)) \<and>
    (length bs < 12 \<longrightarrow> prodcons_dispatch X m io 1 bs p = Some (p, DecodeError, True)) \<and>
    (1 < n \<longrightarrow> calculator_dispatch X F io n bs c = Some (c, NoProc, True)) \<and>
    (length bs < 16 \<longrightarrow> calculator_dispatch X F io 1 bs c = Some (c, DecodeError, True))"
  using get_short [OF assms, of bs]
  by (auto simp: bakery_dispatch_def prodcons_dispatch_def calculator_dispatch_def svc_call_def
      NULLPROC_def GET_NUMBER_def BAKERY_SERVICE_def SERVICE_def CALCULATOR_PROC_def)

theorem rpc_errors_witness:
  "bakery_dispatch xdr32 True flt32 io_ok 3 [] (bk_start flt32) = Some (bk_start flt32, NoProc, True) \<and>
     bakery_dispatch xdr32 True flt32 io_ok 2 [0, 1, 2] (bk_start flt32) = Some (bk_start flt32, DecodeError, True)"
  using rpc_errors [OF xdr32_ok, where n = 3 and room = True and F = flt32 and io = io_ok and bs = "[]"
      and s = "bk_start flt32"]
    rpc_errors [OF xdr32_ok, where n = 2 and room = True and F = flt32 and io = io_ok and bs = "[0, 1, 2]"
      and s = "bk_start flt32"] by simp

text \<open>Two clients that call a fresh server get the numbers 1 and 2.\<close>

lemma max_from_le: "res \<le> b \<Longrightarrow> \<forall>n \<in> set ns. n \<le> b \<Longrightarrow> max_from res ns \<le> b"
  by (induction ns arbitrary: res) auto

lemma get_number_small:
  assumes "bk_inv s" and "bk_index_ok r" and "\<forall>n \<in> set (numbers s). n \<le> b" and "b < 1000"
  shows "\<exists>t n. get_number r s = Some (t, n) \<and> n \<le> b + 1"
proof -
  have len: "length (numbers s) = 128" using assms(1) by (simp add: bk_inv_def)
  then obtain m ns where ns: "numbers s = m # ns" by (cases "numbers s") auto
  then have "max_number s \<le> b" using assms(3) max_from_le by (simp add: max_number_def)
  moreover have "0 \<le> numbers s ! 0" using assms(1) len by (simp add: bk_inv_def)
  with max_number_ge [OF len, of 0] have "0 \<le> max_number s" by simp
  ultimately show ?thesis using assms(2,4)
    by (simp add: get_number_def Let_def max_number_def is_c_int_def INT_MIN_def INT_MAX_def)
qed

lemma two_numbers:
  assumes "bk_index_ok r" and "bk_index_ok q"
  shows "\<exists>s n t m. get_number r (bk_start F) = Some (s, n) \<and> get_number q s = Some (t, m)"
proof -
  have inv: "bk_inv (bk_start F)" by (rule bk.inv_start)
  have "\<forall>n \<in> set (numbers (bk_start F)). n \<le> 0" by (simp add: bk_start_def)
  then obtain s n where s: "get_number r (bk_start F) = Some (s, n)" "n \<le> 1"
    using get_number_small [OF inv assms(1), of 0] by auto
  note eff = get_number_effect [OF inv s(1)]
  have "\<forall>n \<in> set (numbers s). n \<le> 1"
    unfolding eff(2) using s(2) by (intro all_nth_update) (auto simp: bk_start_def)
  then show ?thesis using get_number_small [OF eff(1) assms(2), of 1] s(1) by auto
qed

lemma get_number_1_lost:
  assumes "xdr_ok X" and "bk_struct_ok a"
    and "get_number_1 X (network (bakery_dispatch X room F io_ok) [(Some, ReplyLost)]) a s = Some (t, p)"
  shows "p = None \<and> (\<exists>n. get_number (bk_request.truncate a) s = Some (t, n))"
proof (cases "get_number_svc a s")
  case None
  then show ?thesis using assms(3) bk_round_trip [OF assms(1,2)]
    by (simp add: get_number_1_def clnt_stub_def bakery_server svc_call_def)
next
  case (Some q)
  then obtain u r where u: "get_number_svc a s = Some (u, r)" by (cases q) auto
  have "get_number_1 X (network (bakery_dispatch X room F io_ok) [(Some, ReplyLost)]) a s = Some (u, None)"
    by (simp add: get_number_1_resent [OF assms(1,2) u] no_more_calls)
  with assms(3) u show ?thesis by (auto simp: get_number_svc_def)
qed

text \<open>When the answer to \<^verbatim>\<open>get_number\<close> is lost and the client's time is up, the number it does not know
  stays with the server: whoever takes a number after that is refused as long as this client
  does not call again.\<close>

theorem lost_number_blocks:
  assumes "xdr_ok X" and "bk_struct_ok a" and "reach (bk_exec F) (bk_start F) s"
    and "get_number_1 X (network (bakery_dispatch X room F io_ok) [(Some, ReplyLost)]) a s = Some (t, p)"
    and "get_number r t = Some (u, n)" and "nat (bq_idx a) \<noteq> nat (bq_idx r)"
    and "run (bk_exec F) u es = Some v"
    and "\<forall>e \<in> set es. bk_event_idx e \<noteq> nat (bq_idx a) \<and> \<not> (is_get e \<and> bk_event_idx e = nat (bq_idx r))"
    and "nat (bq_idx q) = nat (bq_idx r)" and "bakery_service F q v = Some (w, served)"
  shows "p = None \<and> \<not> served"
proof -
  obtain m where p: "p = None" and m: "get_number (bk_request.truncate a) s = Some (t, m)"
    using get_number_1_lost [OF assms(1,2,4)] by auto
  have idx: "nat (bq_idx (bk_request.truncate a)) = nat (bq_idx a)" by (simp add: bk_request.defs)
  have inv: "bk_inv s" by (rule bk.reach_inv [OF assms(3)])
  note eff = get_number_effect [OF inv m, unfolded idx]
  have len: "length (numbers s) = 128" using inv by (simp add: bk_inv_def)
  then have "0 \<le> numbers s ! 0" using inv by (simp add: bk_inv_def)
  then have "numbers t ! nat (bq_idx a) \<noteq> 0" using eff(3) [of 0] eff(2,5) len by simp
  moreover have "bk_exec F s (GetNumber (bk_request.truncate a)) = Some t" using m by simp
  with assms(3) have "reach (bk_exec F) (bk_start F) t" by (rule reach.reach_step)
  moreover have "nat (bq_idx a) \<notin> set (bk_served F u es)" using bk_served_idx assms(8) by blast
  moreover have "\<forall>e \<in> set es. is_get e \<longrightarrow> bk_event_idx e \<noteq> nat (bq_idx a) \<and> bk_event_idx e \<noteq> nat (bq_idx r)"
    using assms(8) by blast
  ultimately show ?thesis using bk_behind [OF _ assms(5) eff(5) _ assms(6,7) _ _ assms(9,10)] p by blast
qed

theorem lost_number_blocks_witness:
  "\<exists>t u n w served. get_number_1 xdr32 (network (bakery_dispatch xdr32 True flt32 io_ok) [(Some, ReplyLost)])
       (req32 70 3 2) (bk_start flt32) = Some (t, None) \<and>
     get_number (bk_request.truncate (req32 71 4 2)) t = Some (u, n) \<and>
     bakery_service flt32 (bk_request.truncate (req32 71 4 2)) u = Some (w, served) \<and> \<not> served"
proof -
  let ?a = "req32 70 3 2" and ?q = "bk_request.truncate (req32 71 4 2)"
  have ok: "bk_struct_ok ?a" by (simp add: req32_ok is_c_int_def INT_MIN_def INT_MAX_def)
  have "bk_index_ok (bk_request.truncate ?a)" "bk_index_ok ?q"
    by (simp_all add: bk_index_ok_def req32_def bk_request.defs MAX_CLNT_CNT_def)
  from two_numbers [OF this] obtain t n u m where t: "get_number (bk_request.truncate ?a) (bk_start flt32) = Some (t, n)"
    and u: "get_number ?q t = Some (u, m)" by blast
  obtain w served where w: "bakery_service flt32 ?q u = Some (w, served)"
    using bakery_service_total [OF \<open>bk_index_ok ?q\<close>, of flt32 u] by auto
  have "get_number_svc ?a (bk_start flt32) = Some (t, Some n)" using t by (simp add: get_number_svc_def)
  then have lost: "get_number_1 xdr32 (network (bakery_dispatch xdr32 True flt32 io_ok) [(Some, ReplyLost)])
      ?a (bk_start flt32) = Some (t, None)"
    by (simp add: get_number_1_resent [OF xdr32_ok ok] no_more_calls)
  have "\<not> served"
    using lost_number_blocks [OF xdr32_ok ok bk_fresh_state lost u, of "[]" u ?q w served] w
    by (simp add: req32_def bk_request.defs)
  with lost u w show ?thesis by blast
qed

text \<open>A call that the bakery served is served again with the same result when its answer was lost and
  it is sent again later, whatever the others have done in between: holding no number, the client now goes before
  everybody.\<close>

theorem retry_served:
  assumes "xdr_ok X" and "bk_struct_ok a" and "reach (bk_exec F) (bk_start F) s"
    and "bakery_service F (bk_request.truncate a) s = Some (t, True)"
    and "bq_op a \<in> {ADD, SUB, MUL} \<or> bq_op a = DIV \<and> \<not> f_eq F (bq_arg2 a) (f_zero F)"
    and "run (bk_exec F) t es = Some u" and "\<forall>e \<in> set es. \<not> (is_get e \<and> bk_event_idx e = nat (bq_idx a))"
  shows "\<exists>v. bakery_service_1 X (network (bakery_dispatch X room F io_ok)
      [(Some, ReplyLost), (\<lambda>s. run (bk_exec F) s es, Delivered)]) a s = Some (v, Some (bk_result t))"
proof -
  let ?r = "bk_request.truncate a"
  have idx: "bq_idx ?r = bq_idx a" by (simp add: bk_request.defs)
  have inv: "bk_inv s" by (rule bk.reach_inv [OF assms(3)])
  note eff = bakery_service_effect [OF assms(4), unfolded idx]
  have ok: "bk_index_ok ?r" using assms(4) by (auto simp: bakery_service_def split: if_splits)
  have "bk_exec F s (Service ?r) = Some t" using assms(4) by simp
  then have "bk_inv t" by (rule bk.inv_exec [OF inv])
  moreover have "numbers t ! nat (bq_idx a) = 0" using eff(1,6) inv by (simp add: bk_inv_def)
  ultimately have u: "bk_inv u \<and> numbers u ! nat (bq_idx a) = 0" using bk_zero_kept [OF assms(6)] assms(7) by blast
  obtain v served where v: "bakery_service F ?r u = Some (v, served)"
    using bakery_service_total [OF ok, of F u] by auto
  have served using bk_zero_served [of u ?r F] u ok v idx by simp
  have "bk_compute F x ?r = bk_compute F y ?r" for x y
    using assms(5) by (auto simp: bk_compute_def bk_request.defs)
  then have "bk_result v = bk_result t"
    using bakery_service_effect(5) [OF v] \<open>served\<close> eff(5) by metis
  moreover have sent: "bakery_service_svc F a s = Some (t, Some (bk_result t))"
    using assms(4) by (simp add: bakery_service_svc_def)
  moreover have "bakery_service_svc F a u = Some (v, Some (bk_result v))"
    using v by (simp add: bakery_service_svc_def)
  ultimately show ?thesis
    unfolding bakery_service_1_resent [OF assms(1,2) sent]
      bakery_others_first [where others = "\<lambda>s. run (bk_exec F) s es", OF assms(6)]
      bakery_service_1_delivered [OF assms(1,2)] by metis
qed

theorem retry_served_witness:
  "\<exists>t v. bakery_service flt32 (bk_request.truncate (req32 70 3 2)) (bk_start flt32) = Some (t, True) \<and>
     bakery_service_1 xdr32 (network (bakery_dispatch xdr32 True flt32 io_ok)
      [(Some, ReplyLost), (\<lambda>s. run (bk_exec flt32) s [], Delivered)]) (req32 70 3 2) (bk_start flt32) = Some (v, Some 15)"
proof -
  let ?a = "req32 70 3 2"
  have ok: "bk_struct_ok ?a" by (simp add: req32_ok is_c_int_def INT_MIN_def INT_MAX_def)
  have ix: "bk_index_ok (bk_request.truncate ?a)"
    by (simp add: bk_index_ok_def req32_def bk_request.defs MAX_CLNT_CNT_def)
  have "numbers (bk_start flt32) ! nat (bq_idx (bk_request.truncate ?a)) = 0"
    by (simp add: bk_start_def req32_def bk_request.defs MAX_CLNT_CNT_def)
  from bk_zero_served [OF bk.inv_start ix this, of flt32]
  obtain t where t: "bakery_service flt32 (bk_request.truncate ?a) (bk_start flt32) = Some (t, True)" by force
  have "bk_result t = 15"
    using bakery_service_effect(5) [OF t]
    by (simp add: bk_compute_def op_codes req32_def bk_request.defs flt32_def)
  moreover have "bq_op ?a \<in> {ADD, SUB, MUL} \<or> bq_op ?a = DIV \<and> \<not> f_eq flt32 (bq_arg2 ?a) (f_zero flt32)"
    by (simp add: req32_def op_codes)
  ultimately show ?thesis
    using retry_served [OF xdr32_ok ok bk_fresh_state t, of "[]" t True] t by simp
qed

text \<open>A first call of a producer or consumer whose answer is lost and which is sent again connects the
  client twice: the server starts two threads, and the client learns of the second only.\<close>

theorem retry_connects_twice:
  assumes "xdr_ok X" and "rq_ok q" and "rp_fits s" and "is_c_int (int (rp_idx s) + 1)"
    and "rq_idx q < 0" and "rq_type q \<in> {PRODUCER, CONSUMER}"
  shows "\<exists>t r. service_1 X (network (prodcons_dispatch X True io_ok) [(Some, ReplyLost), (Some, Delivered)]) q s =
      Some (t, Some r) \<and> rq_idx r = int (rp_idx s) + 1 \<and> rp_idx t = rp_idx s + 2 \<and>
      rp_phase t (rp_idx s) = TLock \<and> rp_phase t (rp_idx s + 1) = TLock"
proof -
  have once: "\<exists>t r. rp_service True q s = Some (t, Some r) \<and> rp_fits t \<and> rp_idx t = Suc (rp_idx s) \<and>
      rq_idx r = int (rp_idx s) \<and> rp_phase t = (rp_phase s)(rp_idx s := TLock)"
    if "rp_fits s" "is_c_int (int (rp_idx s) + 1)" for s
    using that assms(5,6)
    by (auto simp: rp_service_def Let_def rp_fits_def rq_ok_def is_c_char_def rp_goto_def add.commute)
  obtain t r where t: "rp_service True q s = Some (t, Some r)" "rp_fits t" "rp_idx t = Suc (rp_idx s)"
    "rp_phase t = (rp_phase s)(rp_idx s := TLock)"
    using once [OF assms(3,4)] by blast
  have "service_1 X (network (prodcons_dispatch X True io_ok) [(Some, ReplyLost), (Some, Delivered)]) q s =
      rp_service True q t"
    unfolding service_1_delivered [OF assms(1,2) t(2), symmetric] unfolding service_1_def
    by (rule lost_answer, rule prodcons_server, rule rq_round_trip [OF assms(1,2)], rule t(1))
  moreover have "\<exists>u r. rp_service True q t = Some (u, Some r) \<and> rp_idx u = Suc (rp_idx t) \<and>
      rq_idx r = int (rp_idx t) \<and> rp_phase u = (rp_phase t)(rp_idx t := TLock)"
    using assms(5,6) by (auto simp: rp_service_def Let_def rp_goto_def)
  ultimately show ?thesis using t(3,4) by auto
qed

theorem retry_connects_twice_witness:
  "\<exists>t r. service_1 xdr32 (network (prodcons_dispatch xdr32 True io_ok) [(Some, ReplyLost), (Some, Delivered)])
      \<lparr>rq_idx = - 1, rq_type = PRODUCER, rq_result = 45\<rparr> rp_init = Some (t, Some r) \<and> rq_idx r = 1 \<and> rp_idx t = 2"
  using retry_connects_twice [OF xdr32_ok, of "\<lparr>rq_idx = - 1, rq_type = PRODUCER, rq_result = 45\<rparr>" rp_init]
    rp_init_fits
  by (auto simp: rq_ok_def is_c_char_def is_c_int_def INT_MIN_def INT_MAX_def PRODUCER_def rp_init_eq rp_start_def)

lemma calculator_reads_bakery:
  assumes "xdr_ok X" and "is_c_int (bq_pid b)"
  shows "\<exists>c rest. ca_get X (bk_put X b) = Some (c, rest)"
proof -
  let ?r = "put_int X (bq_idx b) @ put_int X (bs_num b) @ put_int X (bq_op b) @
     put_float X (bq_arg1 b) @ put_float X (bq_arg2 b) @ put_float X (bs_res b)"
  have len: "length ?r = 24" by (simp add: xdr_laws(5) [OF assms(1)] put_float_length [OF assms(1)])
  note total = get_float_total [OF assms(1)]
  obtain f1 r1 where 1: "get_float X ?r = Some (f1, r1)" "length r1 = 20" using total [of ?r] len by auto
  obtain f2 r2 where 2: "get_float X r1 = Some (f2, r2)" "length r2 = 16" using total [of r1] 1(2) by auto
  obtain f3 r3 where 3: "get_float X r2 = Some (f3, r3)" using total [of r2] 2(2) by auto
  show ?thesis
    using 1(1) 2(1) 3 by (simp add: ca_get_def bk_put_def xdr_laws(1) [OF assms])
qed

text \<open>The three services share one program number: starting a server takes the registration of
  another away, even when the start fails. A client of the calculator then gets no result from the bakery; a
  client of the bakery gets the operation field of the calculator's static structure as its number, and no service.\<close>

theorem later_server_displaces:
  assumes "xdr_ok X" and "is_c_int (bq_pid b)" and "is_c_int (ca_op k)"
  shows "snd (bakery_main True True (snd (calculator_main True True pm))) (CALCULATOR_PROG, CALCULATOR_VER, UDP) =
      Some Bakery_prog \<and>
    snd (bakery_main False tcp_ok (snd (calculator_main True True pm))) (CALCULATOR_PROG, CALCULATOR_VER, UDP) = None \<and>
    calculator_proc_1 X (network (bakery_dispatch X room F io_ok) [(Some, Delivered)]) c s = Some (s, None) \<and>
    snd (calculator_main True True (snd (bakery_main True True pm))) (BAKERY_PROG, BAKERY_VER, UDP) =
      Some Calculator_prog \<and>
    (\<exists>t. get_number_1 X (network (calculator_dispatch X F io_ok) [(Some, Delivered)]) b k = Some (t, Some (ca_op k))) \<and>
    bakery_service_1 X (network (calculator_dispatch X F io_ok) [(Some, Delivered)]) b k = Some (k, None)"
proof (intro conjI)
  have "length (ca_put X c) = 16"
    by (simp add: ca_put_def xdr_laws(5) [OF assms(1)] put_float_length [OF assms(1)])
  then show "calculator_proc_1 X (network (bakery_dispatch X room F io_ok) [(Some, Delivered)]) c s = Some (s, None)"
    by (simp add: calculator_proc_1_def clnt_stub_def bakery_dispatch_def svc_call_def get_short(1) [OF assms(1)]
        CALCULATOR_PROC_def NULLPROC_def GET_NUMBER_def)
  obtain d rest where "ca_get X (bk_put X b) = Some (d, rest)"
    using calculator_reads_bakery [OF assms(1,2)] by blast
  then show "\<exists>t. get_number_1 X (network (calculator_dispatch X F io_ok) [(Some, Delivered)]) b k =
      Some (t, Some (ca_op k))"
    by (simp add: get_number_1_def clnt_stub_def calculator_dispatch_def svc_call_def calculator_svc_def Let_def
        CALCULATOR_PROC_def NULLPROC_def GET_NUMBER_def io_ok_def ca_put_def xdr_laws(1) [OF assms(1,3)])
  show "bakery_service_1 X (network (calculator_dispatch X F io_ok) [(Some, Delivered)]) b k = Some (k, None)"
    by (simp add: bakery_service_1_def clnt_stub_def calculator_dispatch_def CALCULATOR_PROC_def NULLPROC_def
        BAKERY_SERVICE_def)
qed (simp_all add: bakery_main_def calculator_main_def pmap_unset_def prog_defs Let_def)

theorem later_server_displaces_witness:
  "\<exists>t. get_number_1 xdr32 (network (calculator_dispatch xdr32 flt32 io_ok) [(Some, Delivered)]) (req32 70 3 2)
     \<lparr>ca_op = 0, ca_arg1 = 0, ca_arg2 = 0, cs_result = 0\<rparr> = Some (t, Some 0)"
  using later_server_displaces [OF xdr32_ok, of "req32 70 3 2" "\<lparr>ca_op = 0, ca_arg1 = 0, ca_arg2 = 0, cs_result = 0\<rparr>"]
  by (simp add: req32_def is_c_int_def INT_MIN_def INT_MAX_def)

text \<open>As long as the clients send well-typed requests, every cell of the arrays, the static structure and every
  character held by a thread keeps to its C type, and so does every answer.\<close>

theorem rp_state_types:
  assumes "run rp_exec rp_init es = Some s" and "\<forall>m a. Call m a \<in> set es \<longrightarrow> rq_ok a"
    and "int (length es) \<le> INT_MAX"
  shows "rp_typed s \<and> rp_fits s \<and> (rq_ok q \<and> rp_service m q s = Some (t, Some r) \<longrightarrow> rq_ok r)"
proof -
  note r = rp_typed_run [OF assms]
  then have "is_c_int (int (rp_idx s))" using assms(3) by (simp add: is_c_int_def INT_MIN_def)
  with r have "rp_fits s" by (simp add: rp_fits_def rp_typed_def)
  with r rp_service_fits show ?thesis by blast
qed

theorem rp_state_types_witness:
  "\<exists>s. run rp_exec rp_init [Call True \<lparr>rq_idx = - 1, rq_type = PRODUCER, rq_result = 45\<rparr>,
       Call True \<lparr>rq_idx = 0, rq_type = PRODUCER, rq_result = 45\<rparr>] = Some s \<and> rp_typed s"
proof -
  let ?es = "[Call True \<lparr>rq_idx = - 1, rq_type = PRODUCER, rq_result = 45\<rparr>,
       Call True \<lparr>rq_idx = 0, rq_type = PRODUCER, rq_result = 45\<rparr>]"
  obtain s where s: "run rp_exec rp_init ?es = Some s"
    by (simp add: rp_init_eq rp_start_def rp_service_def Let_def rp_goto_def MAX_CNT_CLNT_def PRODUCER_def
        CONSUMER_def is_lower_def)
  have "rp_typed s"
    using rp_state_types [OF s] by (simp add: rq_ok_def is_c_char_def is_c_int_def INT_MIN_def INT_MAX_def PRODUCER_def)
  with s show ?thesis by blast
qed

end
