(* ===== verification/Rpc_Clients.thy ===== *)
theory Rpc_Clients
  imports Rpc_Transport
begin

section \<open>The client programs of the bakery and the calculator\<close>

text \<open>
  Models of bakery\_client.c and calculator\_client.c, running against the servers through the stubs of
  Rpc\_Transport: the ten client processes of the bakery and the dialogue of the calculator. A transmission of
  a request is one event with its fate, so that the calls of the clients interleave and requests are
  sent again. Printing and sleeping are left out.
\<close>

subsection \<open>The requests of the bakery's clients\<close>

definition CLNT_CNT :: nat where "CLNT_CNT = 10"
definition RAND_MAX :: int where "RAND_MAX = 2147483647"

text \<open>Conversions between numbers: to \<^verbatim>\<open>float\<close>, to \<^verbatim>\<open>int\<close>, and a number of tenths.\<close>

record 'f conv =
  of_c_int :: "int \<Rightarrow> 'f"
  to_c_int :: "'f \<Rightarrow> int"
  tenths :: "int \<Rightarrow> 'f"

definition random_arg :: "'f flt \<Rightarrow> 'f conv \<Rightarrow> int \<Rightarrow> 'f" where
  "random_arg F C r =
     (let x = f_div F (of_c_int C r) (of_c_int C RAND_MAX);
          y = f_sub F (f_mul F x (of_c_int C 200)) (of_c_int C 100)
      in tenths C (to_c_int C (f_mul F y (of_c_int C 10))))"

text \<open>
  \<^verbatim>\<open>create_req\<close> with the three numbers that \<^verbatim>\<open>rand\<close> returns; the other fields keep what they hold, and
  what \<^verbatim>\<open>bakery_prog_1\<close> sets before. \<^verbatim>\<open>num\<close> and \<^verbatim>\<open>res\<close> have no value yet.
\<close>

definition create_req :: "'f flt \<Rightarrow> 'f conv \<Rightarrow> int \<times> int \<times> int \<Rightarrow> 'f bk_struct \<Rightarrow> 'f bk_struct" where
  "create_req F C rs r =
     (case rs of (r1, r2, r3) \<Rightarrow>
        r\<lparr>bq_arg1 := random_arg F C r1, bq_arg2 := random_arg F C r2, bq_op := c_rem r3 4\<rparr>)"

definition bc_request ::
  "'f flt \<Rightarrow> 'f conv \<Rightarrow> int \<times> int \<times> int \<Rightarrow> int \<Rightarrow> nat \<Rightarrow> 'f bk_struct \<Rightarrow> 'f bk_struct" where
  "bc_request F C rs pid i junk = create_req F C rs (junk\<lparr>bq_pid := pid, bq_idx := int i\<rparr>)"

definition bc_requests_ok :: "(nat \<Rightarrow> 'f bk_struct) \<Rightarrow> bool" where
  "bc_requests_ok reqs \<longleftrightarrow> (\<forall>i < CLNT_CNT. bk_struct_ok (reqs i) \<and> bq_idx (reqs i) = int i \<and> bq_op (reqs i) \<in> {0..3})"

lemma bc_requests_created:
  assumes "\<forall>i. is_c_int (pid i) \<and> is_c_int (bs_num (junk i)) \<and> 0 \<le> snd (snd (rs i))"
  shows "bc_requests_ok (\<lambda>i. bc_request F C (rs i) (pid i) i (junk i))"
proof -
  have "0 \<le> c_rem (snd (snd (rs i))) 4 \<and> c_rem (snd (snd (rs i))) 4 \<le> 3" for i
    using assms by (simp add: c_rem_nonneg)
  moreover have "is_c_int x" if "0 \<le> x \<and> x \<le> 3" for x using that by (simp add: is_c_int_def INT_MIN_def INT_MAX_def)
  moreover have "is_c_int (int i)" if "i < CLNT_CNT" for i
    using that by (simp add: is_c_int_def INT_MIN_def INT_MAX_def CLNT_CNT_def)
  ultimately show ?thesis using assms
    by (simp add: bc_requests_ok_def bc_request_def create_req_def bk_struct_ok_def case_prod_beta)
qed


subsection \<open>The ten client processes\<close>

text \<open>
  The statements of \<^verbatim>\<open>bakery_prog_1\<close> at which a process can be: the creation of the client handle, the setting of the
  time-out, the call of \<^verbatim>\<open>get_number\<close>, the polling with its number and its attempts. It ends with
  \<^verbatim>\<open>exit\<close>, with the answer that it prints, or on the null pointer of a failed call, which it dereferences.
\<close>

datatype 'f bc_phase =
    BcNone | BcCreate | BcControl | BcNumber | BcPoll int nat | BcAnswer int 'f | BcExit int | BcCrash

datatype bc_parent = ParFork nat | ParWait nat | ParExit int

record 'f bc_sys =
  bc_server :: "'f bk_state"
  bc_phase :: "nat \<Rightarrow> 'f bc_phase"
  bc_parent :: bc_parent

datatype bc_event = BcFork bool | BcWait | BcStep nat bool | BcSend nat delivery | BcTimeUp nat

definition bc_goto :: "nat \<Rightarrow> 'f bc_phase \<Rightarrow> 'f bc_sys \<Rightarrow> 'f bc_sys" where
  "bc_goto i ph s = s\<lparr>bc_phase := (bc_phase s)(i := ph)\<rparr>"

fun bc_ended :: "'f bc_phase \<Rightarrow> bool" where
  "bc_ended (BcAnswer _ _) = True"
| "bc_ended (BcExit _) = True"
| "bc_ended BcCrash = True"
| "bc_ended _ = False"

definition bc_polled :: "'f flt \<Rightarrow> int \<Rightarrow> nat \<Rightarrow> 'f \<Rightarrow> 'f bc_phase" where
  "bc_polled F n at v =
     (if f_eq F v (f_inf F) then
        (if at + 1 < ATTEMPTS then BcPoll n (at + 1) else BcAnswer n v)
      else BcAnswer n v)"

fun bc_exec :: "'f xdr \<Rightarrow> bool \<Rightarrow> 'f flt \<Rightarrow> (nat \<Rightarrow> 'f bk_struct) \<Rightarrow> 'f bc_sys \<Rightarrow> bc_event \<Rightarrow> 'f bc_sys option" where
  "bc_exec X room F reqs s (BcFork ok) =
     (case bc_parent s of
        ParFork i \<Rightarrow>
          Some (if ok then bc_goto i BcCreate (s\<lparr>bc_parent := (if i + 1 < CLNT_CNT then ParFork (i + 1) else ParWait 0)\<rparr>)
                else s\<lparr>bc_parent := ParExit 1\<rparr>)
      | _ \<Rightarrow> None)"
| "bc_exec X room F reqs s BcWait =
     (case bc_parent s of
        ParWait i \<Rightarrow>
          if i < CLNT_CNT then
            (if bc_ended (bc_phase s i) then Some (s\<lparr>bc_parent := ParWait (i + 1)\<rparr>) else None)
          else Some (s\<lparr>bc_parent := ParExit 0\<rparr>)
      | _ \<Rightarrow> None)"
| "bc_exec X room F reqs s (BcStep i ok) =
     (case bc_phase s i of
        BcCreate \<Rightarrow> Some (bc_goto i (if ok then BcControl else BcExit 1) s)
      | BcControl \<Rightarrow> Some (bc_goto i (if ok then BcNumber else BcExit 1) s)
      | _ \<Rightarrow> None)"
| "bc_exec X room F reqs s (BcSend i d) =
     (case bc_phase s i of
        BcNumber \<Rightarrow>
          (case get_number_1 X (network (bakery_dispatch X room F io_ok) [(Some, d)]) (reqs i) (bc_server s) of
             None \<Rightarrow> None
           | Some (t, None) \<Rightarrow> Some (s\<lparr>bc_server := t\<rparr>)
           | Some (t, Some n) \<Rightarrow> Some (bc_goto i (BcPoll n 0) (s\<lparr>bc_server := t\<rparr>)))
      | BcPoll n at \<Rightarrow>
          (case bakery_service_1 X (network (bakery_dispatch X room F io_ok) [(Some, d)])
              ((reqs i)\<lparr>bs_num := n\<rparr>) (bc_server s) of
             None \<Rightarrow> None
           | Some (t, None) \<Rightarrow> Some (s\<lparr>bc_server := t\<rparr>)
           | Some (t, Some v) \<Rightarrow> Some (bc_goto i (bc_polled F n at v) (s\<lparr>bc_server := t\<rparr>)))
      | _ \<Rightarrow> None)"
| "bc_exec X room F reqs s (BcTimeUp i) =
     (case bc_phase s i of
        BcNumber \<Rightarrow> Some (bc_goto i BcCrash s)
      | BcPoll n at \<Rightarrow> Some (bc_goto i BcCrash s)
      | _ \<Rightarrow> None)"

definition bc_start :: "'f flt \<Rightarrow> 'f bc_sys" where
  "bc_start F = \<lparr>bc_server = bk_start F, bc_phase = (\<lambda>_. BcNone), bc_parent = ParFork 0\<rparr>"


subsection \<open>One transmission\<close>

lemma bc_send_number:
  assumes "xdr_ok X" and "bk_struct_ok a"
    and "get_number_1 X (network (bakery_dispatch X room F io_ok) [(Some, d)]) a s = Some (t, p)"
  obtains (lost) "d = RequestLost" "t = s" "p = None"
  | (run) n where "d \<noteq> RequestLost" "get_number (bk_request.truncate a) s = Some (t, n)"
      "p = (if d = Delivered then Some n else None)"
proof -
  have r: "get_int X (put_int X x) = Some (x, [])" if "get_number_svc a s = Some (u, Some x)" for u x
    by (rule xdr_laws_end(3) [OF assms(1) get_number_svc_c_int [OF that]])
  show thesis
    by (rule one_transmission [where server = "bakery_dispatch X room F io_ok" and put = "bk_put X" and
        get = "bk_get X room" and a = a and proc = get_number_svc and put' = "put_int X", OF bakery_server(1) bk_round_trip [OF assms(1,2)] _ assms(3) [unfolded get_number_1_def]])
      (use r lost run in \<open>auto simp: get_number_svc_def\<close>)
qed

lemma bc_send_service:
  assumes "xdr_ok X" and "bk_struct_ok a"
    and "bakery_service_1 X (network (bakery_dispatch X room F io_ok) [(Some, d)]) a s = Some (t, p)"
  obtains (lost) "d = RequestLost" "t = s" "p = None"
  | (run) served where "d \<noteq> RequestLost" "bakery_service F (bk_request.truncate a) s = Some (t, served)"
      "p = (if d = Delivered then Some (bk_result t) else None)"
proof -
  note r = xdr_laws_end(2) [OF assms(1)]
  show thesis
    by (rule one_transmission [where server = "bakery_dispatch X room F io_ok" and put = "bk_put X" and
        get = "bk_get X room" and a = a and proc = "bakery_service_svc F" and put' = "put_float X", OF bakery_server(2) bk_round_trip [OF assms(1,2)] _ assms(3) [unfolded bakery_service_1_def]])
      (use r lost run in \<open>auto simp: bakery_service_svc_def\<close>)
qed

text \<open>Every event is of one of three kinds: it leaves the server alone, or is a call of one of its procedures.\<close>

fun bc_weight :: "'f bc_phase \<Rightarrow> nat" where
  "bc_weight BcCreate = 33"
| "bc_weight BcControl = 32"
| "bc_weight BcNumber = 31"
| "bc_weight (BcPoll _ at) = ATTEMPTS - at"
| "bc_weight _ = 0"

definition bc_req :: "(nat \<Rightarrow> 'f bk_struct) \<Rightarrow> nat \<Rightarrow> 'f bk_request" where
  "bc_req reqs i = bk_request.truncate (reqs i)"

definition bc_good :: "'f xdr \<Rightarrow> (nat \<Rightarrow> 'f bk_struct) \<Rightarrow> bool" where
  "bc_good X reqs \<longleftrightarrow> xdr_ok X \<and> bc_requests_ok reqs"

text \<open>The processes that have been forked, and the numbers they keep.\<close>

definition bc_wf :: "'f bc_sys \<Rightarrow> bool" where
  "bc_wf s \<longleftrightarrow> (\<forall>i. bc_phase s i \<noteq> BcNone \<longrightarrow> i < CLNT_CNT) \<and>
     (\<forall>i n at. bc_phase s i = BcPoll n at \<longrightarrow> is_c_int n \<and> at < ATTEMPTS) \<and>
     (case bc_parent s of
        ParFork k \<Rightarrow> k < CLNT_CNT \<and> (\<forall>i. bc_phase s i \<noteq> BcNone \<longleftrightarrow> i < k)
      | ParWait k \<Rightarrow> k \<le> CLNT_CNT \<and> (\<forall>i. bc_phase s i \<noteq> BcNone \<longleftrightarrow> i < CLNT_CNT)
      | ParExit _ \<Rightarrow> True)"

fun par_weight :: "bc_parent \<Rightarrow> nat" where
  "par_weight (ParFork i) = 34 * (CLNT_CNT - i) + 11"
| "par_weight (ParWait i) = Suc (CLNT_CNT - i)"
| "par_weight (ParExit _) = 0"

lemma bc_exec_cases:
  assumes good: "bc_good X reqs" and wf: "bc_wf s" and ex: "bc_exec X room F reqs s e = Some t"
  obtains (fork) i where "bc_parent s = ParFork i" "bc_server t = bc_server s"
      "bc_phase t = (bc_phase s)(i := BcCreate)"
      "bc_parent t = (if i + 1 < CLNT_CNT then ParFork (i + 1) else ParWait 0)"
  | (leave) "bc_server t = bc_server s" "bc_phase t = bc_phase s" "par_weight (bc_parent t) < par_weight (bc_parent s)"
      "(\<exists>c. bc_parent t = ParExit c) \<or> (\<exists>k < CLNT_CNT. bc_parent s = ParWait k \<and> bc_parent t = ParWait (k + 1))"
  | (move) i ph where "bc_server t = bc_server s" "bc_parent t = bc_parent s" "bc_phase t = (bc_phase s)(i := ph)"
      "bc_weight ph < bc_weight (bc_phase s i)" "ph \<in> {BcControl, BcNumber, BcExit 1, BcCrash}"
  | (lost) i where "e = BcSend i RequestLost" "t = s"
  | (number) i d n where "e = BcSend i d" "bc_phase s i = BcNumber" "bc_parent t = bc_parent s"
      "get_number (bc_req reqs i) (bc_server s) = Some (bc_server t, n)"
      "bc_phase t = (if d = Delivered then (bc_phase s)(i := BcPoll n 0) else bc_phase s)"
  | (poll) i d n at served where "e = BcSend i d" "bc_phase s i = BcPoll n at" "bc_parent t = bc_parent s"
      "bakery_service F (bc_req reqs i) (bc_server s) = Some (bc_server t, served)"
      "bc_phase t = (if d = Delivered then (bc_phase s)(i := bc_polled F n at (bk_result (bc_server t))) else bc_phase s)"
proof (cases e)
  case (BcFork ok)
  then show thesis using ex fork leave by (auto simp: bc_goto_def split: bc_parent.splits if_splits)
next
  case BcWait
  then show thesis using ex leave wf by (auto simp: bc_wf_def split: bc_parent.splits if_splits)
next
  case (BcStep i ok)
  then show thesis using ex
    by (cases ok) (auto simp: bc_goto_def intro!: move [of i] split: bc_phase.splits)
next
  case (BcTimeUp i)
  then show thesis using ex wf
    by (auto simp: bc_goto_def bc_wf_def intro!: move [of i BcCrash] split: bc_phase.splits)
next
  case (BcSend i d)
  have X: "xdr_ok X" using good by (simp add: bc_good_def)
  have ok: "bk_struct_ok (reqs i)" if "bc_phase s i \<noteq> BcNone"
    using that good wf by (auto simp: bc_good_def bc_requests_ok_def bc_wf_def)
  show thesis
  proof (cases "bc_phase s i")
    case BcNumber
    then obtain u q where u: "get_number_1 X (network (bakery_dispatch X room F io_ok) [(Some, d)]) (reqs i) (bc_server s) =
        Some (u, q)" using ex BcSend by (auto split: option.splits)
    have "bk_struct_ok (reqs i)" using ok BcNumber by simp
    from X this u show thesis
    proof (cases rule: bc_send_number)
      case lost
      then show thesis using ex BcSend BcNumber u by (intro that(4)) simp_all
    next
      case (run n)
      then show thesis using ex BcSend BcNumber u
        by (intro number [of i d n]; cases d) (auto simp: bc_req_def bc_goto_def)
    qed
  next
    case (BcPoll n at)
    let ?r = "(reqs i)\<lparr>bs_num := n\<rparr>"
    obtain u q where u: "bakery_service_1 X (network (bakery_dispatch X room F io_ok) [(Some, d)]) ?r (bc_server s) =
        Some (u, q)" using ex BcSend BcPoll by (auto split: option.splits)
    have "bk_struct_ok ?r" using ok BcPoll wf by (auto simp: bk_struct_ok_def bc_wf_def)
    from X this u show thesis
    proof (cases rule: bc_send_service)
      case lost
      then show thesis using ex BcSend BcPoll u by (intro that(4)) simp_all
    next
      case (run served)
      then show thesis using ex BcSend BcPoll u
        by (intro poll [of i d n at served]; cases d) (auto simp: bc_req_def bc_goto_def bk_request.defs)
    qed
  qed (use ex BcSend in simp_all)
qed


subsection \<open>Invariant of the ten clients\<close>

definition bc_inv :: "'f flt \<Rightarrow> (nat \<Rightarrow> 'f bk_struct) \<Rightarrow> 'f bc_sys \<Rightarrow> bool" where
  "bc_inv F reqs s \<longleftrightarrow> bc_wf s \<and> reach (bk_exec F) (bk_start F) (bc_server s) \<and>
     (\<forall>i n v. bc_phase s i = BcAnswer n v \<longrightarrow> v = f_inf F \<or> (\<exists>x. v = bk_compute F x (bc_req reqs i)))"

lemma bc_wf_move:
  assumes "bc_wf s" and "bc_parent t = bc_parent s" and "bc_phase t = (bc_phase s)(i := ph)"
    and "bc_phase s i \<noteq> BcNone" and "ph \<noteq> BcNone" and "\<And>n at. ph = BcPoll n at \<Longrightarrow> is_c_int n \<and> at < ATTEMPTS"
  shows "bc_wf t"
  using assms by (auto simp: bc_wf_def split: bc_parent.splits)

lemma bc_wf_same: "bc_wf s \<Longrightarrow> bc_parent t = bc_parent s \<Longrightarrow> bc_phase t = bc_phase s \<Longrightarrow> bc_wf t"
  by (auto simp: bc_wf_def split: bc_parent.splits)

lemma bc_polled_wf: "is_c_int n \<Longrightarrow> bc_polled F n at v = BcPoll m k \<Longrightarrow> is_c_int m \<and> k < ATTEMPTS"
  by (auto simp: bc_polled_def split: if_splits)

lemma bc_wf_exec:
  assumes good: "bc_good X reqs" and wf: "bc_wf s" and ex: "bc_exec X room F reqs s e = Some t"
  shows "bc_wf t"
  using good wf ex
proof (cases rule: bc_exec_cases)
  case (fork i)
  then show ?thesis using wf by (auto simp: bc_wf_def less_Suc_eq)
next
  case leave
  then show ?thesis using wf by (auto simp: bc_wf_def)
next
  case (move i ph)
  then have "bc_phase s i \<noteq> BcNone" "ph \<noteq> BcNone" "ph \<noteq> BcPoll n at" for n at by auto
  with bc_wf_move [OF wf move(2,3)] show ?thesis by blast
next
  case (lost i)
  then show ?thesis using wf by simp
next
  case (number i d n)
  then have "is_c_int n" by (auto dest: get_number_c_int)
  then show ?thesis
    using bc_wf_move [OF wf number(3), of i "BcPoll n 0"] bc_wf_same [OF wf number(3)] number(2,5)
    by (cases "d = Delivered") (simp_all add: ATTEMPTS_def)
next
  case (poll i d n at served)
  then have "is_c_int n" using wf by (auto simp: bc_wf_def)
  moreover have "bc_polled F n at v \<noteq> BcNone" for v by (simp add: bc_polled_def)
  ultimately have "bc_phase t = (bc_phase s)(i := bc_polled F n at (bk_result (bc_server t))) \<Longrightarrow> bc_wf t"
    using bc_wf_move [OF wf poll(3)] poll(2) bc_polled_wf by fastforce
  then show ?thesis using bc_wf_same [OF wf poll(3)] poll(5) by presburger
qed

lemma bc_inv_exec:
  assumes good: "bc_good X reqs" and inv: "bc_inv F reqs s" and ex: "bc_exec X room F reqs s e = Some t"
  shows "bc_inv F reqs t"
proof -
  have wf: "bc_wf s" and r: "reach (bk_exec F) (bk_start F) (bc_server s)"
    and ans: "\<And>i n v. bc_phase s i = BcAnswer n v \<Longrightarrow> v = f_inf F \<or> (\<exists>x. v = bk_compute F x (bc_req reqs i))"
    using inv by (auto simp: bc_inv_def)
  have "bc_wf t" by (rule bc_wf_exec [OF good wf ex])
  moreover from good wf ex have "reach (bk_exec F) (bk_start F) (bc_server t) \<and>
      (\<forall>i n v. bc_phase t i = BcAnswer n v \<longrightarrow> v = f_inf F \<or> (\<exists>x. v = bk_compute F x (bc_req reqs i)))"
  proof (cases rule: bc_exec_cases)
    case (number i d n)
    then have "bk_exec F (bc_server s) (GetNumber (bc_req reqs i)) = Some (bc_server t)" by simp
    from reach.reach_step [OF r this] show ?thesis using number(5) ans by (auto split: if_splits)
  next
    case (poll i d n at served)
    then have "bk_exec F (bc_server s) (Service (bc_req reqs i)) = Some (bc_server t)" by simp
    from reach.reach_step [OF r this] have "reach (bk_exec F) (bk_start F) (bc_server t)" .
    moreover have "bk_result (bc_server t) = f_inf F \<or> (\<exists>x. bk_result (bc_server t) = bk_compute F x (bc_req reqs i))"
      using bakery_service_effect(5) [OF poll(4)] by (auto split: if_splits)
    ultimately show ?thesis using poll(5) ans by (auto simp: bc_polled_def split: if_splits)
  qed (use r ans in auto)
  ultimately show ?thesis by (auto simp: bc_inv_def)
qed

interpretation bc: invariant_system "bc_exec X room F reqs" "bc_start F" "\<lambda>s. bc_good X reqs \<longrightarrow> bc_inv F reqs s"
  for X room F reqs
proof
  show "bc_good X reqs \<longrightarrow> bc_inv F reqs (bc_start F)"
    by (simp add: bc_inv_def bc_wf_def bc_start_def CLNT_CNT_def reach.reach_init)
qed (use bc_inv_exec in blast)


subsection \<open>A client that ended without being served\<close>

text \<open>What stays true once client \<open>a\<close> has ended with the number \<open>m\<close>, of a client \<open>b\<close> that asks later.\<close>

definition bc_blocked :: "'f flt \<Rightarrow> nat \<Rightarrow> nat \<Rightarrow> int \<Rightarrow> 'f bc_sys \<Rightarrow> bool" where
  "bc_blocked F a b m s \<longleftrightarrow> bc_ended (bc_phase s a) \<and> numbers (bc_server s) ! a = m \<and> m \<noteq> 0 \<and>
     (\<forall>n at. bc_phase s b = BcPoll n at \<longrightarrow> m < numbers (bc_server s) ! b) \<and>
     (\<forall>n v. bc_phase s b = BcAnswer n v \<longrightarrow> v = f_inf F)"

lemma bc_blocked_exec:
  assumes good: "bc_good X reqs" and inv: "bc_inv F reqs s" and eq: "f_eq F (f_inf F) (f_inf F)"
    and ab: "a < CLNT_CNT" "b < CLNT_CNT" and bl: "bc_blocked F a b m s" and ex: "bc_exec X room F reqs s e = Some t"
  shows "bc_blocked F a b m t"
proof -
  have wf: "bc_wf s" and bk: "bk_inv (bc_server s)" using inv bk.reach_inv by (auto simp: bc_inv_def)
  have idx: "nat (bq_idx (bc_req reqs i)) = i" if "bc_phase s i \<noteq> BcNone" for i
    using that good wf by (auto simp: bc_wf_def bc_good_def bc_requests_ok_def bc_req_def bk_request.defs)
  have small: "a < 128" "b < 128" "length (numbers (bc_server s)) = 128"
    using ab bk by (simp_all add: CLNT_CNT_def bk_inv_def)
  from good wf ex show ?thesis
  proof (cases rule: bc_exec_cases)
    case (fork i)
    then have "bc_phase s i = BcNone" using wf by (auto simp: bc_wf_def)
    then show ?thesis using fork bl by (auto simp: bc_blocked_def)
  next
    case leave
    then show ?thesis using bl by (auto simp: bc_blocked_def)
  next
    case (move i ph)
    then have "\<not> bc_ended (bc_phase s i)" by (cases "bc_phase s i") auto
    then show ?thesis using move bl by (auto simp: bc_blocked_def)
  next
    case (lost i)
    then show ?thesis using bl by simp
  next
    case (number i d n)
    then have "i \<noteq> a" using bl by (auto simp: bc_blocked_def)
    moreover have "numbers (bc_server t) = (numbers (bc_server s))[i := n]" "numbers (bc_server s) ! a < n"
      using get_number_effect(2) [OF bk number(4)] get_number_effect(3) [OF bk number(4) small(1)] idx number(2) by simp_all
    ultimately show ?thesis using number(2,5) bl small by (auto simp: bc_blocked_def nth_list_update)
  next
    case (poll i d n at served)
    then have "i \<noteq> a" using bl by (auto simp: bc_blocked_def)
    have "\<not> served" if "i = b"
    proof -
      have "has_priority (bc_server s) a b"
        using bl poll(2) that by (auto simp: bc_blocked_def has_priority_def)
      then have "bk_blocker (bc_server s) b \<noteq> None" using small(1) by (auto simp: bk_blocker_none [OF bk])
      then show ?thesis using bakery_service_effect(4) [OF poll(4)] idx poll(2) that by simp
    qed
    moreover note eff = bakery_service_effect(1,5) [OF poll(4)]
    ultimately show ?thesis using poll(2,5) bl \<open>i \<noteq> a\<close> idx [of i] eq
      by (auto simp: bc_blocked_def bc_polled_def split: if_splits)
  qed
qed


subsection \<open>The end of the client program\<close>

lemma sum_nat_upd:
  assumes "i < (n :: nat)"
  shows "(\<Sum>k<n. w ((f(i := x)) k)) + w (f i) = (\<Sum>k<n. w (f k)) + (w x :: nat)"
proof -
  have "(\<Sum>k\<in>{..<n} - {i}. w ((f(i := x)) k)) = (\<Sum>k\<in>{..<n} - {i}. w (f k))" by (intro sum.cong) auto
  then show ?thesis
    using assms sum.remove [of "{..<n}" i "\<lambda>k. w ((f(i := x)) k)", OF finite_lessThan]
      sum.remove [of "{..<n}" i "\<lambda>k. w (f k)", OF finite_lessThan] by simp
qed

definition bc_left :: "'f bc_sys \<Rightarrow> nat" where
  "bc_left s = par_weight (bc_parent s) + (\<Sum>i<CLNT_CNT. bc_weight (bc_phase s i))"

lemma bc_left_move:
  assumes "bc_wf s" and "bc_phase t = (bc_phase s)(i := ph)" and "bc_parent t = bc_parent s"
    and "bc_weight ph < bc_weight (bc_phase s i)"
  shows "bc_left t < bc_left s"
proof -
  have "bc_phase s i \<noteq> BcNone" using assms(4) by auto
  then have "i < CLNT_CNT" using assms(1) by (simp add: bc_wf_def)
  from sum_nat_upd [OF this, of bc_weight "bc_phase s" ph] show ?thesis
    using assms(2-4) by (simp add: bc_left_def)
qed

fun answered :: "bc_event \<Rightarrow> bool" where
  "answered (BcSend _ d) = (d = Delivered)"
| "answered _ = True"

lemma bc_left_exec:
  assumes good: "bc_good X reqs" and wf: "bc_wf s" and ex: "bc_exec X room F reqs s e = Some t"
  shows "bc_left t + (if answered e then 1 else 0) \<le> bc_left s"
  using good wf ex
proof (cases rule: bc_exec_cases)
  case (fork i)
  then have i: "i < CLNT_CNT" "bc_phase s i = BcNone" using wf by (auto simp: bc_wf_def)
  from sum_nat_upd [OF i(1), of bc_weight "bc_phase s" BcCreate] show ?thesis
    using fork i by (auto simp: bc_left_def CLNT_CNT_def)
next
  case leave
  then show ?thesis by (simp add: bc_left_def)
next
  case (move i ph)
  from bc_left_move [OF wf move(3,2,4)] show ?thesis by simp
next
  case (lost i)
  then show ?thesis by simp
next
  case (number i d n)
  have "bc_phase t = (bc_phase s)(i := BcPoll n 0) \<Longrightarrow> bc_left t < bc_left s"
    using bc_left_move [OF wf _ number(3)] number(2) by (auto simp: ATTEMPTS_def)
  moreover have "d \<noteq> Delivered \<Longrightarrow> bc_left t = bc_left s" using number(3,5) by (simp add: bc_left_def)
  ultimately show ?thesis using number(1,5) by (cases "d = Delivered") simp_all
next
  case (poll i d n at served)
  have "at < ATTEMPTS" using wf poll(2) by (simp add: bc_wf_def)
  then have st: "bc_phase t = (bc_phase s)(i := bc_polled F n at v) \<Longrightarrow> bc_left t < bc_left s" for v
    using poll(2) by (intro bc_left_move [OF wf _ poll(3)]) (auto simp: bc_polled_def)
  have "bc_left t < bc_left s" if "d = Delivered"
    by (rule st [of "bk_result (bc_server t)"]) (simp add: poll(5) that)
  moreover have "d \<noteq> Delivered \<Longrightarrow> bc_left t = bc_left s" using poll(3,5) by (simp add: bc_left_def)
  ultimately show ?thesis using poll(1) by (cases "d = Delivered") simp_all
qed

lemma bc_can_step:
  assumes "bc_wf s" and "\<forall>c. bc_parent s \<noteq> ParExit c"
  shows "\<exists>e t. bc_exec X room F reqs s e = Some t"
proof (cases "bc_parent s")
  case (ParFork i)
  then have "\<exists>t. bc_exec X room F reqs s (BcFork True) = Some t" by simp
  then show ?thesis by blast
next
  case (ParWait k)
  show ?thesis
  proof (cases "k < CLNT_CNT \<and> \<not> bc_ended (bc_phase s k)")
    case True
    then have "bc_phase s k \<noteq> BcNone" using assms(1) ParWait by (simp add: bc_wf_def)
    then have "\<exists>e \<in> {BcStep k True, BcTimeUp k}. \<exists>t. bc_exec X room F reqs s e = Some t"
      using True by (cases "bc_phase s k") auto
    then show ?thesis by blast
  next
    case False
    then have "\<exists>t. bc_exec X room F reqs s BcWait = Some t" using ParWait by auto
    then show ?thesis by blast
  qed
qed (use assms(2) in blast)

lemma bc_left_run:
  "run (bc_exec X room F reqs) s es = Some t \<Longrightarrow> bc_good X reqs \<Longrightarrow> bc_wf s \<Longrightarrow>
     bc_wf t \<and> bc_left t + length (filter answered es) \<le> bc_left s"
proof (induction es arbitrary: s)
  case (Cons e es)
  then obtain u where u: "bc_exec X room F reqs s e = Some u" "run (bc_exec X room F reqs) u es = Some t"
    by (auto split: option.splits)
  from Cons.IH [OF u(2) Cons.prems(2) bc_wf_exec [OF Cons.prems(2,3) u(1)]]
    bc_left_exec [OF Cons.prems(2,3) u(1)] show ?case by auto
qed simp


subsection \<open>Properties of the bakery's clients\<close>

lemma bc_wf_start: "bc_wf (bc_start F)"
  by (simp add: bc_wf_def bc_start_def CLNT_CNT_def)

lemma bc_sends:
  assumes "bc_good X reqs" and "i < CLNT_CNT"
  shows "bc_phase s i = BcNumber \<Longrightarrow> get_number (bc_req reqs i) (bc_server s) = Some (u, n) \<Longrightarrow>
      bc_exec X room F reqs s (BcSend i Delivered) = Some (bc_goto i (BcPoll n 0) (s\<lparr>bc_server := u\<rparr>)) \<and>
      bc_exec X room F reqs s (BcSend i ReplyLost) = Some (s\<lparr>bc_server := u\<rparr>)"
    and "bc_phase s i = BcPoll m at \<Longrightarrow> is_c_int m \<Longrightarrow>
      bakery_service F (bc_req reqs i) (bc_server s) = Some (u, served) \<Longrightarrow>
      bc_exec X room F reqs s (BcSend i Delivered) =
        Some (bc_goto i (bc_polled F m at (bk_result u)) (s\<lparr>bc_server := u\<rparr>))"
proof -
  have X: "xdr_ok X" and ok: "bk_struct_ok (reqs i)" using assms by (simp_all add: bc_good_def bc_requests_ok_def)
  {
    assume p: "bc_phase s i = BcNumber" and g: "get_number (bc_req reqs i) (bc_server s) = Some (u, n)"
    then have "get_number_svc (reqs i) (bc_server s) = Some (u, Some n)" by (simp add: get_number_svc_def bc_req_def)
    then show "bc_exec X room F reqs s (BcSend i Delivered) = Some (bc_goto i (BcPoll n 0) (s\<lparr>bc_server := u\<rparr>)) \<and>
        bc_exec X room F reqs s (BcSend i ReplyLost) = Some (s\<lparr>bc_server := u\<rparr>)"
      using p by (simp add: get_number_1_delivered [OF X ok] get_number_1_resent [OF X ok] no_more_calls)
  next
    assume p: "bc_phase s i = BcPoll m at" "is_c_int m"
      and b: "bakery_service F (bc_req reqs i) (bc_server s) = Some (u, served)"
    have "bk_struct_ok ((reqs i)\<lparr>bs_num := m\<rparr>)" using ok p(2) by (simp add: bk_struct_ok_def)
    moreover have "bakery_service_svc F ((reqs i)\<lparr>bs_num := m\<rparr>) (bc_server s) = Some (u, Some (bk_result u))"
      using b by (simp add: bakery_service_svc_def bc_req_def bk_request.defs)
    ultimately show "bc_exec X room F reqs s (BcSend i Delivered) =
        Some (bc_goto i (bc_polled F m at (bk_result u)) (s\<lparr>bc_server := u\<rparr>))"
      using p by (simp add: bakery_service_1_delivered [OF X])
  }
qed

abbreviation demo_reqs :: "nat \<Rightarrow> 32 word bk_struct" where
  "demo_reqs \<equiv> \<lambda>i. req32 (70 + int i) (int i) 2"

abbreviation demo_exec :: "32 word bc_sys \<Rightarrow> bc_event \<Rightarrow> 32 word bc_sys option" where
  "demo_exec \<equiv> bc_exec xdr32 True flt32 demo_reqs"

lemma demo_good: "bc_good xdr32 demo_reqs" "xdr_ok xdr32" "bc_requests_ok demo_reqs"
proof -
  have "bk_struct_ok (demo_reqs i) \<and> bq_idx (demo_reqs i) = int i \<and> bq_op (demo_reqs i) \<in> {0..3}" if "i < 10" for i
  proof -
    have "is_c_int (70 + int i)" "is_c_int (int i)" "is_c_int 2"
      using that by (simp_all add: is_c_int_def INT_MIN_def INT_MAX_def)
    from req32_ok [OF this] show ?thesis by (simp add: req32_def)
  qed
  then show "bc_requests_ok demo_reqs" by (simp add: bc_requests_ok_def CLNT_CNT_def)
  then show "bc_good xdr32 demo_reqs" "xdr_ok xdr32" by (simp_all add: bc_good_def xdr32_ok)
qed

text \<open>A process from its fork to its first call.\<close>

lemma bc_to_number:
  "bc_parent s = ParFork i \<Longrightarrow>
     run (bc_exec X room F reqs) s [BcFork True, BcStep i True, BcStep i True] =
       Some (bc_goto i BcNumber (s\<lparr>bc_parent := (if i + 1 < CLNT_CNT then ParFork (i + 1) else ParWait 0)\<rparr>))"
  by (simp add: bc_goto_def)

text \<open>The first client of a fresh server is served, and the second one, which came later, is not before.\<close>

lemma demo_index: "i < 10 \<Longrightarrow> bk_index_ok (bc_req demo_reqs i)" "nat (bq_idx (bc_req demo_reqs i)) = i"
  by (simp_all add: bk_index_ok_def bc_req_def req32_def bk_request.defs MAX_CLNT_CNT_def)

lemma demo_first:
  obtains s u n where "reach demo_exec (bc_start flt32) s" "bc_phase s = (\<lambda>_. BcNone)(0 := BcNumber)"
    "bc_parent s = ParFork 1" "bc_server s = bk_start flt32"
    "get_number (bc_req demo_reqs 0) (bk_start flt32) = Some (u, n)" "n \<noteq> 0" "is_c_int n"
    "bk_inv u" "numbers u = (replicate 128 0)[0 := n]"
proof -
  obtain u n where u: "get_number (bc_req demo_reqs 0) (bk_start flt32) = Some (u, n)"
    using two_numbers [OF demo_index(1) demo_index(1), of 0 0 flt32] by auto
  note eff = get_number_effect [OF bk.inv_start u, unfolded demo_index(2)]
  have "0 < n" using eff(3) [of 0] by (simp add: bk_start_def MAX_CLNT_CNT_def)
  moreover have "numbers u = (replicate 128 0)[0 := n]" using eff(2) by (simp add: bk_start_def MAX_CLNT_CNT_def)
  moreover note eff(1) get_number_c_int [OF u] u
  ultimately show thesis
    using that [OF run_reach_init [OF bc_to_number [of "bc_start flt32" 0]]]
    by (simp add: bc_start_def bc_goto_def CLNT_CNT_def)
qed

text \<open>A client prints the result of its own operation on its own numbers or reports that its attempts
  are used up; only a division by zero can print what the server computed for somebody else.\<close>

theorem bc_answers:
  assumes "xdr_ok X" and "bc_requests_ok reqs" and "reach (bc_exec X room F reqs) (bc_start F) s"
    and "bc_phase s i = BcAnswer n v" and "v \<noteq> f_inf F"
    and "bq_op (reqs i) = DIV \<longrightarrow> \<not> f_eq F (bq_arg2 (reqs i)) (f_zero F)"
  shows "v = bk_compute F x (bc_req reqs i)"
proof -
  have good: "bc_good X reqs" using assms(1,2) by (simp add: bc_good_def)
  then have inv: "bc_inv F reqs s" using bc.reach_inv [OF assms(3)] by blast
  then obtain y where y: "v = bk_compute F y (bc_req reqs i)" using assms(4,5) unfolding bc_inv_def by blast
  have "i < CLNT_CNT" using inv assms(4) by (auto simp: bc_inv_def bc_wf_def)
  then have "bq_op (reqs i) \<in> {0..3}" using assms(2) by (simp add: bc_requests_ok_def)
  then have "bk_compute F y (bc_req reqs i) = bk_compute F x (bc_req reqs i)"
    using assms(6) by (auto simp: bk_compute_def bc_req_def bk_request.defs op_codes)
  with y show ?thesis by simp
qed

theorem bc_answers_witness:
  "\<exists>s n. reach demo_exec (bc_start flt32) s \<and> bc_phase s 0 = BcAnswer n 15 \<and>
     15 = bk_compute flt32 0 (bc_req demo_reqs 0)"
proof -
  obtain s u n where s: "reach demo_exec (bc_start flt32) s" "bc_phase s = (\<lambda>_. BcNone)(0 := BcNumber)"
    and u: "get_number (bc_req demo_reqs 0) (bc_server s) = Some (u, n)" "is_c_int n" "bk_inv u"
      "numbers u = (replicate 128 0)[0 := n]"
    by (rule demo_first) simp
  have i: "0 < CLNT_CNT" by (simp add: CLNT_CNT_def)
  let ?t = "bc_goto 0 (BcPoll n 0) (s\<lparr>bc_server := u\<rparr>)"
  have "demo_exec s (BcSend 0 Delivered) = Some ?t"
    using bc_sends(1) [OF demo_good(1) i _ u(1)] s(2) by simp
  with s(1) have t: "reach demo_exec (bc_start flt32) ?t" by (rule reach.reach_step)
  have "\<not> has_priority u k 0" if "k < 128" for k using u(4) that by (auto simp: has_priority_def nth_list_update)
  then have "bk_blocker u 0 = None" by (simp add: bk_blocker_none [OF u(3)])
  then obtain v where v: "bakery_service flt32 (bc_req demo_reqs 0) u = Some (v, True)"
    using demo_index [of 0] by (simp add: bakery_service_def Let_def)
  have r: "bk_result v = 15"
    using bakery_service_effect(5) [OF v]
    by (simp add: bk_compute_def bc_req_def req32_def bk_request.defs op_codes flt32_def)
  have "demo_exec ?t (BcSend 0 Delivered) = Some (bc_goto 0 (bc_polled flt32 n 0 15) (?t\<lparr>bc_server := v\<rparr>))"
    using bc_sends(2) [OF demo_good(1) i _ u(2), of ?t 0 flt32 v True] v r by (simp add: bc_goto_def)
  with t have "reach demo_exec (bc_start flt32) (bc_goto 0 (bc_polled flt32 n 0 15) (?t\<lparr>bc_server := v\<rparr>))"
    by (rule reach.reach_step)
  moreover have "bc_phase (bc_goto 0 (bc_polled flt32 n 0 15) (?t\<lparr>bc_server := v\<rparr>)) 0 = BcAnswer n 15"
    by (simp add: bc_goto_def bc_polled_def flt32_def)
  ultimately show ?thesis
    using bc_answers [OF demo_good(2,3), of True flt32 _ 0 n 15 0] by (fastforce simp: req32_def op_codes flt32_def)
qed

text \<open>C21: A client that ends without having been served keeps its number for ever, and no client that takes its
  number after that is ever given a result: all of them run out of attempts.\<close>

theorem bc_abandoned_blocks:
  assumes "xdr_ok X" and "bc_requests_ok reqs" and "f_eq F (f_inf F) (f_inf F)"
    and "reach (bc_exec X room F reqs) (bc_start F) s" and "a < CLNT_CNT" and "b < CLNT_CNT"
    and "bc_ended (bc_phase s a)" and "numbers (bc_server s) ! a \<noteq> 0"
    and "bc_phase s b \<in> {BcNone, BcCreate, BcControl, BcNumber}"
    and "reach (bc_exec X room F reqs) s t"
  shows "numbers (bc_server t) ! a = numbers (bc_server s) ! a \<and>
    (\<forall>n v. bc_phase t b = BcAnswer n v \<longrightarrow> v = f_inf F)"
proof -
  have good: "bc_good X reqs" using assms(1,2) by (simp add: bc_good_def)
  then have inv: "bc_inv F reqs s" using bc.reach_inv [OF assms(4)] by blast
  let ?m = "numbers (bc_server s) ! a"
  have "bc_inv F reqs t \<and> bc_blocked F a b ?m t" using assms(10)
  proof (induction rule: reach.induct)
    case reach_init
    then show ?case using inv assms(7-9) by (auto simp: bc_blocked_def)
  next
    case (reach_step u e v)
    with bc_inv_exec [OF good] bc_blocked_exec [OF good _ assms(3,5,6)] show ?case by blast
  qed
  then show ?thesis by (simp add: bc_blocked_def)
qed

theorem bc_abandoned_blocks_witness:
  "\<exists>s t m. reach demo_exec (bc_start flt32) s \<and> bc_phase s 0 = BcCrash \<and> reach demo_exec s t \<and> bc_phase t 1 = BcPoll m 1"
proof -
  obtain s0 u n where s0: "reach demo_exec (bc_start flt32) s0" "bc_phase s0 = (\<lambda>_. BcNone)(0 := BcNumber)"
      "bc_parent s0 = ParFork 1"
    and u: "get_number (bc_req demo_reqs 0) (bc_server s0) = Some (u, n)" "n \<noteq> 0"
      "numbers u = (replicate 128 0)[0 := n]" and fresh: "bc_server s0 = bk_start flt32"
    by (rule demo_first) simp
  have i: "0 < CLNT_CNT" "1 < CLNT_CNT" by (simp_all add: CLNT_CNT_def)
  let ?s = "bc_goto 0 BcCrash (s0\<lparr>bc_server := u\<rparr>)"
  have "demo_exec s0 (BcSend 0 ReplyLost) = Some (s0\<lparr>bc_server := u\<rparr>)"
    using bc_sends(1) [OF demo_good(1) i(1) _ u(1)] s0(2) by simp
  then have "run demo_exec s0 [BcSend 0 ReplyLost, BcTimeUp 0] = Some ?s" using s0(2) by simp
  with s0(1) have s: "reach demo_exec (bc_start flt32) ?s" by (rule run_reach)
  obtain v m where v: "get_number (bc_req demo_reqs 1) u = Some (v, m)"
    using two_numbers [OF demo_index(1) demo_index(1), of 0 1 flt32] u(1) fresh by auto
  let ?t1 = "bc_goto 1 BcNumber (?s\<lparr>bc_parent := ParFork 2\<rparr>)"
    and ?t2 = "bc_goto 1 (BcPoll m 0) (?s\<lparr>bc_parent := ParFork 2, bc_server := v\<rparr>)"
  have "run demo_exec ?s [BcFork True, BcStep 1 True, BcStep 1 True] = Some ?t1"
    using bc_to_number [of ?s 1 xdr32 True flt32 demo_reqs] s0(3)
    by (simp add: bc_goto_def CLNT_CNT_def numeral_2_eq_2)
  with reach.reach_init have t1: "reach demo_exec ?s ?t1" by (rule run_reach)
  have "demo_exec ?t1 (BcSend 1 Delivered) = Some ?t2"
    using bc_sends(1) [OF demo_good(1) i(2), of ?t1 v m] v by (simp add: bc_goto_def)
  with t1 have t2: "reach demo_exec ?s ?t2" by (rule reach.reach_step)
  obtain w served where w: "bakery_service flt32 (bc_req demo_reqs 1) v = Some (w, served)"
    using bakery_service_total [OF demo_index(1), of 1 flt32 v] by auto
  let ?t = "bc_goto 1 (bc_polled flt32 m 0 (bk_result w)) (?t2\<lparr>bc_server := w\<rparr>)"
  have "demo_exec ?t2 (BcSend 1 Delivered) = Some ?t"
    using bc_sends(2) [OF demo_good(1) i(2), of ?t2 m 0 flt32 w served] w get_number_c_int [OF v]
    by (simp add: bc_goto_def)
  with t2 have t: "reach demo_exec ?s ?t" by (rule reach.reach_step)
  have "\<forall>n x. bc_phase ?t 1 = BcAnswer n x \<longrightarrow> x = f_inf flt32"
    using bc_abandoned_blocks [OF demo_good(2,3) _ s i _ _ _ t] u(2,3) s0(2)
    by (simp add: bc_goto_def flt32_def)
  moreover have p: "bc_phase ?t 1 = bc_polled flt32 m 0 (bk_result w)" by (simp add: bc_goto_def)
  have "bc_polled flt32 m 0 (bk_result w) = (if bk_result w = f_inf flt32 then BcPoll m 1 else BcAnswer m (bk_result w))"
    by (simp add: bc_polled_def ATTEMPTS_def flt32_def)
  ultimately have "bc_phase ?t 1 = BcPoll m 1" unfolding p by (metis bc_phase.distinct)
  moreover have "bc_phase ?s 0 = BcCrash" by (simp add: bc_goto_def)
  ultimately show ?thesis using s t by blast
qed

text \<open>C35: the client program ends: there are at most 351 events other than transmissions that are lost or not
  answered, and until the parent has exited some event can happen.\<close>

theorem bc_ends:
  assumes "xdr_ok X" and "bc_requests_ok reqs" and "run (bc_exec X room F reqs) (bc_start F) es = Some s"
  shows "length (filter answered es) \<le> 351 \<and>
    ((\<exists>c. bc_parent s = ParExit c) \<or> (\<exists>e t. bc_exec X room F reqs s e = Some t))"
proof -
  have good: "bc_good X reqs" using assms(1,2) by (simp add: bc_good_def)
  have "bc_left (bc_start F) = 351" by (simp add: bc_left_def bc_start_def CLNT_CNT_def)
  then show ?thesis using bc_left_run [OF assms(3) good bc_wf_start] bc_can_step by fastforce
qed

theorem bc_ends_witness:
  "\<exists>s. run demo_exec (bc_start flt32) [BcFork True, BcStep 0 True, BcStep 0 True] = Some s \<and>
     (\<exists>e t. demo_exec s e = Some t)"
proof -
  obtain s where s: "run demo_exec (bc_start flt32) [BcFork True, BcStep 0 True, BcStep 0 True] = Some s"
    and p: "bc_parent s = ParFork 1"
    using bc_to_number [of "bc_start flt32" 0 xdr32 True flt32 demo_reqs]
    by (auto simp: bc_start_def bc_goto_def CLNT_CNT_def)
  from bc_ends [OF demo_good(2,3) s] p s show ?thesis by auto
qed


subsection \<open>The client of the calculator\<close>

text \<open>
  \<^verbatim>\<open>calculator_prog_1\<close>: the outcome of \<^verbatim>\<open>clnt_create\<close>, the character that is read, what the two
  calls of \<^verbatim>\<open>scanf\<close> store, if anything, and what the argument structure held before.
\<close>

datatype 'f calc_outcome = CcExit int | CcPrinted 'f

definition calculator_client ::
  "'f xdr \<Rightarrow> 's rpc \<Rightarrow> bool \<Rightarrow> int \<Rightarrow> 'f option \<Rightarrow> 'f option \<Rightarrow> 'f calc_struct \<Rightarrow> 's \<Rightarrow> ('s \<times> 'f calc_outcome) option" where
  "calculator_client X call created c n1 n2 junk s =
     (if \<not> created then Some (s, CcExit 1)
      else
        (case calculator_client_op c of
           None \<Rightarrow> Some (s, CcExit 1)
         | Some op \<Rightarrow>
             let arg = junk\<lparr>ca_op := op, ca_arg1 := (case n1 of None \<Rightarrow> ca_arg1 junk | Some x \<Rightarrow> x),
                   ca_arg2 := (case n2 of None \<Rightarrow> ca_arg2 junk | Some x \<Rightarrow> x)\<rparr> in
             (case calculator_proc_1 X call arg s of
                None \<Rightarrow> None
              | Some (t, None) \<Rightarrow> Some (t, CcExit 1)
              | Some (t, Some r) \<Rightarrow> Some (t, CcPrinted (cs_result r)))))"

text \<open>The user of the calculator's client who chooses 0 to 3 and enters two numbers reads what the socket calculator would
  send for the operations +, -, * and /, whatever the server computed before; any other choice ends the client with status 1
  and reaches no server.\<close>

theorem calculator_client_result:
  assumes "xdr_ok X" and "is_c_int (ca_op k)"
  shows "(i < 4 \<longrightarrow> map_option snd (calculator_client X (network (calculator_dispatch X F io_ok) [(Some, Delivered)]) True
        (48 + int i) (Some x) (Some y) junk k) = Some (CcPrinted (socket_calc F ([43, 45, 42, 47] ! i) x y))) \<and>
    (c < 48 \<or> 51 < c \<longrightarrow> calculator_client X call True c n1 n2 junk s = Some (s, CcExit 1))"
proof -
  have "is_c_int (int i)" if "i < 4" using that by (simp add: is_c_int_def INT_MIN_def INT_MAX_def)
  moreover have "i < 4 \<Longrightarrow> i = 0 \<or> i = 1 \<or> i = 2 \<or> i = 3" by auto
  ultimately have "i < 4 \<longrightarrow> map_option snd (calculator_client X (network (calculator_dispatch X F io_ok) [(Some, Delivered)])
      True (48 + int i) (Some x) (Some y) junk k) = Some (CcPrinted (socket_calc F ([43, 45, 42, 47] ! i) x y))"
    by (auto simp: calculator_client_def calculator_client_op_def calculator_proc_1_delivered [OF assms(1) _ assms(2)]
        calculator_svc_def calculator_proc_def socket_calc_def calc_request.defs op_codes Let_def)
  then show ?thesis by (simp add: calculator_client_def calculator_client_op_def)
qed

theorem calculator_client_result_witness:
  "map_option snd (calculator_client xdr32 (network (calculator_dispatch xdr32 flt32 io_ok) [(Some, Delivered)]) True 50
     (Some 6) (Some 7) \<lparr>ca_op = 0, ca_arg1 = 0, ca_arg2 = 0, cs_result = 0\<rparr>
     \<lparr>ca_op = 0, ca_arg1 = 0, ca_arg2 = 0, cs_result = 9\<rparr>) = Some (CcPrinted 42)"
  using calculator_client_result [OF xdr32_ok, THEN conjunct1, of "\<lparr>ca_op = 0, ca_arg1 = 0, ca_arg2 = 0, cs_result = 9\<rparr>" 2 flt32 6 7
      "\<lparr>ca_op = 0, ca_arg1 = 0, ca_arg2 = 0, cs_result = 0\<rparr>"]
  by (simp add: is_c_int_def INT_MIN_def INT_MAX_def socket_calc_def flt32_def)

end
