(* ===== verification/Rpc_Threads.thy ===== *)
theory Rpc_Threads
  imports Rpc_Transport
begin

section \<open>The threads of the producer/consumer client\<close>

text \<open>
  Model of prodcons\_client.c: one process with a hundred threads that call the server through the same stub.
  The stub of prodcons\_clnt.c returns the address of its static variable, which it clears before each
  call: what a thread reads through \<^verbatim>\<open>result_1\<close> is whatever the last call of any thread left there.
  Every statement that touches the static variable is a step of its own, a transmission of a request with
  its fate is another, and the threads of the server run in between. The dialogue of
  calculator\_client.c is at the end.
\<close>

subsection \<open>State and steps\<close>

definition COUNT_CLIENTS :: nat where "COUNT_CLIENTS = 100"

text \<open>
  The statements of \<^verbatim>\<open>process_request\<close>: the creation of the handle, the clearing of the static variable and the call
  (the first one, or a poll for an index), the reading of the index, the test of the loop, the look at the
  clock, and the reading of the result.
\<close>

datatype pt_phase =
    PtNone | PtCreate | PtClear "int option" | PtCalling "int option" | PtIndex | PtTest int | PtClock int
  | PtResult int | PtPrinted int int | PtGone

text \<open>\<^verbatim>\<open>prodcons_prog_1\<close>: at the creation of a thread, at a join, ended with a status, or at a join of a
  thread that was never created, whose identifier has no value.\<close>

datatype pt_main = PmCreate nat | PmJoin nat | PmEnd int | PmUndefined

record pt_sys =
  pt_server :: rp_sys
  pt_static :: rp_request
  pt_phase :: "nat \<Rightarrow> pt_phase"
  pt_main :: pt_main
  pt_created :: "nat \<Rightarrow> bool"
  pt_crashed :: bool

datatype pt_event = PtMain bool bool | PtStep nat bool | PtSend nat delivery bool | PtTimeUp nat | PtServer nat

definition pt_goto :: "nat \<Rightarrow> pt_phase \<Rightarrow> pt_sys \<Rightarrow> pt_sys" where
  "pt_goto t ph s = s\<lparr>pt_phase := (pt_phase s)(t := ph)\<rparr>"

fun pt_ended :: "pt_phase \<Rightarrow> bool" where
  "pt_ended (PtPrinted _ _) = True"
| "pt_ended PtGone = True"
| "pt_ended _ = False"

definition pt_alive :: "pt_sys \<Rightarrow> bool" where
  "pt_alive s \<longleftrightarrow> \<not> pt_crashed s \<and> (\<forall>c. pt_main s \<noteq> PmEnd c)"

text \<open>The request of a thread whose random number is even (a producer) or odd, and that of its polls.\<close>

definition pt_role :: "int \<Rightarrow> bool" where
  "pt_role r \<longleftrightarrow> c_rem r 2 = 0"

definition pt_arg :: "int \<Rightarrow> int option \<Rightarrow> rp_request" where
  "pt_arg r k =
     (case k of None \<Rightarrow> rp_request_of (pt_role r) | Some idx \<Rightarrow> (rp_request_of (pt_role r))\<lparr>rq_idx := idx\<rparr>)"

definition pt_zero :: rp_request where
  "pt_zero = \<lparr>rq_idx = 0, rq_type = 0, rq_result = 0\<rparr>"

text \<open>A statement of thread \<open>t\<close> other than a call; the flag is the outcome of \<^verbatim>\<open>clnt_create\<close>, and whether
  the 120 seconds are over.\<close>

definition pt_step :: "nat \<Rightarrow> bool \<Rightarrow> pt_sys \<Rightarrow> pt_sys option" where
  "pt_step t ok s =
     (case pt_phase s t of
        PtCreate \<Rightarrow> Some (pt_goto t (if ok then PtClear None else PtGone) s)
      | PtClear k \<Rightarrow> Some (pt_goto t (PtCalling k) (s\<lparr>pt_static := pt_zero\<rparr>))
      | PtIndex \<Rightarrow> Some (pt_goto t (PtTest (rq_idx (pt_static s))) s)
      | PtTest idx \<Rightarrow>
          Some (pt_goto t (if is_lower (rq_result (pt_static s)) then PtResult idx else PtClear (Some idx)) s)
      | PtClock idx \<Rightarrow> Some (pt_goto t (if ok then PtResult idx else PtTest idx) s)
      | PtResult idx \<Rightarrow>
          Some (pt_goto t (PtPrinted idx (if rq_result (pt_static s) = 0 then 45 else rq_result (pt_static s))) s)
      | _ \<Rightarrow> None)"

text \<open>The turns of the loops of \<^verbatim>\<open>prodcons_prog_1\<close>.\<close>

definition pt_main_step :: "bool \<Rightarrow> bool \<Rightarrow> pt_sys \<Rightarrow> pt_sys option" where
  "pt_main_step malloc_ok create_ok s =
     (case pt_main s of
        PmCreate i \<Rightarrow>
          Some (if \<not> malloc_ok then s\<lparr>pt_main := PmEnd 1\<rparr>
            else
              let s1 = s\<lparr>pt_main := (if i + 1 < COUNT_CLIENTS then PmCreate (i + 1) else PmJoin 0)\<rparr> in
              if create_ok then pt_goto i PtCreate (s1\<lparr>pt_created := (pt_created s)(i := True)\<rparr>) else s1)
      | PmJoin i \<Rightarrow>
          if i < COUNT_CLIENTS then
            (if \<not> pt_created s i then Some (s\<lparr>pt_main := PmUndefined\<rparr>)
             else if pt_ended (pt_phase s i) then Some (s\<lparr>pt_main := PmJoin (i + 1)\<rparr>)
             else None)
          else Some (s\<lparr>pt_main := PmEnd 0\<rparr>)
      | _ \<Rightarrow> None)"

fun pt_exec :: "'f xdr \<Rightarrow> (nat \<Rightarrow> int) \<Rightarrow> pt_sys \<Rightarrow> pt_event \<Rightarrow> pt_sys option" where
  "pt_exec X rnd s (PtMain malloc_ok create_ok) =
     (if pt_alive s then pt_main_step malloc_ok create_ok s else None)"
| "pt_exec X rnd s (PtStep t ok) = (if pt_alive s then pt_step t ok s else None)"
| "pt_exec X rnd s (PtSend t d m) =
     (case pt_phase s t of
        PtCalling k \<Rightarrow>
          if pt_alive s then
            (case service_1 X (network (prodcons_dispatch X m io_ok) [(Some, d)]) (pt_arg (rnd t) k) (pt_server s) of
               None \<Rightarrow> None
             | Some (u, None) \<Rightarrow> Some (s\<lparr>pt_server := u\<rparr>)
             | Some (u, Some r) \<Rightarrow>
                 Some (pt_goto t (case k of None \<Rightarrow> PtIndex | Some idx \<Rightarrow> PtClock idx)
                   (s\<lparr>pt_server := u, pt_static := r\<rparr>)))
          else None
      | _ \<Rightarrow> None)"
| "pt_exec X rnd s (PtTimeUp t) =
     (case pt_phase s t of
        PtCalling k \<Rightarrow>
          if pt_alive s then
            Some (case k of None \<Rightarrow> pt_goto t PtGone s | Some idx \<Rightarrow> s\<lparr>pt_crashed := True\<rparr>)
          else None
      | _ \<Rightarrow> None)"
| "pt_exec X rnd s (PtServer j) = map_option (\<lambda>u. s\<lparr>pt_server := u\<rparr>) (rp_exec (pt_server s) (Run j))"

definition pt_start :: pt_sys where
  "pt_start = \<lparr>pt_server = rp_init, pt_static = pt_zero, pt_phase = (\<lambda>_. PtNone), pt_main = PmCreate 0,
     pt_created = (\<lambda>_. False), pt_crashed = False\<rparr>"

lemma pt_goto_sel [simp]:
  "pt_server (pt_goto t p s) = pt_server s" "pt_static (pt_goto t p s) = pt_static s"
  "pt_phase (pt_goto t p s) = (pt_phase s)(t := p)" "pt_main (pt_goto t p s) = pt_main s"
  "pt_created (pt_goto t p s) = pt_created s" "pt_crashed (pt_goto t p s) = pt_crashed s"
  "pt_alive (pt_goto t p s) = pt_alive s"
  by (simp_all add: pt_goto_def pt_alive_def)


subsection \<open>Calls that are answered\<close>

lemma pt_arg_ok: "is_c_int (case k of None \<Rightarrow> - 1 | Some idx \<Rightarrow> idx) \<Longrightarrow> rq_ok (pt_arg r k)"
  by (auto simp: pt_arg_def rp_request_of_def rq_ok_def is_c_char_def PRODUCER_def CONSUMER_def split: option.splits)

lemma pt_answered:
  assumes "xdr_ok X" and "rp_fits (pt_server s)" and "pt_alive s" and "pt_phase s t = PtCalling k"
    and "is_c_int (case k of None \<Rightarrow> - 1 | Some idx \<Rightarrow> idx)"
    and "rp_service m (pt_arg (rnd t) k) (pt_server s) = Some (u, Some r)"
  shows "pt_exec X rnd s (PtSend t Delivered m) =
    Some (pt_goto t (case k of None \<Rightarrow> PtIndex | Some idx \<Rightarrow> PtClock idx) (s\<lparr>pt_server := u, pt_static := r\<rparr>))"
  using assms by (simp add: service_1_delivered [OF assms(1) pt_arg_ok])

text \<open>A first call and a poll on the server.\<close>

lemma pt_service_first:
  "\<exists>u. rp_service True (pt_arg r None) s = Some (u, Some ((rp_static s)\<lparr>rq_result := 45, rq_idx := int (rp_idx s)\<rparr>)) \<and>
     u = rp_goto (rp_idx s) TLock (s\<lparr>rp_static := (rp_static s)\<lparr>rq_result := 45, rq_idx := int (rp_idx s)\<rparr>,
       rp_idx := Suc (rp_idx s), rp_role := (rp_role s)(rp_idx s := pt_role r)\<rparr>)"
  by (simp add: rp_service_def pt_arg_def rp_request_of_def Let_def PRODUCER_def CONSUMER_def rp_goto_def)

lemma pt_service_poll:
  "i < MAX_CNT_CLNT \<Longrightarrow> rp_service m (pt_arg r (Some (int i))) s =
     (let q = (rp_static s)\<lparr>rq_idx := int i, rq_result := (if is_lower (rp_result s i) then rp_result s i else 45)\<rparr> in
      Some (s\<lparr>rp_static := q\<rparr>, Some q))"
  by (simp add: rp_service_def pt_arg_def rp_request_of_def Let_def)

text \<open>One thread from the test of the loop, through a poll that brings the letter of the cell, to its output.\<close>

lemma pt_poll_prints:
  assumes "xdr_ok X" and "rp_fits (pt_server s)" and "pt_alive s" and "pt_phase s t = PtTest (int i)"
    and "\<not> is_lower (rq_result (pt_static s))" and "i < MAX_CNT_CLNT" and "is_lower (rp_result (pt_server s) i)"
  shows "\<exists>u. run (pt_exec X rnd) s [PtStep t True, PtStep t True, PtSend t Delivered True, PtStep t False,
      PtStep t True, PtStep t True] = Some u \<and>
    pt_phase u = (pt_phase s)(t := PtPrinted (int i) (rp_result (pt_server s) i)) \<and>
    (\<exists>q. pt_server u = (pt_server s)\<lparr>rp_static := q\<rparr>) \<and> pt_main u = pt_main s \<and> pt_alive u \<and>
    rq_result (pt_static u) = rp_result (pt_server s) i"
proof -
  let ?c = "rp_result (pt_server s) i"
  let ?q = "(rp_static (pt_server s))\<lparr>rq_idx := int i, rq_result := ?c\<rparr>"
  let ?a = "pt_goto t (PtCalling (Some (int i))) (s\<lparr>pt_static := pt_zero\<rparr>)"
  let ?b = "pt_goto t (PtClock (int i)) (?a\<lparr>pt_server := (pt_server s)\<lparr>rp_static := ?q\<rparr>, pt_static := ?q\<rparr>)"
  have i: "is_c_int (int i)" using assms(6) by (simp add: MAX_CNT_CLNT_def is_c_int_def INT_MIN_def INT_MAX_def)
  have alive: "pt_alive (s\<lparr>pt_static := q\<rparr>)" "pt_alive (s\<lparr>pt_server := v, pt_static := q\<rparr>)" for q v
    using assms(3) by (simp_all add: pt_alive_def)
  have 1: "run (pt_exec X rnd) s [PtStep t True, PtStep t True] = Some ?a"
    using assms(3-5) alive by (simp add: pt_step_def)
  have 2: "pt_exec X rnd ?a (PtSend t Delivered True) = Some ?b"
    using pt_answered [OF assms(1), of ?a t "Some (int i)" True rnd] assms(2,7) alive(1) i
    by (simp add: pt_service_poll [OF assms(6)] Let_def)
  have 3: "run (pt_exec X rnd) ?b [PtStep t False, PtStep t True, PtStep t True] =
      Some (pt_goto t (PtPrinted (int i) ?c) ?b)"
    using assms(7) alive by (simp add: pt_step_def is_lower_def) (simp add: pt_goto_def pt_alive_def)
  from run_chain [OF 1 run_one [OF 2 3]] have "run (pt_exec X rnd) s [PtStep t True, PtStep t True,
      PtSend t Delivered True, PtStep t False, PtStep t True, PtStep t True] = Some (pt_goto t (PtPrinted (int i) ?c) ?b)"
    by simp
  moreover have "pt_alive (pt_goto t (PtPrinted (int i) ?c) ?b)" using assms(3) by (simp add: pt_alive_def)
  ultimately show ?thesis
    by (intro exI [of _ "pt_goto t (PtPrinted (int i) ?c) ?b"]) (auto simp del: run.simps)
qed


subsection \<open>Two threads and one static answer\<close>

text \<open>The first calls of two threads, the second of which is answered before the first one reads its answer.\<close>

definition pt_overlap :: "pt_event list" where
  "pt_overlap =
     [PtMain True True, PtMain True True, PtStep 0 True, PtStep 0 True, PtStep 1 True, PtStep 1 True,
      PtSend 0 Delivered True, PtSend 1 Delivered True, PtStep 0 True, PtStep 1 True]"

lemma pt_overlap_run:
  assumes "xdr_ok X" and "c_rem (rnd 1) 2 = 0"
  shows "\<exists>s. run (pt_exec X rnd) pt_start pt_overlap = Some s \<and> pt_phase s 0 = PtTest 1 \<and> pt_phase s 1 = PtTest 1 \<and>
    rq_result (pt_static s) = 45 \<and> pt_alive s \<and> rp_fits (pt_server s) \<and> rp_idx (pt_server s) = 2 \<and>
    rp_sems (pt_server s) = [29, 0, 1] \<and> rp_buffer (pt_server s) = rp_buf0 \<and> rp_role (pt_server s) 1 \<and>
    rp_phase (pt_server s) 1 = TLock \<and> rp_result (pt_server s) = (\<lambda>_. 0) \<and> rp_ins (pt_server s) = []"
proof -
  let ?s0 = "pt_start\<lparr>pt_main := PmCreate 2, pt_created := (\<lambda>_. False)(0 := True, 1 := True),
      pt_phase := (\<lambda>_. PtNone)(0 := PtCalling None, 1 := PtCalling None)\<rparr>"
  have 1: "run (pt_exec X rnd) pt_start [PtMain True True, PtMain True True, PtStep 0 True, PtStep 0 True,
      PtStep 1 True, PtStep 1 True] = Some ?s0"
    by (simp add: pt_start_def pt_alive_def pt_main_step_def pt_step_def pt_goto_def COUNT_CLIENTS_def fun_upd_twist
        numeral_2_eq_2)
  have fits: "rp_fits rp_init" by (rule rp_init_fits)
  obtain u q where u: "rp_service True (pt_arg (rnd 0) None) rp_init = Some (u, Some q)"
    "u = rp_goto 0 TLock (rp_init\<lparr>rp_static := q, rp_idx := 1, rp_role := (rp_role rp_init)(0 := pt_role (rnd 0))\<rparr>)"
    "q = (rp_static rp_init)\<lparr>rq_result := 45, rq_idx := 0\<rparr>"
    using pt_service_first [of "rnd 0" rp_init] by (auto simp: rp_init_eq rp_start_def)
  have fu: "rp_fits u" using fits by (simp add: u rp_init_eq rp_start_def rp_fits_def rq_ok_def is_c_char_def is_c_int_def INT_MIN_def INT_MAX_def)
  let ?s1 = "pt_goto 0 PtIndex (?s0\<lparr>pt_server := u, pt_static := q\<rparr>)"
  have 2: "pt_exec X rnd ?s0 (PtSend 0 Delivered True) = Some ?s1"
    using pt_answered [OF assms(1), of ?s0 0 None True rnd u q] u(1) fits
    by (simp add: pt_start_def pt_alive_def is_c_int_def INT_MIN_def INT_MAX_def)
  obtain v r where v: "rp_service True (pt_arg (rnd 1) None) u = Some (v, Some r)"
    "v = rp_goto 1 TLock (u\<lparr>rp_static := r, rp_idx := 2, rp_role := (rp_role u)(1 := pt_role (rnd 1))\<rparr>)"
    "r = q\<lparr>rq_idx := 1\<rparr>"
    using pt_service_first [of "rnd 1" u] by (auto simp: u(2,3) numeral_2_eq_2)
  have fv: "rp_fits v" using fu by (simp add: v u(3) rp_init_eq rp_start_def rp_fits_def rq_ok_def is_c_char_def is_c_int_def INT_MIN_def INT_MAX_def)
  let ?s2 = "pt_goto 1 PtIndex (?s1\<lparr>pt_server := v, pt_static := r\<rparr>)"
  have 3: "pt_exec X rnd ?s1 (PtSend 1 Delivered True) = Some ?s2"
    using pt_answered [OF assms(1), of ?s1 1 None True rnd v r] v(1) fu
    by (simp add: pt_start_def pt_alive_def is_c_int_def INT_MIN_def INT_MAX_def)
  have 4: "run (pt_exec X rnd) ?s2 [PtStep 0 True, PtStep 1 True] = Some (pt_goto 1 (PtTest 1) (pt_goto 0 (PtTest 1) ?s2))"
    by (simp add: pt_step_def v(3)) (simp add: pt_start_def pt_alive_def)
  from run_chain [OF 1 run_one [OF 2 run_one [OF 3 4]]]
  have "run (pt_exec X rnd) pt_start pt_overlap = Some (pt_goto 1 (PtTest 1) (pt_goto 0 (PtTest 1) ?s2))"
    by (simp add: pt_overlap_def)
  then show ?thesis
    by (intro exI conjI, assumption)
      (use fv assms(2) in \<open>simp_all add: pt_start_def pt_alive_def v u pt_role_def rp_init_eq rp_start_def\<close>)
qed

lemma pt_server_run:
  "run rp_exec (pt_server s) (map Run js) = Some u \<Longrightarrow>
     run (pt_exec X rnd) s (map PtServer js) = Some (s\<lparr>pt_server := u\<rparr>)"
proof (induction js arbitrary: s)
  case (Cons j js)
  then obtain v where v: "rp_exec (pt_server s) (Run j) = Some v" "run rp_exec v (map Run js) = Some u"
    by (auto split: option.splits)
  from Cons.IH [of "s\<lparr>pt_server := v\<rparr>"] v show ?case by simp
qed simp

text \<open>The turn of a producer thread on a fresh ring.\<close>

lemma rp_first_letter:
  assumes "rp_sems s = [29, 0, 1]" and "rp_buffer s = rp_buf0" and "rp_role s j" and "rp_phase s j = TLock"
    and "rp_result s = (\<lambda>_. 0)" and "rp_ins s = []" and "j < MAX_CNT_CLNT"
  shows "\<exists>u. run rp_exec s (map Run [j, j, j, j, j, j]) = Some u \<and> rp_result u = (\<lambda>_. 0)(j := 97) \<and>
    rp_ins u = [97] \<and> rp_static u = rp_static s \<and> rp_idx u = rp_idx s"
proof -
  have c: "c_rem 0 26 = 0" "c_rem 1 26 = 1" by (simp_all add: c_rem_nonneg)
  have r: "semop rp_producer_release [28, 0, 0] = Done [28, 1, 1]" "semop rp_producer_lock [29, 0, 1] = Done [28, 0, 0]"
    using rp_semop_eval(1) [of 29 0 1] rp_semop_release [of 28 0]
    by (simp_all add: rp_lock_ops_def rp_release_ops_def SEMVMX_def)
  show ?thesis
    using assms by (simp add: rp_lock_ops_def rp_release_ops_def r rp_sid_def rp_buf0_def BUFFER_SIZE_def c Let_def)
qed


subsection \<open>What the server has stored for a client\<close>

fun rp_published :: "rp_phase \<Rightarrow> bool" where
  "rp_published PPublished = True"
| "rp_published PBumped = True"
| "rp_published (CPublished _) = True"
| "rp_published CCleared = True"
| "rp_published TRelease = True"
| "rp_published TDone = True"
| "rp_published TFailed = True"
| "rp_published _ = False"

definition rp_stable :: "rp_sys \<Rightarrow> bool" where
  "rp_stable s \<longleftrightarrow> rp_inv s \<and> (\<forall>k. rp_result s k \<noteq> 0 \<longrightarrow> rp_published (rp_phase s k))"

lemma rp_thread_result:
  assumes "rp_thread s j = Some u"
  shows "rp_result u = (rp_result s)(j := rp_result u j) \<and> (rp_published (rp_phase s j) \<longrightarrow> rp_result u j = rp_result s j) \<and>
    (rp_published (rp_phase s j) \<or> rp_result u j \<noteq> rp_result s j \<longrightarrow> rp_published (rp_phase u j))"
  using assms
  by (cases "rp_phase s j"; cases "rp_role s j") (auto simp: Let_def split: semresult.splits if_splits)

text \<open>A letter that the server has stored for a client stays.\<close>

lemma rp_stable_run:
  assumes "rp_stable s" and "rp_thread s j = Some u"
  shows "rp_stable u \<and> (\<forall>k. rp_result s k \<noteq> 0 \<longrightarrow> rp_result u k = rp_result s k)"
proof -
  note r = rp_thread_result [OF assms(2)]
  have ph: "rp_phase u = (rp_phase s)(j := rp_phase u j)" using rp_thread_frame [OF assms(2)] by blast
  have inv: "rp_inv u" using assms rp.inv_exec [of s "Run j" u] by (simp add: rp_stable_def)
  have pub: "rp_published (rp_phase s k)" if "rp_result s k \<noteq> 0" for k using that assms(1) by (simp add: rp_stable_def)
  have "rp_published (rp_phase u k) \<and> rp_result u k = rp_result s k" if "rp_result s k \<noteq> 0" for k
    using r pub [OF that] ph by (cases "k = j") (metis, metis fun_upd_other)
  moreover have "rp_published (rp_phase u k)" if "rp_result u k \<noteq> 0" for k
    using that r pub [of k] ph by (cases "k = j") (metis, metis fun_upd_other)
  ultimately show ?thesis using inv by (simp add: rp_stable_def)
qed

lemma rp_stable_call:
  assumes "rp_stable s" and "rp_service m a s = Some (t, r)"
  shows "rp_stable t \<and> rp_result t = rp_result s \<and> rp_idx s \<le> rp_idx t"
proof -
  have inv: "rp_inv s" "rp_inv t" using assms rp_inv_call by (auto simp: rp_stable_def)
  have idle: "rp_phase s (rp_idx s) = TIdle" using inv(1) by (simp add: rp_inv_def)
  from assms(2) show ?thesis
  proof (cases rule: rp_service_effect)
    case poll
    then show ?thesis using assms(1) inv by (simp add: rp_stable_def)
  next
    case (connect p q)
    have "rp_result s (rp_idx s) = 0" using assms(1) idle by (fastforce simp: rp_stable_def)
    then show ?thesis using connect assms(1) inv by (auto simp: rp_stable_def)
  qed
qed


subsection \<open>Invariant of the client process\<close>

fun pt_index :: "pt_phase \<Rightarrow> int option" where
  "pt_index (PtClear k) = k"
| "pt_index (PtCalling k) = k"
| "pt_index (PtTest i) = Some i"
| "pt_index (PtClock i) = Some i"
| "pt_index (PtResult i) = Some i"
| "pt_index _ = None"

definition pt_inv :: "pt_sys \<Rightarrow> bool" where
  "pt_inv s \<longleftrightarrow> rp_stable (pt_server s) \<and> rp_typed (pt_server s) \<and> rq_ok (pt_static s) \<and>
     (\<forall>t i. pt_index (pt_phase s t) = Some i \<longrightarrow> is_c_int i)"

definition pt_small :: "pt_sys \<Rightarrow> bool" where
  "pt_small s \<longleftrightarrow> int (rp_idx (pt_server s)) \<le> INT_MAX"

lemma pt_fits: "pt_inv s \<Longrightarrow> pt_small s \<Longrightarrow> rp_fits (pt_server s)"
  by (simp add: pt_inv_def pt_small_def rp_typed_def rp_fits_def is_c_int_def INT_MIN_def)

text \<open>Events of a thread are of these kinds; a transmission is lost, or runs the service routine.\<close>

lemma pt_send_cases:
  assumes X: "xdr_ok X" and inv: "pt_inv s" and small: "pt_small s" and ex: "pt_exec X rnd s (PtSend t d m) = Some u"
  obtains (lost) "u = s"
  | (run) k v r where "pt_phase s t = PtCalling k" "rp_service m (pt_arg (rnd t) k) (pt_server s) = Some (v, r)"
      "u = (case (d, r) of
          (Delivered, Some q) \<Rightarrow> pt_goto t (case k of None \<Rightarrow> PtIndex | Some idx \<Rightarrow> PtClock idx)
            (s\<lparr>pt_server := v, pt_static := q\<rparr>)
        | _ \<Rightarrow> s\<lparr>pt_server := v\<rparr>)"
proof -
  obtain k where k: "pt_phase s t = PtCalling k" using ex by (auto split: pt_phase.splits)
  let ?a = "pt_arg (rnd t) k"
  have "is_c_int i" if "k = Some i" for i using inv k that unfolding pt_inv_def by (metis pt_index.simps(2))
  then have "is_c_int (case k of None \<Rightarrow> - 1 | Some idx \<Rightarrow> idx)"
    by (cases k) (simp_all add: is_c_int_def INT_MIN_def INT_MAX_def)
  then have a: "rq_ok ?a" by (rule pt_arg_ok)
  obtain v p where v: "clnt_stub (rq_put X) (rq_get X) (network (prodcons_dispatch X m io_ok) [(Some, d)]) SERVICE ?a
      (pt_server s) = Some (v, p)"
    and u: "u = (case p of None \<Rightarrow> s\<lparr>pt_server := v\<rparr>
      | Some q \<Rightarrow> pt_goto t (case k of None \<Rightarrow> PtIndex | Some idx \<Rightarrow> PtClock idx) (s\<lparr>pt_server := v, pt_static := q\<rparr>))"
    using ex k by (auto simp: service_1_def split: option.splits if_splits)
  show thesis
  proof (rule one_transmission [where server = "prodcons_dispatch X m io_ok" and put = "rq_put X" and get = "rq_get X"
        and a = ?a and proc = "rp_service m" and put' = "rq_put X", OF prodcons_server rq_round_trip [OF X a] _ v])
    show "rq_get X (rq_put X x) = Some (x, [])" if "rp_service m ?a (pt_server s) = Some (w, Some x)" for w x
      by (rule rq_round_trip [OF X rp_service_fits [OF that pt_fits [OF inv small] a]])
  next
    assume "v = pt_server s" "p = None"
    then show thesis using u lost by simp
  next
    fix r
    assume "rp_service m ?a (pt_server s) = Some (v, r)" "p = (if d = Delivered then r else None)"
    then show thesis using u k run [of k v r] by (cases d; cases r) simp_all
  qed
qed


lemma pt_arg_sent:
  assumes "pt_inv s" and "pt_phase s t = PtCalling k"
  shows "rq_ok (pt_arg r k)"
proof -
  have "is_c_int i" if "k = Some i" for i using assms that unfolding pt_inv_def by (metis pt_index.simps(2))
  then show ?thesis by (intro pt_arg_ok) (cases k, simp_all add: is_c_int_def INT_MIN_def INT_MAX_def)
qed

lemma pt_inv_move:
  assumes "pt_inv s" and "pt_server u = pt_server s" and "rq_ok (pt_static u)"
    and "pt_phase u = (pt_phase s)(t := ph)" and "\<And>i. pt_index ph = Some i \<Longrightarrow> is_c_int i"
  shows "pt_inv u"
  using assms by (auto simp: pt_inv_def)

lemma pt_step_inv:
  assumes "pt_inv s" and "pt_step t ok s = Some u"
  shows "pt_inv u \<and> pt_server u = pt_server s"
proof -
  have idx: "is_c_int i" if "pt_index (pt_phase s t) = Some i" for i
    using assms(1) that by (auto simp: pt_inv_def)
  have z: "rq_ok pt_zero" by (simp add: pt_zero_def rq_ok_def is_c_char_def is_c_int_def INT_MIN_def INT_MAX_def)
  have st: "rq_ok (pt_static s)" using assms(1) by (simp add: pt_inv_def)
  then have si: "is_c_int (rq_idx (pt_static s))" by (simp add: rq_ok_def)
  have "pt_phase u = (pt_phase s)(t := pt_phase u t) \<and> pt_server u = pt_server s \<and> rq_ok (pt_static u) \<and>
      (\<forall>i. pt_index (pt_phase u t) = Some i \<longrightarrow> is_c_int i)"
    using assms(2) st si z idx by (cases "pt_phase s t") (auto simp: pt_step_def split: if_splits)
  then show ?thesis using pt_inv_move [OF assms(1), of u t "pt_phase u t"] by blast
qed

lemma pt_service_inv:
  assumes "pt_inv s" and "pt_small s" and "pt_phase s t = PtCalling k"
    and "rp_service m (pt_arg r k) (pt_server s) = Some (v, q)"
  shows "pt_inv (s\<lparr>pt_server := v\<rparr>) \<and> (\<forall>x. q = Some x \<longrightarrow> rq_ok x)"
proof -
  have a: "rq_ok (pt_arg r k)" by (rule pt_arg_sent [OF assms(1,3)])
  have "is_c_int (int (rp_idx (pt_server s)))" using assms(2) by (simp add: pt_small_def is_c_int_def INT_MIN_def)
  then have "rp_typed v" using rp_typed_call [OF _ a _ assms(4)] assms(1) by (simp add: pt_inv_def)
  moreover have "rp_stable v" using rp_stable_call [OF _ assms(4)] assms(1) by (simp add: pt_inv_def)
  moreover have "rq_ok x" if "q = Some x" for x
    using rp_service_fits [of m "pt_arg r k" "pt_server s" v x] assms(4) a pt_fits [OF assms(1,2)] that by simp
  ultimately show ?thesis using assms(1) by (simp add: pt_inv_def)
qed

lemma pt_inv_exec:
  assumes X: "xdr_ok X" and inv: "pt_inv s" and small: "pt_small s" and ex: "pt_exec X rnd s e = Some u"
  shows "pt_inv u \<and> rp_idx (pt_server s) \<le> rp_idx (pt_server u) \<and>
    (\<forall>k. rp_result (pt_server s) k \<noteq> 0 \<longrightarrow> rp_result (pt_server u) k = rp_result (pt_server s) k)"
proof (cases e)
  case (PtMain m c)
  then have "pt_server u = pt_server s \<and> pt_static u = pt_static s \<and>
      (pt_phase u = pt_phase s \<or> (\<exists>i. pt_phase u = (pt_phase s)(i := PtCreate)))"
    using ex by (auto simp: pt_main_step_def Let_def split: if_splits pt_main.splits)
  then show ?thesis using inv by (auto simp: pt_inv_def split: if_splits)
next
  case (PtStep t ok)
  then show ?thesis using pt_step_inv [OF inv] ex by (auto split: if_splits)
next
  case (PtTimeUp t)
  then have "pt_server u = pt_server s \<and> pt_static u = pt_static s \<and>
      (pt_phase u = pt_phase s \<or> pt_phase u = (pt_phase s)(t := PtGone))"
    using ex by (auto split: if_splits pt_phase.splits option.splits)
  then show ?thesis using inv by (auto simp: pt_inv_def split: if_splits)
next
  case (PtServer j)
  then obtain v where v: "rp_thread (pt_server s) j = Some v" "u = s\<lparr>pt_server := v\<rparr>" using ex by auto
  have "rp_typed v" using rp_typed_thread [OF _ _ v(1)] inv by (simp add: pt_inv_def rp_stable_def)
  moreover have "rp_idx v = rp_idx (pt_server s)" using rp_thread_frame [OF v(1)] by blast
  ultimately show ?thesis using rp_stable_run [OF _ v(1)] inv v(2) by (simp add: pt_inv_def)
next
  case (PtSend t d m)
  from X inv small ex [unfolded PtSend] show ?thesis
  proof (cases rule: pt_send_cases)
    case lost
    then show ?thesis using inv by simp
  next
    case (run k v r)
    note sv = pt_service_inv [OF inv small run(1,2)]
    have st: "rp_result v = rp_result (pt_server s)" "rp_idx (pt_server s) \<le> rp_idx v"
      using rp_stable_call [OF _ run(2)] inv by (auto simp: pt_inv_def)
    have idx: "is_c_int i" if "k = Some i" for i using inv run(1) that unfolding pt_inv_def by (metis pt_index.simps(2))
    have "pt_inv (pt_goto t (case k of None \<Rightarrow> PtIndex | Some idx \<Rightarrow> PtClock idx) (s\<lparr>pt_server := v, pt_static := q\<rparr>))"
      if "r = Some q" for q
      using pt_inv_move [of "s\<lparr>pt_server := v\<rparr>"] sv that idx by (cases k) (simp_all add: pt_inv_def)
    then show ?thesis using run(3) st sv by (cases d; cases r) simp_all
  qed
qed


subsection \<open>A thread that is not disturbed\<close>

text \<open>
  The index \<open>i\<close> was given out from \<open>n0\<close> on, and \<open>c\<close> is a dash or the letter that the server has stored for it.
\<close>

definition pt_cell :: "nat \<Rightarrow> rp_sys \<Rightarrow> int \<Rightarrow> int \<Rightarrow> bool" where
  "pt_cell n0 s i c \<longleftrightarrow>
     (\<exists>k. i = int k \<and> n0 \<le> k \<and> k < rp_idx s \<and> (c = 45 \<or> is_lower c \<and> rp_result s k = c))"

lemma pt_cell_mono:
  "pt_cell n0 s i c \<Longrightarrow> rp_idx s \<le> rp_idx u \<Longrightarrow> (\<forall>k. rp_result s k \<noteq> 0 \<longrightarrow> rp_result u k = rp_result s k) \<Longrightarrow>
     pt_cell n0 u i c"
  by (fastforce simp: pt_cell_def is_lower_def)

fun pt_own :: "nat \<Rightarrow> rp_sys \<Rightarrow> rp_request \<Rightarrow> pt_phase \<Rightarrow> bool" where
  "pt_own n0 s r (PtClear None) = True"
| "pt_own n0 s r (PtCalling None) = True"
| "pt_own n0 s r PtGone = True"
| "pt_own n0 s r PtIndex = (pt_cell n0 s (rq_idx r) 45 \<and> rq_result r = 45)"
| "pt_own n0 s r (PtTest i) = pt_cell n0 s i (rq_result r)"
| "pt_own n0 s r (PtClock i) = pt_cell n0 s i (rq_result r)"
| "pt_own n0 s r (PtResult i) = pt_cell n0 s i (rq_result r)"
| "pt_own n0 s r (PtClear (Some i)) = pt_cell n0 s i 45"
| "pt_own n0 s r (PtCalling (Some i)) = pt_cell n0 s i 45"
| "pt_own n0 s r (PtPrinted i c) = pt_cell n0 s i c"
| "pt_own n0 s r _ = False"

lemma pt_own_mono:
  assumes "pt_own n0 s r ph" and "rp_idx s \<le> rp_idx u"
    and "\<forall>k. rp_result s k \<noteq> 0 \<longrightarrow> rp_result u k = rp_result s k"
  shows "pt_own n0 u r ph"
  using assms(1) pt_cell_mono [OF _ assms(2,3)] by (cases "(n0, s, r, ph)" rule: pt_own.cases) auto

text \<open>The events in which no other thread of the client takes part.\<close>

fun pt_mine :: "nat \<Rightarrow> pt_event \<Rightarrow> bool" where
  "pt_mine t (PtStep u _) = (u = t)"
| "pt_mine t (PtSend u _ _) = (u = t)"
| "pt_mine t (PtTimeUp u) = (u = t)"
| "pt_mine t (PtServer _) = True"
| "pt_mine t (PtMain _ _) = False"

lemma pt_own_service:
  assumes "rp_service m (pt_arg r k) s = Some (v, Some q)" and "n0 \<le> rp_idx s"
    and "\<And>i. k = Some i \<Longrightarrow> pt_cell n0 s i 45"
  shows "pt_own n0 v q (case k of None \<Rightarrow> PtIndex | Some i \<Rightarrow> PtClock i)"
proof (cases k)
  case None
  then show ?thesis using assms(1,2)
    by (auto simp: rp_service_def pt_arg_def rp_request_of_def Let_def rp_goto_def pt_cell_def split: if_splits)
next
  case (Some i)
  then obtain j where j: "i = int j" "n0 \<le> j" "j < rp_idx s" using assms(3) by (auto simp: pt_cell_def)
  then show ?thesis using assms(1) Some
    by (auto simp: rp_service_def pt_arg_def rp_request_of_def Let_def pt_cell_def split: if_splits)
qed

lemma pt_own_clear: "pt_own n0 s q (PtCalling k) = pt_own n0 s r (PtClear k)"
  by (cases k) simp_all

lemma pt_own_step:
  "pt_step t ok s = Some u \<Longrightarrow> pt_own n0 (pt_server s) (pt_static s) (pt_phase s t) \<Longrightarrow>
     pt_own n0 (pt_server u) (pt_static u) (pt_phase u t)"
  by (cases "pt_phase s t")
    (auto simp: pt_step_def pt_cell_def is_lower_def pt_own_clear [of n0 _ pt_zero _ "pt_static s"] split: if_splits)

lemma pt_own_exec:
  assumes X: "xdr_ok X" and inv: "pt_inv s" and small: "pt_small s" and own: "pt_own n0 (pt_server s) (pt_static s) (pt_phase s t)"
    and n0: "n0 \<le> rp_idx (pt_server s)" and mine: "pt_mine t e" and ex: "pt_exec X rnd s e = Some u"
  shows "pt_own n0 (pt_server u) (pt_static u) (pt_phase u t)"
proof (cases e)
  case (PtMain m c)
  then show ?thesis using mine by simp
next
  case (PtStep v ok)
  then show ?thesis using pt_own_step [OF _ own] ex mine by (auto split: if_splits)
next
  case (PtTimeUp v)
  then show ?thesis using ex mine own by (auto split: if_splits pt_phase.splits option.splits)
next
  case (PtServer j)
  then have "pt_static u = pt_static s" "pt_phase u = pt_phase s" using ex by auto
  with pt_own_mono [OF own] pt_inv_exec [OF X inv small ex] show ?thesis by simp
next
  case (PtSend v d m)
  then have vt: "v = t" using mine by simp
  from X inv small ex [unfolded PtSend] show ?thesis
  proof (cases rule: pt_send_cases)
    case lost
    then show ?thesis using own by simp
  next
    case (run k w r)
    have cell: "pt_cell n0 (pt_server s) i 45" if "k = Some i" for i using own run(1) vt that by simp
    have "pt_own n0 (pt_server u) (pt_static s) (pt_phase s t)"
      using pt_own_mono [OF own] pt_inv_exec [OF X inv small ex] by blast
    moreover have "pt_own n0 w q (case k of None \<Rightarrow> PtIndex | Some i \<Rightarrow> PtClock i)" if "r = Some q" for q
      by (rule pt_own_service [OF run(2) [unfolded that] n0 cell])
    ultimately show ?thesis using run(3) vt by (cases d; cases r) simp_all
  qed
qed

lemma pt_idx_mono:
  "pt_exec X rnd s e = Some u \<Longrightarrow> rp_idx (pt_server s) \<le> rp_idx (pt_server u)"
proof (cases e)
  case (PtSend t d m)
  assume "pt_exec X rnd s e = Some u"
  have mono: "rp_idx (pt_server s) \<le> rp_idx v" if "rp_service m a (pt_server s) = Some (v, r)" for a v r
    using that by (auto simp: rp_service_def rp_goto_def Let_def split: if_splits)
  have sent: "rp_idx (pt_server s) \<le> rp_idx v"
    if "service_1 X (network (prodcons_dispatch X m io_ok) [(Some, d)]) a (pt_server s) = Some (v, p)" for a v p
    using that mono
    by (fastforce simp: service_1_def clnt_stub_def prodcons_server svc_call_def split: option.splits if_splits prod.splits)
  show ?thesis using \<open>pt_exec X rnd s e = Some u\<close> PtSend
    by (auto dest!: sent split: pt_phase.splits option.splits if_splits)
next
  case (PtServer j)
  assume "pt_exec X rnd s e = Some u"
  then obtain v where "rp_thread (pt_server s) j = Some v" "u = s\<lparr>pt_server := v\<rparr>" using PtServer by auto
  then show ?thesis using rp_thread_frame by fastforce
qed (auto simp: pt_main_step_def pt_step_def Let_def split: if_splits pt_main.splits pt_phase.splits option.splits)

lemma pt_small_run: "run (pt_exec X rnd) s es = Some u \<Longrightarrow> pt_small u \<Longrightarrow> pt_small s"
proof (induction es arbitrary: s)
  case (Cons e es)
  then obtain v where v: "pt_exec X rnd s e = Some v" "run (pt_exec X rnd) v es = Some u"
    by (auto split: option.splits)
  from Cons.IH [OF v(2) Cons.prems(2)] pt_idx_mono [OF v(1)] show ?case by (simp add: pt_small_def)
qed simp

lemma pt_inv_run:
  "run (pt_exec X rnd) s es = Some u \<Longrightarrow> xdr_ok X \<Longrightarrow> pt_inv s \<Longrightarrow> pt_small u \<Longrightarrow> pt_inv u"
proof (induction es arbitrary: s)
  case (Cons e es)
  then obtain v where v: "pt_exec X rnd s e = Some v" "run (pt_exec X rnd) v es = Some u"
    by (auto split: option.splits)
  have "pt_small s" by (rule pt_small_run [OF Cons.prems(1,4)])
  from pt_inv_exec [OF Cons.prems(2,3) this v(1)] Cons.IH [OF v(2) Cons.prems(2) _ Cons.prems(4)] show ?case by blast
qed simp

lemma pt_inv_start: "pt_inv pt_start"
proof -
  have "rp_stable rp_init" using rp_inv_init by (simp add: rp_stable_def rp_init_eq)
  then show ?thesis
    using rp_typed_init
    by (simp add: pt_inv_def pt_start_def pt_zero_def rq_ok_def is_c_char_def is_c_int_def INT_MIN_def INT_MAX_def)
qed

lemma pt_own_run:
  "run (pt_exec X rnd) s es = Some u \<Longrightarrow> xdr_ok X \<Longrightarrow> pt_inv s \<Longrightarrow>
     pt_own n0 (pt_server s) (pt_static s) (pt_phase s t) \<Longrightarrow> n0 \<le> rp_idx (pt_server s) \<Longrightarrow>
     \<forall>e \<in> set es. pt_mine t e \<Longrightarrow> pt_small u \<Longrightarrow> pt_own n0 (pt_server u) (pt_static u) (pt_phase u t)"
proof (induction es arbitrary: s)
  case (Cons e es)
  then obtain v where v: "pt_exec X rnd s e = Some v" "run (pt_exec X rnd) v es = Some u"
    by (auto split: option.splits)
  have small: "pt_small s" by (rule pt_small_run [OF Cons.prems(1,7)])
  have "pt_own n0 (pt_server v) (pt_static v) (pt_phase v t)"
    by (rule pt_own_exec [OF Cons.prems(2,3) small Cons.prems(4,5) _ v(1)]) (use Cons.prems(6) in simp)
  from Cons.IH [OF v(2) Cons.prems(2) _ this _ _ Cons.prems(7)] pt_inv_exec [OF Cons.prems(2,3) small v(1)] Cons.prems(5,6)
  show ?case by simp
qed simp

text \<open>Thread \<open>i\<close> was not created, and \<^verbatim>\<open>main\<close> is past its creation and has not joined it.\<close>

definition pt_missing :: "nat \<Rightarrow> pt_sys \<Rightarrow> bool" where
  "pt_missing i s \<longleftrightarrow> \<not> pt_created s i \<and>
     (case pt_main s of PmCreate j \<Rightarrow> i < j | PmJoin j \<Rightarrow> j \<le> i | PmEnd n \<Rightarrow> n = 1 | PmUndefined \<Rightarrow> True)"

lemma pt_missing_exec:
  assumes "pt_missing i s" and "i < COUNT_CLIENTS"
    and "pt_exec X rnd s e = Some u"
  shows "pt_missing i u"
proof (cases e)
  case (PtMain m c)
  then show ?thesis using assms
    by (auto simp: pt_missing_def pt_main_step_def Let_def le_less split: pt_main.splits if_splits)
next
  case (PtStep t ok)
  then have "pt_created u = pt_created s \<and> pt_main u = pt_main s"
    using assms(3) by (auto simp: pt_step_def split: if_splits pt_phase.splits)
  then show ?thesis using assms by (simp add: pt_missing_def)
next
  case (PtSend t d m)
  then have "pt_created u = pt_created s \<and> pt_main u = pt_main s"
    using assms(3) by (auto split: if_splits pt_phase.splits option.splits prod.splits)
  then show ?thesis using assms by (simp add: pt_missing_def)
next
  case (PtTimeUp t)
  then have "pt_created u = pt_created s \<and> pt_main u = pt_main s"
    using assms(3) by (auto split: if_splits pt_phase.splits option.splits)
  then show ?thesis using assms by (simp add: pt_missing_def)
next
  case (PtServer j)
  then show ?thesis using assms by (auto simp: pt_missing_def simp del: rp_thread.simps)
qed

subsection \<open>Properties of the client's threads\<close>

text \<open>The threads of the client share the static answer of their stub: two threads can take the same index, so that nobody
  asks for the other one, and both report the one letter that the server has stored.\<close>

theorem pt_shared_answer:
  assumes "xdr_ok X" and "c_rem (rnd 1) 2 = 0"
  shows "\<exists>s. reach (pt_exec X rnd) pt_start s \<and> pt_phase s 0 = PtPrinted 1 97 \<and> pt_phase s 1 = PtPrinted 1 97 \<and>
    rp_idx (pt_server s) = 2 \<and> rp_ins (pt_server s) = [97]"
proof -
  obtain s where s: "run (pt_exec X rnd) pt_start pt_overlap = Some s" "pt_phase s 0 = PtTest 1"
      "pt_phase s 1 = PtTest 1" "rq_result (pt_static s) = 45" "pt_alive s" "rp_fits (pt_server s)"
    and v: "rp_idx (pt_server s) = 2" "rp_sems (pt_server s) = [29, 0, 1]" "rp_buffer (pt_server s) = rp_buf0"
      "rp_role (pt_server s) 1" "rp_phase (pt_server s) 1 = TLock" "rp_result (pt_server s) = (\<lambda>_. 0)"
      "rp_ins (pt_server s) = []"
    using pt_overlap_run [OF assms(1), of rnd] assms(2) by blast
  obtain u where u: "run rp_exec (pt_server s) (map Run [1, 1, 1, 1, 1, 1]) = Some u" "rp_result u = (\<lambda>_. 0)(1 := 97)"
      "rp_ins u = [97]" "rp_static u = rp_static (pt_server s)" "rp_idx u = 2"
    using rp_first_letter [OF v(2-7)] v(1) by (auto simp: MAX_CNT_CLNT_def)
  have fits: "rp_fits u" using s(6) by (simp add: rp_fits_def u(2,4,5) v(1) is_c_char_def)
  let ?t = "s\<lparr>pt_server := u\<rparr>"
  have t: "run (pt_exec X rnd) s (map PtServer [1, 1, 1, 1, 1, 1]) = Some ?t" by (rule pt_server_run [OF u(1)])
  have alive: "pt_alive ?t" using s(5) by (simp add: pt_alive_def)
  obtain w q where w: "run (pt_exec X rnd) ?t [PtStep 0 True, PtStep 0 True, PtSend 0 Delivered True, PtStep 0 False,
      PtStep 0 True, PtStep 0 True] = Some w" "pt_phase w = (pt_phase s)(0 := PtPrinted 1 97)"
      "pt_server w = u\<lparr>rp_static := q\<rparr>" "pt_alive w" "rq_result (pt_static w) = 97"
    using pt_poll_prints [OF assms(1), of ?t 0 1 rnd] fits alive s(2,4) u(2)
    by (auto simp: MAX_CNT_CLNT_def is_lower_def)
  have "run (pt_exec X rnd) w [PtStep 1 True, PtStep 1 True] = Some (pt_goto 1 (PtPrinted 1 97) w)"
    using w(2,4,5) s(3) by (simp add: pt_step_def is_lower_def)
  from run_chain [OF s(1) run_chain [OF t run_chain [OF w(1) this]]]
  have "reach (pt_exec X rnd) pt_start (pt_goto 1 (PtPrinted 1 97) w)" by (rule run_reach_init)
  then show ?thesis
    by (intro exI conjI, assumption) (use w(2,3) u(3,5) in simp_all)
qed

theorem pt_shared_answer_witness:
  "\<exists>s. reach (pt_exec xdr32 (\<lambda>_. 0)) pt_start s \<and> pt_phase s 0 = PtPrinted 1 97 \<and> pt_phase s 1 = PtPrinted 1 97"
  using pt_shared_answer [OF xdr32_ok, of "\<lambda>_. 0"] by (auto simp: c_rem_nonneg)

text \<open>While the other threads of the client do not touch the static answer, a thread reports what the server has for it: its
  index is one that was given out to its own call, and its character is a dash or the letter stored under that index.\<close>

theorem pt_undisturbed:
  assumes "xdr_ok X" and "run (pt_exec X rnd) pt_start es = Some s" and "pt_phase s t = PtClear None"
    and "run (pt_exec X rnd) s fs = Some u" and "\<forall>e \<in> set fs. pt_mine t e"
    and "int (rp_idx (pt_server u)) \<le> INT_MAX" and "pt_phase u t = PtPrinted i c"
  shows "\<exists>k. i = int k \<and> rp_idx (pt_server s) \<le> k \<and> k < rp_idx (pt_server u) \<and>
    (c = 45 \<or> is_lower c \<and> rp_result (pt_server u) k = c)"
proof -
  have small: "pt_small u" "pt_small s" using assms(6) pt_small_run [OF assms(4)] by (simp_all add: pt_small_def)
  have "pt_inv s" by (rule pt_inv_run [OF assms(2,1) pt_inv_start small(2)])
  from pt_own_run [OF assms(4,1) this _ order_refl assms(5) small(1)] assms(3,7) show ?thesis
    by (simp add: pt_cell_def)
qed

theorem pt_undisturbed_witness:
  "\<exists>es s fs u k. run (pt_exec xdr32 (\<lambda>_. 0)) pt_start es = Some s \<and> run (pt_exec xdr32 (\<lambda>_. 0)) s fs = Some u \<and>
     pt_phase u 0 = PtPrinted (int k) 97 \<and> rp_result (pt_server u) k = 97"
proof -
  let ?X = "pt_exec xdr32 (\<lambda>_. 0)"
  let ?s = "pt_start\<lparr>pt_main := PmCreate 1, pt_created := (\<lambda>_. False)(0 := True), pt_phase := (\<lambda>_. PtNone)(0 := PtClear None)\<rparr>"
  let ?a = "?s\<lparr>pt_phase := (\<lambda>_. PtNone)(0 := PtCalling None)\<rparr>"
  have s: "run ?X pt_start [PtMain True True, PtStep 0 True] = Some ?s"
    by (simp add: pt_start_def pt_alive_def pt_main_step_def pt_step_def pt_goto_def COUNT_CLIENTS_def)
  have 1: "?X ?s (PtStep 0 True) = Some ?a"
    by (simp add: pt_start_def pt_alive_def pt_step_def pt_goto_def)
  obtain v q where v: "rp_service True (pt_arg 0 None) rp_init = Some (v, Some q)"
    "v = rp_goto 0 TLock (rp_init\<lparr>rp_static := q, rp_idx := 1, rp_role := (rp_role rp_init)(0 := True)\<rparr>)"
    "q = (rp_static rp_init)\<lparr>rq_result := 45, rq_idx := 0\<rparr>"
    using pt_service_first [of 0 rp_init] by (auto simp: rp_init_eq rp_start_def pt_role_def c_rem_nonneg)
  let ?b = "pt_goto 0 PtIndex (?a\<lparr>pt_server := v, pt_static := q\<rparr>)"
  have 2: "?X ?a (PtSend 0 Delivered True) = Some ?b"
    using pt_answered [OF xdr32_ok, of ?a 0 None True "\<lambda>_. 0" v q] v(1) rp_init_fits
    by (simp add: pt_start_def pt_alive_def is_c_int_def INT_MIN_def INT_MAX_def)
  have 3: "?X ?b (PtStep 0 True) = Some (pt_goto 0 (PtTest 0) ?b)"
    by (simp add: pt_step_def v(3)) (simp add: pt_start_def pt_alive_def)
  have p: "0 < MAX_CNT_CLNT" by (simp add: MAX_CNT_CLNT_def)
  obtain w where w: "run rp_exec v (map Run [0, 0, 0, 0, 0, 0]) = Some w" "rp_result w = (\<lambda>_. 0)(0 := 97)"
      "rp_static w = q" "rp_idx w = 1"
    using rp_first_letter [of v 0] p by (auto simp: v(2) rp_init_eq rp_start_def)
  let ?c = "(pt_goto 0 (PtTest 0) ?b)\<lparr>pt_server := w\<rparr>"
  have 4: "run ?X (pt_goto 0 (PtTest 0) ?b) (map PtServer [0, 0, 0, 0, 0, 0]) = Some ?c"
    by (rule pt_server_run) (simp add: w(1) del: list.map)
  have fits: "rp_fits w"
    by (simp add: rp_fits_def w v(3) rp_init_eq rp_start_def rq_ok_def is_c_char_def is_c_int_def INT_MIN_def INT_MAX_def)
  obtain u r where u: "run ?X ?c [PtStep 0 True, PtStep 0 True, PtSend 0 Delivered True, PtStep 0 False,
      PtStep 0 True, PtStep 0 True] = Some u" "pt_phase u 0 = PtPrinted 0 97" "pt_server u = w\<lparr>rp_static := r\<rparr>"
    using pt_poll_prints [OF xdr32_ok, of ?c 0 0 "\<lambda>_. 0"] fits w(2) p
    by (auto simp: v(3) is_lower_def pt_start_def pt_alive_def)
  note r = run_one [OF 1 run_one [OF 2 run_one [OF 3 run_chain [OF 4 u(1)]]]]
  have "\<exists>k. 0 = int k \<and> (97 = (45 :: int) \<or> is_lower 97 \<and> rp_result (pt_server u) k = 97)"
    using pt_undisturbed [OF xdr32_ok s _ r _ _ u(2)] u(3) w(4)
    by (auto simp: pt_start_def rp_init_eq INT_MAX_def)
  with s r u(2) show ?thesis by fastforce
qed

text \<open>When a thread cannot be created the client only reports it, and in the end waits for a thread that does
  not exist: it never comes to its regular end.\<close>

theorem pt_missing_thread:
  assumes "pt_main s = PmCreate i" and "i < COUNT_CLIENTS" and "\<not> pt_created s i"
    and "pt_exec X rnd s (PtMain True False) = Some t" and "reach (pt_exec X rnd) t u"
  shows "\<not> pt_created u i \<and> pt_main u \<noteq> PmEnd 0"
proof -
  have "pt_missing i t" using assms(1-4) by (auto simp: pt_missing_def pt_main_step_def Let_def split: if_splits)
  from assms(5) this have "pt_missing i u"
    by (induction rule: reach.induct) (blast intro: pt_missing_exec [OF _ assms(2)])+
  then show ?thesis by (auto simp: pt_missing_def split: pt_main.splits)
qed

theorem pt_missing_thread_witness:
  "\<exists>t. pt_exec xdr32 (\<lambda>_. 0) pt_start (PtMain True False) = Some t \<and> pt_main t = PmCreate 1 \<and> \<not> pt_created t 0"
proof -
  obtain t where t: "pt_exec xdr32 (\<lambda>_. 0) pt_start (PtMain True False) = Some t" "pt_main t = PmCreate 1"
    by (simp add: pt_start_def pt_alive_def pt_main_step_def COUNT_CLIENTS_def)
  have "\<not> pt_created t 0"
    using pt_missing_thread [OF _ _ _ t(1) reach.reach_init, of 0] by (simp add: pt_start_def COUNT_CLIENTS_def)
  with t show ?thesis by blast
qed

end
