(* ===== verification/Daemon.thy ===== *)
theory Daemon
  imports Prelude
begin

section \<open>The daemon\<close>

text \<open>
  Model of lab-processes/daemon/mydaemon.c: how the process detaches itself, the lock file that
  keeps a second daemon out, the start of \<^verbatim>\<open>main\<close>, and the thread that answers signals by reading the
  configuration again. The answers of the system calls are arguments; the clock that the daemon logs is left out.
\<close>

subsection \<open>Becoming a daemon\<close>

text \<open>The table of open descriptors: the entry of a number says what it refers to.\<close>

datatype descr = DevNull | OtherFile nat

type_synonym descrs = "descr option list"

fun alloc :: "descr \<Rightarrow> descrs \<Rightarrow> descrs \<times> nat" where
  "alloc x [] = ([Some x], 0)"
| "alloc x (None # fs) = (Some x # fs, 0)"
| "alloc x (Some y # fs) = (let (gs, n) = alloc x fs in (Some y # gs, Suc n))"

text \<open>\<^verbatim>\<open>dup(0)\<close>, which fails when descriptor 0 is closed.\<close>

definition dup0 :: "descrs \<Rightarrow> descrs \<times> int" where
  "dup0 fs = (case fs of Some x # _ \<Rightarrow> (let (gs, n) = alloc x fs in (gs, int n)) | _ \<Rightarrow> (fs, - 1))"

record dz_answers =
  z_rlimit :: "nat option option"
  z_fork :: int
  z_setsid :: bool
  z_chdir :: bool
  z_devnull :: bool

datatype dz_outcome = DzExit int | Detached descrs | DzUndefined

text \<open>
  \<^verbatim>\<open>daemonize\<close>. The limit is \<^term>\<open>None\<close> when the call fails and \<^term>\<open>Some None\<close> when it is infinite.
  The loop counts in an \<^verbatim>\<open>int\<close>, which a larger limit overflows.
\<close>

definition daemonize :: "dz_answers \<Rightarrow> descrs \<Rightarrow> dz_outcome" where
  "daemonize z fs =
     (case z_rlimit z of
        None \<Rightarrow> DzExit 1
      | Some lim \<Rightarrow>
          if z_fork z = - 1 then DzExit 1
          else if z_fork z > 0 then DzExit 0
          else if \<not> z_setsid z then DzExit 1
          else if \<not> z_chdir z then DzExit 1
          else
            let rlim = (case lim of None \<Rightarrow> 1024 | Some n \<Rightarrow> n) in
            if int rlim > INT_MAX then DzUndefined
            else
              let fs1 = fold (\<lambda>i gs. gs[i := None]) [0..<rlim] fs;
                  (fs2, fd0) = (if z_devnull z then let (gs, n) = alloc DevNull fs1 in (gs, int n) else (fs1, - 1));
                  (fs3, fd1) = dup0 fs2;
                  (fs4, fd2) = dup0 fs3 in
              if fd0 \<noteq> 0 \<or> fd1 \<noteq> 1 \<or> fd2 \<noteq> 2 then DzExit 1 else Detached fs4)"


subsection \<open>The configuration\<close>

text \<open>
  \<^verbatim>\<open>setuid\<close> (setuid(2)): the superuser sets all three user ids, another process its effective one to the
  real or the saved one.
\<close>

record cred =
  ruid :: int
  euid :: int
  suid :: int

definition setuid :: "int \<Rightarrow> cred \<Rightarrow> cred option" where
  "setuid u c =
     (if euid c = 0 then Some \<lparr>ruid = u, euid = u, suid = u\<rparr>
      else if u = ruid c \<or> u = suid c then Some (c\<lparr>euid := u\<rparr>)
      else None)"

text \<open>
  What the two calls of \<^verbatim>\<open>fscanf\<close> find in the file, \<^term>\<open>None\<close> for a line that does not match, and what the
  two variables hold before.
\<close>

record conf_read =
  cr_username :: "string option"
  cr_userID :: "int option"
  cr_old_username :: string
  cr_old_userID :: int

datatype dm_log =
    NoConf | ConfRead string int | SetuidFailed int | SetuidOk int
  | HupReceived | TermReceived | Unexpected int | SigwaitError

text \<open>\<^verbatim>\<open>reread\<close>; a name that does not fit its 64 bytes is \<^term>\<open>None\<close>.\<close>

definition USERNAME_SIZE :: nat where "USERNAME_SIZE = 64"

definition reread :: "conf_read option \<Rightarrow> cred \<Rightarrow> (cred \<times> dm_log list) option" where
  "reread fp c =
     (case fp of
        None \<Rightarrow> Some (c, [NoConf])
      | Some r \<Rightarrow>
          (let username = (case cr_username r of None \<Rightarrow> cr_old_username r | Some n \<Rightarrow> n);
               userID = (case cr_userID r of None \<Rightarrow> cr_old_userID r | Some i \<Rightarrow> i) in
           if length username \<ge> USERNAME_SIZE then None
           else if userID > 0 then
             (case setuid userID c of
                None \<Rightarrow> Some (c, [ConfRead username userID, SetuidFailed userID])
              | Some d \<Rightarrow> Some (d, [ConfRead username userID, SetuidOk userID]))
           else Some (c, [ConfRead username userID])))"


subsection \<open>The thread for the signals\<close>

definition SIGHUP :: int where "SIGHUP = 1"
definition SIGTERM :: int where "SIGTERM = 15"

record signal_event =
  sg_err :: int
  sg_signo :: int
  sg_conf :: "conf_read option"

text \<open>One turn of the loop: the credentials, the log, and the status when the process exits.\<close>

definition thr_turn :: "cred \<Rightarrow> signal_event \<Rightarrow> (cred \<times> dm_log list \<times> int option) option" where
  "thr_turn c e =
     (if sg_err e \<noteq> 0 then Some (c, [SigwaitError], Some 1)
      else if sg_signo e = SIGHUP then
        map_option (\<lambda>(d, out). (d, HupReceived # out, None)) (reread (sg_conf e) c)
      else if sg_signo e = SIGTERM then Some (c, [TermReceived], Some 0)
      else Some (c, [Unexpected (sg_signo e)], None))"

fun thr_fn :: "cred \<Rightarrow> signal_event list \<Rightarrow> (cred \<times> dm_log list \<times> int option) option" where
  "thr_fn c [] = Some (c, [], None)"
| "thr_fn c (e # es) =
     (case thr_turn c e of
        None \<Rightarrow> None
      | Some (d, out, Some status) \<Rightarrow> Some (d, out, Some status)
      | Some (d, out, None) \<Rightarrow>
          (case thr_fn d es of
             None \<Rightarrow> None
           | Some (f, later, status) \<Rightarrow> Some (f, out @ later, status)))"


subsection \<open>The lock file and main\<close>

text \<open>Reading it back, up to the end of a C string.\<close>

definition read_decimal :: "string \<Rightarrow> nat" where
  "read_decimal s = foldl (\<lambda>n c. 10 * n + (of_char c - 48)) 0 (takeWhile (\<lambda>c. c \<noteq> CHR 0x00) s)"

text \<open>
  The steps of \<^verbatim>\<open>already_running\<close> and of the rest of \<^verbatim>\<open>main\<close>: open, lock, truncate, write, restore the
  action, block the signals, start the thread. The flag says whether the write succeeded, which is not tested.
\<close>

datatype dm_phase =
    MStart | MOpened | MLocked | MTruncated | MRunning bool | MAction bool | MMasked bool | MServing bool
  | MExit int

record dm_sys =
  lf_holder :: "nat option"
  lf_text :: string
  dm_phases :: "nat \<Rightarrow> dm_phase"

text \<open>
  A process starts (with a process id that no live daemon has), makes its next call, which succeeds or not,
  or ends, in its thread or by a signal; the kernel then releases its lock.
\<close>

datatype dm_event = Detach nat | Next nat bool | End nat int

definition dm_exit :: "nat \<Rightarrow> int \<Rightarrow> dm_sys \<Rightarrow> dm_sys" where
  "dm_exit p status s =
     s\<lparr>lf_holder := (if lf_holder s = Some p then None else lf_holder s),
       dm_phases := (dm_phases s)(p := MExit status)\<rparr>"

definition dm_goto :: "nat \<Rightarrow> dm_phase \<Rightarrow> dm_sys \<Rightarrow> dm_sys" where
  "dm_goto p ph s = s\<lparr>dm_phases := (dm_phases s)(p := ph)\<rparr>"

definition overwrite_text :: "string \<Rightarrow> string \<Rightarrow> string" where
  "overwrite_text new old = new @ drop (length new) old"

fun dm_exec :: "dm_sys \<Rightarrow> dm_event \<Rightarrow> dm_sys option" where
  "dm_exec s (Detach p) =
     (case dm_phases s p of MExit _ \<Rightarrow> Some (dm_goto p MStart s) | _ \<Rightarrow> None)"
| "dm_exec s (Next p ok) =
     (case dm_phases s p of
        MStart \<Rightarrow> Some (if ok then dm_goto p MOpened s else dm_exit p 1 s)
      | MOpened \<Rightarrow>
          if ok \<and> lf_holder s = None then Some (dm_goto p MLocked (s\<lparr>lf_holder := Some p\<rparr>))
          else Some (dm_exit p 1 s)
      | MLocked \<Rightarrow> Some (dm_goto p MTruncated (if ok then s\<lparr>lf_text := []\<rparr> else s))
      | MTruncated \<Rightarrow>
          Some (dm_goto p (MRunning ok)
            (if ok then s\<lparr>lf_text := overwrite_text (decimal p @ [CHR 0x00]) (lf_text s)\<rparr> else s))
      | MRunning w \<Rightarrow> Some (if ok then dm_goto p (MAction w) s else dm_exit p 1 s)
      | MAction w \<Rightarrow> Some (if ok then dm_goto p (MMasked w) s else dm_exit p 1 s)
      | MMasked w \<Rightarrow> Some (if ok then dm_goto p (MServing w) s else dm_exit p 1 s)
      | MServing w \<Rightarrow> None
      | MExit _ \<Rightarrow> None)"
| "dm_exec s (End p status) =
     (case dm_phases s p of MExit _ \<Rightarrow> None | _ \<Rightarrow> Some (dm_exit p status s))"

definition dm_boot :: "string \<Rightarrow> dm_sys" where
  "dm_boot old = \<lparr>lf_holder = None, lf_text = old, dm_phases = (\<lambda>_. MExit 0)\<rparr>"

text \<open>The name under which the daemon logs.\<close>

definition cmd_name :: "string \<Rightarrow> string" where
  "cmd_name argv0 =
     (if CHR ''/'' \<in> set argv0 then rev (takeWhile (\<lambda>c. c \<noteq> CHR ''/'') (rev argv0)) else argv0)"


subsection \<open>Invariant of the lock file\<close>

fun past_lock :: "dm_phase \<Rightarrow> bool" where
  "past_lock MStart = False"
| "past_lock MOpened = False"
| "past_lock (MExit _) = False"
| "past_lock _ = True"

fun pid_written :: "dm_phase \<Rightarrow> bool" where
  "pid_written (MRunning w) = w"
| "pid_written (MAction w) = w"
| "pid_written (MMasked w) = w"
| "pid_written (MServing w) = w"
| "pid_written _ = False"

definition c_text :: "string \<Rightarrow> string" where
  "c_text s = takeWhile (\<lambda>c. c \<noteq> CHR 0x00) s"

definition dm_inv :: "dm_sys \<Rightarrow> bool" where
  "dm_inv s \<longleftrightarrow> (\<forall>p. past_lock (dm_phases s p) \<longleftrightarrow> lf_holder s = Some p) \<and>
     (\<forall>p. pid_written (dm_phases s p) \<longrightarrow> c_text (lf_text s) = decimal p)"

lemma pid_past_lock: "pid_written ph \<Longrightarrow> past_lock ph"
  by (cases ph) simp_all

lemma digit_not_zero: "d < 10 \<Longrightarrow> digit d \<noteq> CHR 0x00"
proof
  assume "d < 10" and "digit d = CHR 0x00"
  then have "of_char (digit d) = (of_char CHR 0x00 :: nat)" by simp
  with \<open>d < 10\<close> show False by (simp add: digit_def)
qed

lemma decimal_chars: "c \<in> set (decimal n) \<Longrightarrow> c \<noteq> CHR 0x00"
proof (induction n rule: decimal.induct)
  case (1 n)
  show ?case
  proof (cases "n < 10")
    case True
    with 1(2) have "c = digit n" by (subst (asm) decimal.simps) simp
    then show ?thesis using digit_not_zero [OF True] by simp
  next
    case False
    with 1(2) have "c \<in> set (decimal (n div 10)) \<or> c = digit (n mod 10)"
      by (subst (asm) decimal.simps) auto
    then show ?thesis using 1(1) [OF False] digit_not_zero [of "n mod 10"] by fastforce
  qed
qed

lemma c_text_decimal: "c_text (overwrite_text (decimal p @ [CHR 0x00]) old) = decimal p"
  using decimal_chars [of _ p] by (auto simp: c_text_def overwrite_text_def takeWhile_append2)

lemma read_digits: "foldl (\<lambda>n c. 10 * n + (of_char c - 48)) 0 (decimal n) = n"
proof (induction n rule: decimal.induct)
  case (1 n)
  then show ?case by (subst decimal.simps) (simp add: digit_def)
qed

text \<open>Moving one process, with the lock and the text changed accordingly.\<close>

lemma dm_inv_move:
  assumes "dm_inv s" and "dm_phases t = (dm_phases s)(p := ph)"
    and "lf_holder t = (if past_lock ph then Some p else if lf_holder s = Some p then None else lf_holder s)"
    and "past_lock ph \<longrightarrow> lf_holder s = None \<or> lf_holder s = Some p"
    and "if pid_written ph then c_text (lf_text t) = decimal p
      else lf_text t = lf_text s \<or> lf_holder s = Some p"
    and "pid_written ph \<longrightarrow> past_lock (dm_phases s p)"
  shows "dm_inv t"
proof -
  have lock: "past_lock (dm_phases s q) \<longleftrightarrow> lf_holder s = Some q" for q
    using assms(1) by (simp add: dm_inv_def)
  have written: "pid_written (dm_phases s q) \<Longrightarrow> c_text (lf_text s) = decimal q \<and> lf_holder s = Some q" for q
    using assms(1) pid_past_lock [of "dm_phases s q"] by (simp add: dm_inv_def)
  have "past_lock (dm_phases t q) \<longleftrightarrow> lf_holder t = Some q" for q
    using assms(2-4) lock [of q] by (cases "q = p") auto
  moreover have "c_text (lf_text t) = decimal q" if "pid_written (dm_phases t q)" for q
    using assms(2,5,6) that written [of q] lock [of p] by (cases "q = p") (auto split: if_splits)
  ultimately show ?thesis by (simp add: dm_inv_def)
qed

lemma dm_inv_exec:
  assumes inv: "dm_inv s" and ex: "dm_exec s e = Some t"
  shows "dm_inv t"
proof -
  have lock: "past_lock (dm_phases s p) \<longleftrightarrow> lf_holder s = Some p" for p
    using inv by (simp add: dm_inv_def)
  have written: "pid_written (dm_phases s p) \<Longrightarrow> c_text (lf_text s) = decimal p" for p
    using inv by (simp add: dm_inv_def)
  show ?thesis
  proof (cases e)
    case (Detach p)
    then show ?thesis using ex lock [of p]
      by (auto intro!: dm_inv_move [OF inv, where p = p and ph = MStart] simp: dm_goto_def split: dm_phase.splits)
  next
    case (Next p ok)
    then show ?thesis using ex lock [of p] written [of p]
      by (cases "dm_phases s p")
        (auto intro!: dm_inv_move [OF inv, where p = p and ph = "dm_phases t p"]
          simp: dm_goto_def dm_exit_def c_text_decimal split: if_splits)
  next
    case (End p status)
    then show ?thesis using ex lock [of p]
      by (auto intro!: dm_inv_move [OF inv, where p = p and ph = "MExit status"] simp: dm_exit_def
          split: dm_phase.splits)
  qed
qed

interpretation dm: invariant_system dm_exec "dm_boot old" dm_inv for old
proof
  show "dm_inv (dm_boot old)" by (simp add: dm_inv_def dm_boot_def)
qed (rule dm_inv_exec)

subsection \<open>Descriptors\<close>

definition descr_at :: "descrs \<Rightarrow> nat \<Rightarrow> descr option" where
  "descr_at fs i = (if i < length fs then fs ! i else None)"

lemma alloc_lowest:
  "alloc x fs = (gs, n) \<Longrightarrow> descr_at fs n = None \<and> (\<forall>i < n. descr_at fs i \<noteq> None) \<and>
     descr_at gs = (descr_at fs)(n := Some x)"
proof (induction x fs arbitrary: gs n rule: alloc.induct)
  case (3 x y fs)
  then obtain gs' m where m: "alloc x fs = (gs', m)" "gs = Some y # gs'" "n = Suc m"
    by (auto simp: Let_def split: prod.splits)
  note ih = 3(1) [OF m(1)]
  have at: "descr_at (z # zs) i = (case i of 0 \<Rightarrow> z | Suc j \<Rightarrow> descr_at zs j)" for z zs i
    by (simp add: descr_at_def split: nat.split)
  show ?case using ih m by (auto simp: at fun_eq_iff split: nat.splits)
qed (auto simp: descr_at_def fun_eq_iff nth_Cons split: nat.splits)

lemma close_length: "length (fold (\<lambda>i gs. gs[i := None]) ns fs) = length fs"
  by (induction ns arbitrary: fs) simp_all

lemma close_nth:
  "i < length fs \<Longrightarrow> fold (\<lambda>i gs. gs[i := None]) [0..<m] fs ! i = (if i < m then None else fs ! i)"
  by (induction m) (auto simp: nth_list_update close_length less_Suc_eq)

lemma close_all: "descr_at (fold (\<lambda>i gs. gs[i := None]) [0..<m] fs) = (\<lambda>i. if i < m then None else descr_at fs i)"
  by (auto simp: descr_at_def fun_eq_iff close_length close_nth)

lemma dup0_lowest:
  assumes "dup0 fs = (gs, int n)"
  shows "\<exists>x. descr_at fs 0 = Some x \<and> descr_at gs = (descr_at fs)(n := Some x)"
  using assms alloc_lowest by (fastforce simp: dup0_def descr_at_def Let_def split: list.splits option.splits prod.splits)

lemma daemonize_open:
  assumes "daemonize z fs = Detached gs"
  obtains lim rlim fs1 fs2 fs3 where "z_rlimit z = Some lim" "rlim = (case lim of None \<Rightarrow> 1024 | Some n \<Rightarrow> n)"
    "fs1 = fold (\<lambda>i gs. gs[i := None]) [0..<rlim] fs" "alloc DevNull fs1 = (fs2, 0)"
    "dup0 fs2 = (fs3, int 1)" "dup0 fs3 = (gs, int 2)" "z_fork z \<le> 0" "z_setsid z" "z_chdir z"
  using assms by (auto simp: daemonize_def Let_def split: option.splits if_splits prod.splits)


subsection \<open>Properties\<close>

text \<open>C14: however many copies are started and however their calls interleave, at most one daemon gets
  past the lock, and one that tries the lock meanwhile ends with status 1.\<close>

theorem dm_single_instance:
  assumes "reach dm_exec (dm_boot old) s" and "past_lock (dm_phases s p)"
  shows "(past_lock (dm_phases s q) \<longrightarrow> q = p) \<and>
    (dm_phases s q = MOpened \<and> dm_exec s (Next q ok) = Some t \<longrightarrow>
       dm_phases t q = MExit 1 \<and> dm_phases t p = dm_phases s p \<and> lf_holder t = Some p)"
proof -
  have "past_lock (dm_phases s q) \<longleftrightarrow> lf_holder s = Some q" for q
    using dm.reach_inv [OF assms(1)] by (simp add: dm_inv_def)
  then have "lf_holder s = Some p" "past_lock (dm_phases s q) \<longrightarrow> q = p" using assms(2) by auto
  then show ?thesis using assms(2) by (auto simp: dm_exit_def)
qed

lemma dm_reach_run: "run dm_exec (dm_boot old) es = Some s \<Longrightarrow> reach dm_exec (dm_boot old) s"
  by (rule run_reach_init)

theorem dm_single_instance_witness:
  "\<exists>s t. run dm_exec (dm_boot []) [Detach 7, Detach 9, Next 7 True, Next 9 True, Next 7 True] = Some s \<and>
     dm_exec s (Next 9 True) = Some t \<and> dm_phases t 9 = MExit 1 \<and> lf_holder t = Some 7"
proof -
  obtain s where s: "run dm_exec (dm_boot []) [Detach 7, Detach 9, Next 7 True, Next 9 True, Next 7 True] = Some s"
    "dm_phases s 7 = MLocked" "dm_phases s 9 = MOpened"
    by (simp add: dm_boot_def dm_goto_def)
  obtain t where t: "dm_exec s (Next 9 True) = Some t"
    using s(3) by (cases "lf_holder s = None") auto
  show ?thesis using dm_single_instance [OF dm_reach_run [OF s(1)], of 7 9 True t] s t by simp
qed

text \<open>Once a daemon has written its process id, the lock file reads as that id whatever it held before
  and even if it could not be truncated: the number is written with its terminating zero.\<close>

theorem dm_pid_readable:
  assumes "reach dm_exec (dm_boot old) s" and "pid_written (dm_phases s p)"
  shows "read_decimal (lf_text s) = p \<and> lf_holder s = Some p"
proof -
  have inv: "dm_inv s" by (rule dm.reach_inv [OF assms(1)])
  then have "c_text (lf_text s) = decimal p" using assms(2) by (simp add: dm_inv_def)
  moreover have "lf_holder s = Some p" using inv pid_past_lock [OF assms(2)] by (simp add: dm_inv_def)
  ultimately show ?thesis using read_digits [of p] by (simp add: read_decimal_def c_text_def)
qed

theorem dm_pid_readable_witness:
  "\<exists>s. run dm_exec (dm_boot ''123456'') [Detach 7, Next 7 True, Next 7 True, Next 7 False, Next 7 True] = Some s \<and>
     read_decimal (lf_text s) = 7"
proof -
  obtain s where s: "run dm_exec (dm_boot ''123456'')
      [Detach 7, Next 7 True, Next 7 True, Next 7 False, Next 7 True] = Some s" "dm_phases s 7 = MRunning True"
    by (simp add: dm_boot_def dm_goto_def)
  then show ?thesis using dm_pid_readable [OF dm_reach_run [OF s(1)], of 7] by simp
qed

text \<open>When the daemon that holds the lock ends, for whatever reason, the next one that is started gets to
  serve and its id replaces the old one in the file.\<close>

theorem dm_restart:
  assumes "reach dm_exec (dm_boot old) s" and "lf_holder s = Some p" and "dm_phases s q = MExit n" and "p \<noteq> q"
  shows "\<exists>t. run dm_exec s (End p status # Detach q # replicate 7 (Next q True)) = Some t \<and>
    dm_phases t q = MServing True \<and> dm_phases t p = MExit status \<and> c_text (lf_text t) = decimal q"
proof -
  have "past_lock (dm_phases s p)" using dm.reach_inv [OF assms(1)] assms(2) by (simp add: dm_inv_def)
  then have "dm_exec s (End p status) = Some (dm_exit p status s)" by (cases "dm_phases s p") simp_all
  then show ?thesis
    using assms(2-4) c_text_decimal [of q "[]"]
    by (simp add: numeral_eq_Suc dm_exit_def dm_goto_def overwrite_text_def)
qed

theorem dm_restart_witness:
  "\<exists>s t. run dm_exec (dm_boot []) [Detach 7, Next 7 True, Next 7 True] = Some s \<and>
     run dm_exec s (End 7 9 # Detach 8 # replicate 7 (Next 8 True)) = Some t \<and> dm_phases t 8 = MServing True"
proof -
  obtain s where s: "run dm_exec (dm_boot []) [Detach 7, Next 7 True, Next 7 True] = Some s"
    "lf_holder s = Some 7" "dm_phases s 8 = MExit 0"
    by (simp add: dm_boot_def dm_goto_def)
  then show ?thesis using dm_restart [OF dm_reach_run [OF s(1)] s(2,3), of 9] by auto
qed

text \<open>A process that is detached has the null device as descriptors 0, 1 and 2 and no other descriptor
  below the limit; those above the limit, which is taken as 1024 when there is none, stay open.\<close>

theorem dz_descriptors:
  assumes "daemonize z fs = Detached gs" and "z_rlimit z = Some lim"
  shows "descr_at gs i =
    (if i < 3 then Some DevNull
     else if i < (case lim of None \<Rightarrow> 1024 | Some n \<Rightarrow> n) then None else descr_at fs i)"
proof (rule daemonize_open [OF assms(1)])
  fix lim' rlim fs1 fs2 fs3
  assume a: "z_rlimit z = Some lim'" "rlim = (case lim' of None \<Rightarrow> 1024 | Some n \<Rightarrow> n)"
    "fs1 = fold (\<lambda>i gs. gs[i := None]) [0..<rlim] fs" "alloc DevNull fs1 = (fs2, 0)"
    "dup0 fs2 = (fs3, int 1)" "dup0 fs3 = (gs, int 2)"
  have 2: "descr_at fs2 = (descr_at fs1)(0 := Some DevNull)" using alloc_lowest [OF a(4)] by simp
  have 3: "descr_at fs3 = (descr_at fs2)(1 := Some DevNull)" using dup0_lowest [OF a(5)] 2 by auto
  have 4: "descr_at gs = (descr_at fs3)(2 := Some DevNull)" using dup0_lowest [OF a(6)] 3 2 by auto
  have "i < 3 \<longleftrightarrow> i = 0 \<or> i = 1 \<or> i = 2" by auto
  then show ?thesis using a(1,2) assms(2) by (simp add: 2 3 4 a(3) close_all)
qed

theorem dz_descriptors_witness:
  "\<exists>gs. daemonize \<lparr>z_rlimit = Some (Some 4), z_fork = 0, z_setsid = True, z_chdir = True, z_devnull = True\<rparr>
      (map (Some \<circ> OtherFile) [1, 2, 3, 4, 5]) = Detached gs \<and>
     descr_at gs 1 = Some DevNull \<and> descr_at gs 3 = None \<and> descr_at gs 4 = Some (OtherFile 5)"
proof -
  let ?z = "\<lparr>z_rlimit = Some (Some 4), z_fork = 0, z_setsid = True, z_chdir = True, z_devnull = True\<rparr>"
  let ?fs = "map (Some \<circ> OtherFile) [1, 2, 3, 4, 5]"
  let ?gs = "[Some DevNull, Some DevNull, Some DevNull, None, Some (OtherFile 5)]"
  have gs: "daemonize ?z ?fs = Detached ?gs" by code_simp
  have "z_rlimit ?z = Some (Some 4)" by simp
  note at = dz_descriptors [OF gs this]
  show ?thesis using at [of 1] at [of 3] at [of 4] gs by (intro exI [of _ ?gs]) (simp add: descr_at_def)
qed

text \<open>The events at which the thread ends the process, and those that overrun the name.\<close>

definition decisive :: "signal_event \<Rightarrow> bool" where
  "decisive e \<longleftrightarrow> sg_err e \<noteq> 0 \<or> sg_signo e = SIGTERM"

definition overruns :: "signal_event \<Rightarrow> bool" where
  "overruns e \<longleftrightarrow> sg_signo e = SIGHUP \<and>
     (case sg_conf e of None \<Rightarrow> False
      | Some r \<Rightarrow> length (case cr_username r of None \<Rightarrow> cr_old_username r | Some n \<Rightarrow> n) \<ge> USERNAME_SIZE)"

lemma reread_none: "reread fp c = None \<longleftrightarrow>
    (case fp of None \<Rightarrow> False
     | Some r \<Rightarrow> length (case cr_username r of None \<Rightarrow> cr_old_username r | Some n \<Rightarrow> n) \<ge> USERNAME_SIZE)"
  by (auto simp: reread_def Let_def split: option.splits)

lemma thr_turn_cases:
  "thr_turn c e = None \<longleftrightarrow> \<not> decisive e \<and> overruns e"
  "thr_turn c e = Some (d, out, st) \<Longrightarrow>
     st = (if decisive e then Some (if sg_err e \<noteq> 0 then 1 else 0) else None)"
  by (auto simp: thr_turn_def decisive_def overruns_def reread_none SIGHUP_def SIGTERM_def
      split: if_splits option.splits)

text \<open>The thread ends the process at the first SIGTERM, with status 0, or at the first failing
  \<^verbatim>\<open>sigwait\<close>, with status 1, and at nothing else; its only undefined behaviour is a SIGHUP before that whose
  user name does not fit its 64 bytes.\<close>

theorem dm_thread_outcome:
  "(thr_fn c es = None \<longleftrightarrow> (\<exists>e \<in> set (takeWhile (\<lambda>e. \<not> decisive e) es). overruns e)) \<and>
   (case thr_fn c es of None \<Rightarrow> True
    | Some (d, out, st) \<Rightarrow>
        st = (case find decisive es of None \<Rightarrow> None | Some e \<Rightarrow> Some (if sg_err e \<noteq> 0 then 1 else 0)))"
proof (induction es arbitrary: c)
  case (Cons e es)
  show ?case
  proof (cases "thr_turn c e")
    case None
    then have "\<not> decisive e \<and> overruns e" using thr_turn_cases(1) [of c e] by simp
    then show ?thesis using None by simp
  next
    case (Some q)
    then obtain d out st where q: "thr_turn c e = Some (d, out, st)" by (cases q) auto
    note st = thr_turn_cases(2) [OF q]
    show ?thesis
    proof (cases "decisive e")
      case True
      then show ?thesis using q st by simp
    next
      case False
      then have "\<not> overruns e" using q thr_turn_cases(1) [of c e] by auto
      moreover have "st = None" using st False by simp
      ultimately show ?thesis using Cons [of d] q False by (cases "thr_fn d es") auto
    qed
  qed
qed simp

definition user :: "int \<Rightarrow> cred" where
  "user u = \<lparr>ruid = u, euid = u, suid = u\<rparr>"

lemma setuid_user: "setuid v (user u) = (if u = 0 \<or> v = u then Some (user v) else None)"
  by (simp add: setuid_def user_def)

lemma thr_turn_user:
  assumes "thr_turn (user u) e = Some (d, out, st)"
  shows "(d = user u \<and> (\<forall>v. SetuidOk v \<in> set out \<longrightarrow> v = u) \<and> (u = 0 \<longrightarrow> (\<forall>v. SetuidOk v \<notin> set out))) \<or>
    (u = 0 \<and> (\<exists>w > 0. d = user w \<and> SetuidOk w \<in> set out \<and> (\<forall>v. SetuidOk v \<in> set out \<longrightarrow> v = w)))"
  using assms
  by (auto simp: thr_turn_def reread_def Let_def setuid_user split: if_splits option.splits)

lemma thr_fn_Cons:
  assumes "thr_fn c (e # es) = Some (f, out, st)"
  obtains (stop) n where "thr_turn c e = Some (f, out, Some n)" "st = Some n"
  | (go) d o1 o2 where "thr_turn c e = Some (d, o1, None)" "thr_fn d es = Some (f, o2, st)" "out = o1 @ o2"
proof (cases "thr_turn c e")
  case None
  then show thesis using assms by simp
next
  case (Some q)
  obtain d o1 st1 where q: "q = (d, o1, st1)" by (cases q)
  show thesis
  proof (cases st1)
    case None
    then show thesis using assms Some q go by (cases "thr_fn d es") auto
  next
    case (Some n)
    then show thesis using assms \<open>thr_turn c e = Some q\<close> q by (intro stop [of n]) simp_all
  qed
qed

lemma thr_fn_user:
  assumes "u > 0" and "thr_fn (user u) es = Some (d, out, st)"
  shows "d = user u \<and> (\<forall>v. SetuidOk v \<in> set out \<longrightarrow> v = u)"
  using assms(2)
proof (induction es arbitrary: out)
  case (Cons e es)
  from Cons.prems show ?case
  proof (cases rule: thr_fn_Cons)
    case (stop n)
    then show ?thesis using thr_turn_user [OF stop(1)] assms(1) by auto
  next
    case (go c o1 o2)
    then have "c = user u" "\<forall>v. SetuidOk v \<in> set o1 \<longrightarrow> v = u" using thr_turn_user [OF go(1)] assms(1) by auto
    then show ?thesis using Cons.IH [of o2] go(2) unfolding go(3) set_append by blast
  qed
qed simp

text \<open>A daemon started by the superuser takes the first positive user id that it reads and keeps it:
  every later attempt to take another one fails.\<close>

theorem dm_uid_once:
  assumes "thr_fn (user 0) es = Some (c, out, st)"
  shows "c = user 0 \<and> (\<forall>v. SetuidOk v \<notin> set out) \<or>
    (\<exists>w > 0. c = user w \<and> SetuidOk w \<in> set out \<and> (\<forall>v. SetuidOk v \<in> set out \<longrightarrow> v = w))"
  using assms
proof (induction es arbitrary: out)
  case (Cons e es)
  from Cons.prems show ?case
  proof (cases rule: thr_fn_Cons)
    case (stop n)
    then show ?thesis using thr_turn_user [OF stop(1)] by blast
  next
    case (go d o1 o2)
    from thr_turn_user [OF go(1)] consider
      "d = user 0" "\<forall>v. SetuidOk v \<notin> set o1"
      | w where "0 < w" "d = user w" "SetuidOk w \<in> set o1" "\<forall>v. SetuidOk v \<in> set o1 \<longrightarrow> v = w" by blast
    then show ?thesis
    proof cases
      case 1
      from Cons.IH [OF go(2) [unfolded 1(1)]] 1(2) show ?thesis unfolding go(3) set_append by blast
    next
      case 2
      from thr_fn_user [OF 2(1) go(2) [unfolded 2(2)]] 2 show ?thesis unfolding go(3) set_append by blast
    qed
  qed
qed simp

definition hup :: "int \<Rightarrow> signal_event" where
  "hup u = \<lparr>sg_err = 0, sg_signo = SIGHUP, sg_conf = Some \<lparr>cr_username = Some ''u'', cr_userID = Some u,
     cr_old_username = [], cr_old_userID = 0\<rparr>\<rparr>"

theorem dm_uid_once_witness:
  "\<exists>out. thr_fn (user 0) [hup 5, hup 6] = Some (user 5, out, None) \<and> SetuidFailed 6 \<in> set out"
proof -
  have r: "thr_fn (user 0) [hup 5, hup 6] = Some (user 5,
      [HupReceived, ConfRead ''u'' 5, SetuidOk 5, HupReceived, ConfRead ''u'' 6, SetuidFailed 6], None)"
    by (simp add: thr_turn_def hup_def SIGHUP_def reread_def USERNAME_SIZE_def setuid_user)
  then show ?thesis using dm_uid_once [OF r] by simp
qed

end
