(* ===== verification/Processes.thy ===== *)
theory Processes
  imports Calculators
begin

section \<open>Process exercises\<close>

text \<open>
  Models of lab-processes/part-02: two parents that read what their two children write into a pipe
  (task\_04.c, task\_05.c), as step relations over the parent, the children and the pipe; the fork, exec and wait
  loops of task\_01.c to task\_03.c; and the two programs that task\_03.c runs. A child can be killed
  at any time. Printing process ids and sleeping are left out.
\<close>

subsection \<open>Children with a pipe\<close>

text \<open>
  The states of a child: not forked, before the test of the flag (task\_05.c only), before closing its read end,
  before writing, before \<^verbatim>\<open>exit\<close>, ended, and waited for.
\<close>

datatype kid = Unborn | Testing bool | Closing | Writing | Written | Gone wstatus | Reaped wstatus

fun alive :: "kid \<Rightarrow> bool" where
  "alive Unborn = False"
| "alive (Gone _) = False"
| "alive (Reaped _) = False"
| "alive _ = True"

fun may_write :: "kid \<Rightarrow> bool" where
  "may_write (Testing _) = True"
| "may_write Closing = True"
| "may_write Writing = True"
| "may_write _ = False"

text \<open>A child that has not closed its read end.\<close>

fun holds_read :: "kid \<Rightarrow> bool" where
  "holds_read (Testing _) = True"
| "holds_read Closing = True"
| "holds_read _ = False"

definition SIGPIPE :: int where "SIGPIPE = 13"

record pipe_sys =
  contents :: string
  kid :: "nat \<Rightarrow> kid"
  parent_reads :: bool
  parent_writes :: bool
  written_by :: "nat list"
  reports :: "report list"

text \<open>
  One step of child \<open>i\<close> with its message. A write of a few bytes is appended as a whole; with no read end
  open it kills the child.
\<close>

inductive kid_step :: "(nat \<Rightarrow> string) \<Rightarrow> nat \<Rightarrow> pipe_sys \<Rightarrow> pipe_sys \<Rightarrow> bool" for msg i s where
  kid_flag: "kid s i = Testing True \<Longrightarrow> kid_step msg i s (s\<lparr>kid := (kid s)(i := Closing)\<rparr>)"
| kid_no_signal: "kid s i = Testing False \<Longrightarrow> kid_step msg i s (s\<lparr>kid := (kid s)(i := Gone (WExited 0))\<rparr>)"
| kid_close: "kid s i = Closing \<Longrightarrow> kid_step msg i s (s\<lparr>kid := (kid s)(i := Writing)\<rparr>)"
| kid_write: "kid s i = Writing \<Longrightarrow> parent_reads s \<or> (\<exists>j < 2. holds_read (kid s j)) \<Longrightarrow>
    kid_step msg i s (s\<lparr>kid := (kid s)(i := Written), contents := contents s @ msg i,
      written_by := written_by s @ [i]\<rparr>)"
| kid_sigpipe: "kid s i = Writing \<Longrightarrow> \<not> parent_reads s \<Longrightarrow> \<forall>j < 2. \<not> holds_read (kid s j) \<Longrightarrow>
    kid_step msg i s (s\<lparr>kid := (kid s)(i := Gone (WSignaled SIGPIPE))\<rparr>)"
| kid_exit: "kid s i = Written \<Longrightarrow> kid_step msg i s (s\<lparr>kid := (kid s)(i := Gone (WExited 0))\<rparr>)"

inductive_cases kid_stepE: "kid_step msg i s t"

text \<open>A signal that kills child \<open>i\<close>.\<close>

definition kill_kid :: "nat \<Rightarrow> int \<Rightarrow> pipe_sys \<Rightarrow> pipe_sys" where
  "kill_kid i n s = (if alive (kid s i) then s\<lparr>kid := (kid s)(i := Gone (WSignaled n))\<rparr> else s)"

definition pipe_start :: pipe_sys where
  "pipe_start = \<lparr>contents = [], kid = (\<lambda>_. Unborn), parent_reads = True, parent_writes = True,
     written_by = [], reports = []\<rparr>"

definition no_writers :: "pipe_sys \<Rightarrow> bool" where
  "no_writers s \<longleftrightarrow> \<not> parent_writes s \<and> (\<forall>i < 2. \<not> alive (kid s i))"


subsection \<open>A parent that reads after each fork\<close>

text \<open>
  task\_04.c: the phase of the parent, the pipe and the children, and what the parent printed. It reads up to 800 bytes
  into a zeroed buffer of 100, which must hold a string.
\<close>

datatype phase4 = Fork4 nat | Read4 nat | Close4 | ReadLast4 | Wait4 nat | Exit4 int | Undefined4

record sys4 =
  ph4 :: phase4
  pipe4 :: pipe_sys
  out4 :: "string list"

definition msg4 :: "nat \<Rightarrow> string" where
  "msg4 i = (if i = 0 then replicate 26 (CHR ''B'') else ''YYYY'')"

definition after_read :: "nat \<Rightarrow> phase4" where
  "after_read i = (if i + 1 < 2 then Fork4 (i + 1) else Close4)"

text \<open>What \<^verbatim>\<open>read\<close> does to the parent: it takes the contents, waits while a write end is open, or meets the end.\<close>

definition take4 :: "phase4 \<Rightarrow> sys4 \<Rightarrow> sys4" where
  "take4 ph s =
     (if length (contents (pipe4 s)) < 100 then
        s\<lparr>ph4 := ph, out4 := out4 s @ [contents (pipe4 s)], pipe4 := (pipe4 s)\<lparr>contents := []\<rparr>\<rparr>
      else s\<lparr>ph4 := Undefined4\<rparr>)"

inductive step4 :: "sys4 \<Rightarrow> sys4 \<Rightarrow> bool" for s where
  fork4: "ph4 s = Fork4 i \<Longrightarrow>
    step4 s (s\<lparr>ph4 := Read4 i, pipe4 := (pipe4 s)\<lparr>kid := (kid (pipe4 s))(i := Closing)\<rparr>\<rparr>)"
| fork4_fails: "ph4 s = Fork4 i \<Longrightarrow>
    step4 s (s\<lparr>ph4 := Exit4 1, pipe4 := (pipe4 s)\<lparr>parent_reads := False, parent_writes := False\<rparr>\<rparr>)"
| read4: "ph4 s = Read4 i \<Longrightarrow> contents (pipe4 s) \<noteq> [] \<or> no_writers (pipe4 s) \<Longrightarrow> step4 s (take4 (after_read i) s)"
| close4: "ph4 s = Close4 \<Longrightarrow> step4 s (s\<lparr>ph4 := ReadLast4, pipe4 := (pipe4 s)\<lparr>parent_writes := False\<rparr>\<rparr>)"
| read_last4: "ph4 s = ReadLast4 \<Longrightarrow> contents (pipe4 s) \<noteq> [] \<or> no_writers (pipe4 s) \<Longrightarrow> step4 s (take4 (Wait4 0) s)"
| wait4: "ph4 s = Wait4 k \<Longrightarrow> k < 2 \<Longrightarrow> i < 2 \<Longrightarrow> kid (pipe4 s) i = Gone st \<Longrightarrow>
    step4 s (s\<lparr>ph4 := Wait4 (Suc k), pipe4 := (pipe4 s)\<lparr>kid := (kid (pipe4 s))(i := Reaped st),
      reports := reports (pipe4 s) @ wait_report (int i) st\<rparr>\<rparr>)"
| wait4_fails: "ph4 s = Wait4 k \<Longrightarrow> k < 2 \<Longrightarrow> \<forall>i < 2. \<not> alive (kid (pipe4 s) i) \<and> (\<forall>st. kid (pipe4 s) i \<noteq> Gone st) \<Longrightarrow>
    step4 s (s\<lparr>ph4 := Exit4 1, pipe4 := (pipe4 s)\<lparr>parent_reads := False\<rparr>\<rparr>)"
| done4: "ph4 s = Wait4 2 \<Longrightarrow> step4 s (s\<lparr>ph4 := Exit4 0, pipe4 := (pipe4 s)\<lparr>parent_reads := False\<rparr>\<rparr>)"
| kid4: "i < 2 \<Longrightarrow> kid_step msg4 i (pipe4 s) p \<Longrightarrow> step4 s (s\<lparr>pipe4 := p\<rparr>)"
| kill4: "i < 2 \<Longrightarrow> step4 s (s\<lparr>pipe4 := kill_kid i n (pipe4 s)\<rparr>)"

inductive_cases step4E: "step4 s t"

definition start4 :: sys4 where
  "start4 = \<lparr>ph4 = Fork4 0, pipe4 = pipe_start, out4 = []\<rparr>"

text \<open>How many messages the parent has read in each phase, and which child it is reading from.\<close>

fun read_so_far :: "phase4 \<Rightarrow> nat" where
  "read_so_far (Fork4 i) = i"
| "read_so_far (Read4 i) = i"
| "read_so_far _ = 2"

definition inv4 :: "sys4 \<Rightarrow> bool" where
  "inv4 s \<longleftrightarrow>
     (case ph4 s of
        Undefined4 \<Rightarrow> False
      | Exit4 n \<Rightarrow> n = 1 \<or> out4 s = [msg4 0, msg4 1, []]
      | Wait4 k \<Rightarrow> out4 s = [msg4 0, msg4 1, []]
      | ph \<Rightarrow> read_so_far ph \<le> 2 \<and> out4 s = map msg4 [0..<read_so_far ph] \<and>
          (\<forall>j < read_so_far ph. \<not> may_write (kid (pipe4 s) j)) \<and>
          (case ph of
             Read4 i \<Rightarrow> i < 2 \<and> contents (pipe4 s) \<in> {[], msg4 i} \<and>
               (may_write (kid (pipe4 s) i) \<longrightarrow> contents (pipe4 s) = []) \<and> parent_writes (pipe4 s) \<and>
               (\<forall>j. i < j \<longrightarrow> kid (pipe4 s) j = Unborn)
           | Fork4 i \<Rightarrow> i < 2 \<and> contents (pipe4 s) = [] \<and> parent_writes (pipe4 s) \<and>
               (\<forall>j. i \<le> j \<longrightarrow> kid (pipe4 s) j = Unborn)
           | _ \<Rightarrow> contents (pipe4 s) = []))"

lemma kid_step_effect:
  assumes "kid_step msg i s t"
  shows "(\<forall>j. j \<noteq> i \<longrightarrow> kid t j = kid s j) \<and> parent_reads t = parent_reads s \<and>
    parent_writes t = parent_writes s \<and> reports t = reports s \<and> alive (kid s i) \<and> kid t i \<noteq> Unborn \<and>
    (may_write (kid t i) \<longrightarrow> may_write (kid s i)) \<and>
    (contents t = contents s \<and> written_by t = written_by s \<or>
     kid s i = Writing \<and> kid t i = Written \<and> contents t = contents s @ msg i \<and> written_by t = written_by s @ [i])"
  using assms by (auto elim!: kid_stepE)

lemma upt_two: "map f [0..<2] = [f 0, f (Suc 0)]"
  by (simp add: numeral_2_eq_2)

lemma inv4_start: "inv4 start4"
  by (simp add: inv4_def start4_def pipe_start_def)

lemma msg4_short: "length (msg4 i) < 100"
  by (simp add: msg4_def)

lemma inv4_step: "step4 s t \<Longrightarrow> inv4 s \<Longrightarrow> inv4 t"
proof (induction rule: step4.induct)
  case (read4 i)
  have c: "contents (pipe4 s) = msg4 i" "\<not> may_write (kid (pipe4 s) i)"
    using read4 by (auto simp: inv4_def no_writers_def)
  have "i = 0 \<or> i = 1" using read4 by (auto simp: inv4_def)
  then show ?case
    using read4 c msg4_short [of i] by (auto simp: inv4_def take4_def after_read_def less_Suc_eq numeral_2_eq_2)
next
  case (kill4 i n)
  then show ?case by (auto simp: inv4_def kill_kid_def split: phase4.splits)
next
  case (kid4 i p)
  note eff = kid_step_effect [OF kid4(2)]
  show ?case
  proof (cases "ph4 s")
    case (Fork4 k)
    then show ?thesis using kid4 eff by (cases "i < k") (auto simp: inv4_def)
  next
    case (Read4 k)
    let ?q = "pipe4 s"
    have inv: "k < 2" "out4 s = map msg4 [0..<k]" "\<forall>j < k. \<not> may_write (kid ?q j)"
      "contents ?q \<in> {[], msg4 k}" "may_write (kid ?q k) \<longrightarrow> contents ?q = []" "parent_writes ?q"
      "\<forall>j. k < j \<longrightarrow> kid ?q j = Unborn"
      using kid4(3) Read4 by (simp_all add: inv4_def)
    have "kid ?q i \<noteq> Unborn" using eff by auto
    then have "i \<le> k" using inv(7) not_less by blast
    then have other: "\<forall>j. k < j \<longrightarrow> kid p j = Unborn" and "\<forall>j < k. \<not> may_write (kid p j)"
      using inv(3,7) eff by (metis leD, metis)
    moreover have "contents p \<in> {[], msg4 k} \<and> (may_write (kid p k) \<longrightarrow> contents p = [])"
    proof (cases "i = k")
      case True
      have "may_write Writing" "\<not> may_write Written" by simp_all
      then show ?thesis using eff inv(4,5) True by (metis append_Nil insert_iff)
    next
      case False
      then have "\<not> may_write (kid ?q i)" using inv(3) \<open>i \<le> k\<close> by simp
      then have "contents p = contents ?q" using eff may_write.simps(3) by metis
      then show ?thesis using eff inv(4,5) False by metis
    qed
    ultimately show ?thesis using inv Read4 eff by (simp add: inv4_def)
  qed (use kid4 eff in \<open>auto simp: inv4_def\<close>)
qed (auto simp: inv4_def take4_def upt_two)

text \<open>No step but a read moves the parent from where it reads, and there is nothing to read.\<close>

lemma stuck4_step:
  assumes "step4 s t" and "ph4 s = Read4 i" and "inv4 s" and "contents (pipe4 s) = []" and "\<not> may_write (kid (pipe4 s) i)"
  shows "ph4 t = Read4 i \<and> contents (pipe4 t) = [] \<and> \<not> may_write (kid (pipe4 t) i)"
  using assms(1)
proof (cases rule: step4.cases)
  case (kid4 j p)
  note eff = kid_step_effect [OF kid4(3)]
  have "\<not> may_write (kid (pipe4 s) j)"
  proof
    assume w: "may_write (kid (pipe4 s) j)"
    then have "kid (pipe4 s) j \<noteq> Unborn" "j \<noteq> i" using assms(5) by auto
    moreover have "j < i \<Longrightarrow> \<not> may_write (kid (pipe4 s) j)" "i < j \<Longrightarrow> kid (pipe4 s) j = Unborn"
      using assms(2,3) by (simp_all add: inv4_def)
    ultimately show False using w by linarith
  qed
  then have "contents p = contents (pipe4 s)" using eff may_write.simps(3) by metis
  moreover have "\<not> may_write (kid p i)" using eff assms(5) by metis
  ultimately show ?thesis using kid4 assms(2,4) by simp
qed (use assms in \<open>auto simp: inv4_def no_writers_def kill_kid_def\<close>)


subsection \<open>A parent that reads to the end\<close>

text \<open>
  task\_05.c: the children write only if the flag is set that the handler of SIGINT sets, and the parent reads byte
  by byte until no write end is open. The signal can reach the parent and the children that have not tested their
  copy of the flag at any time.
\<close>

datatype phase5 = Fork5 nat | Close5 | Loop5 | CloseR5 | Wait5 nat | Exit5 int

record sys5 =
  ph5 :: phase5
  flag5 :: bool
  pipe5 :: pipe_sys
  out5 :: string

definition msg5 :: "nat \<Rightarrow> string" where
  "msg5 i = (if i = 0 then replicate 13 (CHR ''a'') else replicate 5 (CHR ''b'')) @ [CHR 0x0A]"

inductive step5 :: "sys5 \<Rightarrow> sys5 \<Rightarrow> bool" for s where
  fork5: "ph5 s = Fork5 i \<Longrightarrow> i < 2 \<Longrightarrow>
    step5 s (s\<lparr>ph5 := (if i + 1 < 2 then Fork5 (i + 1) else Close5),
      pipe5 := (pipe5 s)\<lparr>kid := (kid (pipe5 s))(i := Testing (flag5 s))\<rparr>\<rparr>)"
| fork5_fails: "ph5 s = Fork5 i \<Longrightarrow>
    step5 s (s\<lparr>ph5 := Exit5 1, pipe5 := (pipe5 s)\<lparr>parent_reads := False, parent_writes := False\<rparr>\<rparr>)"
| close5: "ph5 s = Close5 \<Longrightarrow> step5 s (s\<lparr>ph5 := Loop5, pipe5 := (pipe5 s)\<lparr>parent_writes := False\<rparr>\<rparr>)"
| read5: "ph5 s = Loop5 \<Longrightarrow> contents (pipe5 s) = c # cs \<Longrightarrow>
    step5 s (s\<lparr>out5 := out5 s @ [c], pipe5 := (pipe5 s)\<lparr>contents := cs\<rparr>\<rparr>)"
| eof5: "ph5 s = Loop5 \<Longrightarrow> contents (pipe5 s) = [] \<Longrightarrow> no_writers (pipe5 s) \<Longrightarrow> step5 s (s\<lparr>ph5 := CloseR5\<rparr>)"
| close_r5: "ph5 s = CloseR5 \<Longrightarrow> step5 s (s\<lparr>ph5 := Wait5 0, pipe5 := (pipe5 s)\<lparr>parent_reads := False\<rparr>\<rparr>)"
| wait5: "ph5 s = Wait5 i \<Longrightarrow> i < 2 \<Longrightarrow> kid (pipe5 s) i = Gone st \<Longrightarrow>
    step5 s (s\<lparr>ph5 := Wait5 (i + 1), pipe5 := (pipe5 s)\<lparr>kid := (kid (pipe5 s))(i := Reaped st),
      reports := reports (pipe5 s) @ wait_report (int i) st\<rparr>\<rparr>)"
| done5: "ph5 s = Wait5 2 \<Longrightarrow> step5 s (s\<lparr>ph5 := Exit5 0\<rparr>)"
| kid5: "i < 2 \<Longrightarrow> kid_step msg5 i (pipe5 s) p \<Longrightarrow> step5 s (s\<lparr>pipe5 := p\<rparr>)"

text \<open>SIGINT, and signals that kill a child.\<close>

inductive signal5 :: "sys5 \<Rightarrow> sys5 \<Rightarrow> bool" for s where
  to_parent: "signal5 s (s\<lparr>flag5 := True\<rparr>)"
| to_kill: "i < 2 \<Longrightarrow> signal5 s (s\<lparr>pipe5 := kill_kid i n (pipe5 s)\<rparr>)"
| to_kid: "kid (pipe5 s) i = Testing f \<Longrightarrow>
    signal5 s (s\<lparr>pipe5 := (pipe5 s)\<lparr>kid := (kid (pipe5 s))(i := Testing True)\<rparr>\<rparr>)"

definition start5 :: "bool \<Rightarrow> sys5" where
  "start5 f = \<lparr>ph5 = Fork5 0, flag5 = f, pipe5 = pipe_start, out5 = []\<rparr>"

text \<open>Executions with the number of steps of the programs in them; the signals are not counted.\<close>

inductive run5 :: "bool \<Rightarrow> nat \<Rightarrow> sys5 \<Rightarrow> bool" for f where
  run5_start: "run5 f 0 (start5 f)"
| run5_step: "run5 f n s \<Longrightarrow> step5 s t \<Longrightarrow> run5 f (Suc n) t"
| run5_signal: "run5 f n s \<Longrightarrow> signal5 s t \<Longrightarrow> run5 f n t"

fun ended :: "kid \<Rightarrow> bool" where
  "ended (Gone _) = True"
| "ended (Reaped _) = True"
| "ended _ = False"

definition unreaped :: "nat \<Rightarrow> pipe_sys \<Rightarrow> bool" where
  "unreaped n p \<longleftrightarrow> (\<forall>j. n \<le> j \<longleftrightarrow> kid p j = Unborn) \<and> (\<forall>j st. kid p j \<noteq> Reaped st) \<and> parent_reads p"

definition all_ended :: "pipe_sys \<Rightarrow> bool" where
  "all_ended p \<longleftrightarrow> (\<forall>j < 2. ended (kid p j)) \<and> contents p = []"

definition kids5 :: "sys5 \<Rightarrow> bool" where
  "kids5 s \<longleftrightarrow>
     (case ph5 s of
        Fork5 i \<Rightarrow> i < 2 \<and> unreaped i (pipe5 s)
      | Close5 \<Rightarrow> unreaped 2 (pipe5 s)
      | Loop5 \<Rightarrow> unreaped 2 (pipe5 s) \<and> \<not> parent_writes (pipe5 s)
      | CloseR5 \<Rightarrow> all_ended (pipe5 s) \<and> (\<forall>j < 2. \<exists>st. kid (pipe5 s) j = Gone st)
      | Wait5 i \<Rightarrow> all_ended (pipe5 s) \<and> i \<le> 2 \<and> (\<forall>j < 2. i \<le> j \<longrightarrow> (\<exists>st. kid (pipe5 s) j = Gone st))
      | Exit5 n \<Rightarrow> n = 0 \<longrightarrow> all_ended (pipe5 s))"

definition text5 :: "sys5 \<Rightarrow> bool" where
  "text5 s \<longleftrightarrow> out5 s @ contents (pipe5 s) = concat (map msg5 (written_by (pipe5 s))) \<and>
     distinct (written_by (pipe5 s)) \<and> set (written_by (pipe5 s)) \<subseteq> {..<2} \<and>
     (\<forall>i \<in> set (written_by (pipe5 s)). \<not> may_write (kid (pipe5 s) i) \<and> kid (pipe5 s) i \<noteq> Unborn)"

lemma no_reaped_step: "kid_step msg i s t \<Longrightarrow> \<not> ended (kid s i)"
  by (auto elim!: kid_stepE)

lemma not_reaped: "kid_step msg i s t \<Longrightarrow> kid t i \<noteq> Reaped st"
  by (auto elim!: kid_stepE)

lemma kid_keeps_unreaped:
  assumes "kid_step msg5 i (pipe5 s) p" and "unreaped n (pipe5 s)"
  shows "unreaped n p"
proof -
  note eff = kid_step_effect [OF assms(1)]
  have "kid p j = Unborn \<longleftrightarrow> kid (pipe5 s) j = Unborn" for j
    using eff by (cases "j = i") auto
  moreover have "kid p j \<noteq> Reaped st" for j st
    using eff not_reaped [OF assms(1)] assms(2) by (cases "j = i") (auto simp: unreaped_def)
  ultimately show ?thesis using assms(2) eff by (simp add: unreaped_def)
qed

lemma kids5_step: "step5 s t \<Longrightarrow> kids5 s \<Longrightarrow> kids5 t"
proof (induction rule: step5.induct)
  case (fork5 i)
  have "n \<noteq> i \<and> i \<le> n \<longleftrightarrow> i + 1 \<le> n" for n by auto
  then have "unreaped (i + 1) ((pipe5 s)\<lparr>kid := (kid (pipe5 s))(i := Testing (flag5 s))\<rparr>)"
    using fork5 by (auto simp: kids5_def unreaped_def)
  moreover have "i = 0 \<or> i = 1" using fork5 by auto
  ultimately show ?case using fork5(1) by (auto simp: kids5_def numeral_2_eq_2)
next
  case eof5
  have "\<exists>st. kid (pipe5 s) j = Gone st" if "j < 2" for j
  proof -
    have "kid (pipe5 s) j \<noteq> Unborn" "\<not> alive (kid (pipe5 s) j)" "\<And>st. kid (pipe5 s) j \<noteq> Reaped st"
      using eof5 that by (auto simp: kids5_def unreaped_def no_writers_def not_le [symmetric])
    then show ?thesis by (cases "kid (pipe5 s) j") auto
  qed
  then show ?case using eof5 by (force simp: kids5_def all_ended_def)
next
  case (kid5 i p)
  have "\<not> all_ended (pipe5 s)" using no_reaped_step [OF kid5(2)] kid5(1) by (auto simp: all_ended_def)
  moreover have "parent_writes p = parent_writes (pipe5 s)" using kid_step_effect [OF kid5(2)] by simp
  ultimately show ?case
    using kid5 kid_keeps_unreaped [OF kid5(2)] by (auto simp: kids5_def split: phase5.splits)
next
  case (wait5 i st)
  then show ?case by (auto simp: kids5_def all_ended_def)
next
  case close_r5
  then show ?case by (auto simp: kids5_def all_ended_def)
qed (auto simp: kids5_def unreaped_def)

lemma text5_step: "step5 s t \<Longrightarrow> kids5 s \<Longrightarrow> text5 s \<Longrightarrow> text5 t"
proof (induction rule: step5.induct)
  case (kid5 i p)
  note eff = kid_step_effect [OF kid5(2)]
  have keep: "\<not> may_write (kid p j) \<and> kid p j \<noteq> Unborn" if "j \<in> set (written_by (pipe5 s))" for j
    using eff kid5(4) that by (cases "j = i") (auto simp: text5_def)
  from eff consider "contents p = contents (pipe5 s)" "written_by p = written_by (pipe5 s)"
    | "kid (pipe5 s) i = Writing" "kid p i = Written" "contents p = contents (pipe5 s) @ msg5 i"
      "written_by p = written_by (pipe5 s) @ [i]" by blast
  then show ?case
  proof cases
    case 1
    then show ?thesis using kid5(4) keep by (simp add: text5_def)
  next
    case 2
    then have "i \<notin> set (written_by (pipe5 s))" using kid5(4) by (auto simp: text5_def)
    then show ?thesis using 2 kid5(1,4) keep by (simp add: text5_def)
  qed
next
  case (fork5 i)
  then have "\<forall>j. i \<le> j \<longleftrightarrow> kid (pipe5 s) j = Unborn" by (simp add: kids5_def unreaped_def)
  then have "kid (pipe5 s) i = Unborn" by blast
  then show ?case using fork5 by (auto simp: text5_def)
qed (auto simp: text5_def)

lemma signal5_keeps: "signal5 s t \<Longrightarrow> kids5 s \<Longrightarrow> text5 s \<Longrightarrow> kids5 t \<and> text5 t"
proof (induction rule: signal5.induct)
  case to_parent
  then show ?case by (simp add: kids5_def text5_def split: phase5.splits)
next
  case (to_kill i n)
  let ?p = "kill_kid i n (pipe5 s)"
  have "unreaped k (pipe5 s) \<Longrightarrow> unreaped k ?p" for k
    by (auto simp: unreaped_def kill_kid_def)
  moreover have "all_ended (pipe5 s) \<Longrightarrow> ?p = pipe5 s"
    using to_kill(1) by (cases "kid (pipe5 s) i") (auto simp: all_ended_def kill_kid_def)
  moreover have "text5 (s\<lparr>pipe5 := ?p\<rparr>)" using to_kill by (auto simp: text5_def kill_kid_def)
  moreover have "parent_writes ?p = parent_writes (pipe5 s)" by (simp add: kill_kid_def)
  ultimately show ?case using to_kill(2) by (auto simp: kids5_def split: phase5.splits)
next
  case (to_kid i f)
  let ?p = "(pipe5 s)\<lparr>kid := (kid (pipe5 s))(i := Testing True)\<rparr>"
  have "unreaped n (pipe5 s) \<Longrightarrow> unreaped n ?p" for n
    using to_kid(1) by (auto simp: unreaped_def)
  moreover have "all_ended (pipe5 s) \<Longrightarrow> i \<ge> 2"
    using to_kid(1) by (force simp: all_ended_def not_le [symmetric])
  then have "all_ended (pipe5 s) \<Longrightarrow> all_ended ?p" by (auto simp: all_ended_def)
  moreover have "text5 (s\<lparr>pipe5 := ?p\<rparr>)" using to_kid by (auto simp: text5_def)
  ultimately show ?case
    using to_kid(1,2) \<open>all_ended (pipe5 s) \<Longrightarrow> i \<ge> 2\<close> by (auto simp: kids5_def split: phase5.splits)
qed

lemma run5_inv: "run5 f n s \<Longrightarrow> kids5 s \<and> text5 s"
proof (induction rule: run5.induct)
  case run5_start
  then show ?case by (simp add: kids5_def text5_def start5_def unreaped_def pipe_start_def)
next
  case (run5_step n s t)
  then show ?case using kids5_step text5_step by blast
next
  case (run5_signal n s t)
  then show ?case using signal5_keeps by blast
qed

text \<open>What is left to do.\<close>

fun kid_left :: "kid \<Rightarrow> nat" where
  "kid_left Unborn = 40"
| "kid_left (Testing _) = 30"
| "kid_left Closing = 25"
| "kid_left Writing = 20"
| "kid_left Written = 3"
| "kid_left (Gone _) = 1"
| "kid_left (Reaped _) = 0"

fun parent_left :: "phase5 \<Rightarrow> nat" where
  "parent_left (Fork5 i) = 20 - i"
| "parent_left Close5 = 15"
| "parent_left Loop5 = 14"
| "parent_left CloseR5 = 13"
| "parent_left (Wait5 i) = 12 - i"
| "parent_left (Exit5 _) = 0"

definition left5 :: "sys5 \<Rightarrow> nat" where
  "left5 s = parent_left (ph5 s) + kid_left (kid (pipe5 s) 0) + kid_left (kid (pipe5 s) 1) + length (contents (pipe5 s))"

lemma kid_step_left: "kid_step msg5 i s t \<Longrightarrow> kid_left (kid t i) + length (contents t) < kid_left (kid s i) + length (contents s)"
  by (auto elim!: kid_stepE simp: msg5_def)

lemma left5_step: "step5 s t \<Longrightarrow> kids5 s \<Longrightarrow> left5 t < left5 s"
proof (induction rule: step5.induct)
  case (kid5 i p)
  have "i = 0 \<or> i = 1" using kid5(1) by auto
  then show ?case
    using kid_step_left [OF kid5(2)] kid_step_effect [OF kid5(2)] by (auto simp: left5_def)
next
  case (fork5 i)
  then have "kid (pipe5 s) i = Unborn" by (auto simp: kids5_def unreaped_def)
  moreover have "i = 0 \<or> i = 1" using fork5(2) by auto
  ultimately show ?case using fork5(1) by (auto simp: left5_def)
next
  case (wait5 i st)
  have "i = 0 \<or> i = 1" using wait5(2) by auto
  then show ?case using wait5(1,3) by (auto simp: left5_def)
qed (auto simp: left5_def kids5_def)

lemma left5_signal: "signal5 s t \<Longrightarrow> left5 t \<le> left5 s"
proof (induction rule: signal5.induct)
  case (to_kill i n)
  have "alive k \<Longrightarrow> 1 \<le> kid_left k" for k by (cases k) simp_all
  moreover have "i = 0 \<or> i = 1" using to_kill by auto
  ultimately show ?case by (auto simp: left5_def kill_kid_def)
qed (auto simp: left5_def)

text \<open>A child that has not ended can go on by itself.\<close>

lemma kid_can_step:
  assumes "alive (kid s i)"
  shows "\<exists>t. kid_step msg i s t"
proof (cases "kid s i")
  case (Testing f)
  then show ?thesis by (cases f) (auto intro: kid_flag kid_no_signal)
next
  case Writing
  then show ?thesis by (metis kid_write kid_sigpipe)
qed (use assms in \<open>auto intro: kid_close kid_exit\<close>)

lemma no_deadlock5:
  assumes "kids5 s"
  shows "(\<exists>n. ph5 s = Exit5 n) \<or> (\<exists>t. step5 s t)"
proof (cases "ph5 s")
  case Loop5
  show ?thesis
  proof (cases "contents (pipe5 s)")
    case Nil
    show ?thesis
    proof (cases "\<exists>i < 2. alive (kid (pipe5 s) i)")
      case True
      then obtain i p where "i < 2" "kid_step msg5 i (pipe5 s) p" using kid_can_step by blast
      then show ?thesis by (blast intro: step5.kid5)
    next
      case False
      with assms Loop5 have "no_writers (pipe5 s)" by (simp add: kids5_def no_writers_def)
      with Nil Loop5 show ?thesis by (blast intro: step5.eof5)
    qed
  next
    case (Cons c cs)
    with Loop5 show ?thesis by (blast intro: step5.read5)
  qed
next
  case (Wait5 i)
  with assms have "i \<le> 2" "i < 2 \<longrightarrow> (\<exists>st. kid (pipe5 s) i = Gone st)" by (auto simp: kids5_def)
  then consider "i = 2" | st where "i < 2" "kid (pipe5 s) i = Gone st" by force
  then show ?thesis
    by cases (use Wait5 in \<open>blast intro: step5.done5 step5.wait5\<close>)+
next
  case (Fork5 i)
  with assms show ?thesis by (auto simp: kids5_def intro: step5.fork5)
qed (blast intro: step5.close5 step5.close_r5)+


subsection \<open>Properties of the parents\<close>

text \<open>The first parent ends with 0 only after printing the first message, the second one and an empty
  string, whatever the order of the children's steps; and if a child is killed before it has written, the
  parent, which still holds a write end itself, waits in that read for ever.\<close>

theorem t4_messages:
  assumes "step4\<^sup>*\<^sup>* start4 s"
  shows "(ph4 s = Exit4 0 \<longrightarrow> out4 s = [msg4 0, msg4 1, []]) \<and>
    (ph4 s = Read4 i \<and> contents (pipe4 s) = [] \<and> \<not> may_write (kid (pipe4 s) i) \<and> step4\<^sup>*\<^sup>* s t \<longrightarrow> ph4 t = Read4 i)"
proof -
  have inv: "inv4 s" using assms by (induction rule: rtranclp_induct) (auto intro: inv4_start inv4_step)
  have "ph4 t = Read4 i" if "step4\<^sup>*\<^sup>* s t" "ph4 s = Read4 i" "contents (pipe4 s) = []" "\<not> may_write (kid (pipe4 s) i)"
  proof -
    from that(1) have "inv4 t \<and> ph4 t = Read4 i \<and> contents (pipe4 t) = [] \<and> \<not> may_write (kid (pipe4 t) i)"
    proof (induction rule: rtranclp_induct)
      case base
      then show ?case using inv that by simp
    next
      case (step u v)
      then show ?case using stuck4_step [OF step(2)] inv4_step [OF step(2)] by blast
    qed
    then show ?thesis by simp
  qed
  then show ?thesis using inv by (auto simp: inv4_def)
qed

theorem t4_messages_witness:
  "\<exists>s. step4\<^sup>*\<^sup>* start4 s \<and> ph4 s = Read4 0 \<and> kid (pipe4 s) 0 = Gone (WSignaled 9) \<and>
     (\<forall>t. step4\<^sup>*\<^sup>* s t \<longrightarrow> ph4 t = Read4 0)"
proof -
  let ?s1 = "start4\<lparr>ph4 := Read4 0, pipe4 := (pipe4 start4)\<lparr>kid := (kid (pipe4 start4))(0 := Closing)\<rparr>\<rparr>"
  let ?s2 = "?s1\<lparr>pipe4 := kill_kid 0 9 (pipe4 ?s1)\<rparr>"
  have 1: "step4 start4 ?s1" by (rule step4.fork4) (simp add: start4_def)
  have 2: "step4 ?s1 ?s2" by (rule step4.kill4) simp
  have r: "step4\<^sup>*\<^sup>* start4 ?s2"
    by (rule rtranclp.rtrancl_into_rtrancl, rule r_into_rtranclp, rule 1, rule 2)
  have k: "kid (pipe4 ?s2) 0 = Gone (WSignaled 9)" "contents (pipe4 ?s2) = []" "ph4 ?s2 = Read4 0"
    by (simp_all add: kill_kid_def start4_def pipe_start_def)
  then have "\<forall>t. step4\<^sup>*\<^sup>* ?s2 t \<longrightarrow> ph4 t = Read4 0" using t4_messages [OF r, of 0] by simp
  with r k show ?thesis by blast
qed

text \<open>The second parent always comes to an end: the programs make at most a hundred steps, whatever
  signals arrive, and until the parent has ended one of them can make a step.\<close>

theorem t5_ends:
  assumes "run5 f n s"
  shows "n \<le> 100 \<and> ((\<exists>status. ph5 s = Exit5 status) \<or> (\<exists>t. step5 s t))"
proof -
  have "n + left5 s \<le> 100"
    using assms
  proof (induction rule: run5.induct)
    case run5_start
    then show ?case by (simp add: left5_def start5_def pipe_start_def)
  next
    case (run5_step n s t)
    then show ?case using left5_step [OF run5_step(2)] run5_inv by fastforce
  next
    case (run5_signal n s t)
    then show ?case using left5_signal by fastforce
  qed
  then show ?thesis using no_deadlock5 run5_inv [OF assms] by auto
qed

text \<open>With the flag set before the first fork every child that is not killed has written.\<close>

definition flags5 :: "sys5 \<Rightarrow> bool" where
  "flags5 s \<longleftrightarrow> flag5 s \<and> (\<forall>i. kid (pipe5 s) i \<noteq> Testing False \<and>
     (kid (pipe5 s) i \<in> {Written, Gone (WExited 0), Reaped (WExited 0)} \<longrightarrow> i \<in> set (written_by (pipe5 s))))"

lemma flags5_step: "step5 s t \<Longrightarrow> flags5 s \<Longrightarrow> flags5 t"
proof (induction rule: step5.induct)
  case (kid5 i p)
  from kid5(2,3) show ?case by (auto simp: flags5_def elim!: kid_stepE split: if_splits)
qed (auto simp: flags5_def)

lemma flags5_signal: "signal5 s t \<Longrightarrow> flags5 s \<Longrightarrow> flags5 t"
  by (induction rule: signal5.induct) (auto simp: flags5_def kill_kid_def)

lemma flags5_run: "run5 True n s \<Longrightarrow> flags5 s"
proof (induction rule: run5.induct)
  case run5_start
  then show ?case by (simp add: flags5_def start5_def pipe_start_def)
qed (blast intro: flags5_step flags5_signal)+

text \<open>When the second parent ends with 0 it has printed the messages of exactly the children that wrote,
  each whole and once, in the order of the writes; if the flag was set before the first fork, these are all the children
  that ended with status 0.\<close>

theorem t5_output:
  assumes "run5 f n s" and "ph5 s = Exit5 0"
  shows "out5 s = concat (map msg5 (written_by (pipe5 s))) \<and> distinct (written_by (pipe5 s)) \<and>
    set (written_by (pipe5 s)) \<subseteq> {..<2} \<and>
    (f \<and> kid (pipe5 s) i = Reaped (WExited 0) \<longrightarrow> i \<in> set (written_by (pipe5 s)))"
proof -
  have "all_ended (pipe5 s)" and "text5 s" using run5_inv [OF assms(1)] assms(2) by (simp_all add: kids5_def)
  moreover have "f \<Longrightarrow> flags5 s" using flags5_run assms(1) by (cases f) auto
  ultimately show ?thesis by (auto simp: text5_def all_ended_def flags5_def)
qed

lemma run5_next: "run5 f n s \<Longrightarrow> step5 s t \<Longrightarrow> t = u \<Longrightarrow> m = Suc n \<Longrightarrow> run5 f m u"
  by (simp add: run5_step)

lemma kid_writes5:
  assumes "run5 f n s" and "kid (pipe5 s) i = Testing True" and "i < 2" and "parent_reads (pipe5 s)"
  shows "run5 f (n + 4) (s\<lparr>pipe5 := (pipe5 s)\<lparr>kid := (kid (pipe5 s))(i := Gone (WExited 0)),
    contents := contents (pipe5 s) @ msg5 i, written_by := written_by (pipe5 s) @ [i]\<rparr>\<rparr>)"
proof -
  let ?at = "\<lambda>k. s\<lparr>pipe5 := (pipe5 s)\<lparr>kid := (kid (pipe5 s))(i := k)\<rparr>\<rparr>"
  have "run5 f (n + 1) (?at Closing)"
    using run5_next [OF assms(1) step5.kid5 [OF assms(3) kid_flag [where s = "pipe5 s", OF assms(2)]] refl refl] by simp
  then have "run5 f (n + 2) (?at Writing)"
    by (rule run5_next [OF _ step5.kid5 [OF assms(3) kid_close]]) simp_all
  then have "run5 f (n + 3) ((?at Written)\<lparr>pipe5 := (pipe5 (?at Written))\<lparr>
      contents := contents (pipe5 s) @ msg5 i, written_by := written_by (pipe5 s) @ [i]\<rparr>\<rparr>)"
    by (rule run5_next [OF _ step5.kid5 [OF assms(3) kid_write]]) (simp_all add: assms(4))
  then show ?thesis by (rule run5_next [OF _ step5.kid5 [OF assms(3) kid_exit]]) simp_all
qed

lemma drain5:
  "run5 f n s \<Longrightarrow> ph5 s = Loop5 \<Longrightarrow> contents (pipe5 s) = cs \<Longrightarrow>
     run5 f (n + length cs) (s\<lparr>out5 := out5 s @ cs, pipe5 := (pipe5 s)\<lparr>contents := []\<rparr>\<rparr>)"
proof (induction cs arbitrary: n s)
  case Nil
  then have p: "(pipe5 s)\<lparr>contents := []\<rparr> = pipe5 s" by (cases "pipe5 s") simp
  from Nil(1) show ?case unfolding p by simp
next
  case (Cons c cs)
  from Cons.IH [OF run5_step [OF Cons.prems(1) step5.read5 [OF Cons.prems(2,3)]]] Cons.prems(2)
  show ?case by simp
qed

definition at5 :: "phase5 \<Rightarrow> (nat \<Rightarrow> kid) \<Rightarrow> bool \<Rightarrow> bool \<Rightarrow> report list \<Rightarrow> string \<Rightarrow> nat list \<Rightarrow> string \<Rightarrow> sys5" where
  "at5 ph ks w r reps cs ws out = \<lparr>ph5 = ph, flag5 = True,
     pipe5 = \<lparr>contents = cs, kid = ks, parent_reads = r, parent_writes = w,
       written_by = ws, reports = reps\<rparr>, out5 = out\<rparr>"

text \<open>Both children have written and ended, and nothing has been read.\<close>

lemma both_written5:
  "\<exists>ks. run5 True 11 (at5 Loop5 ks False True [] (msg5 0 @ msg5 1) [0, 1] []) \<and>
     ks 0 = Gone (WExited 0) \<and> ks 1 = Gone (WExited 0)"
proof -
  note d = at5_def start5_def pipe_start_def
  let ?k = "\<lambda>_. Unborn" and ?T = "Testing True"
  have "run5 True 0 (start5 True)" by (rule run5.run5_start)
  then have "run5 True 1 (at5 (Fork5 1) (?k(0 := ?T)) True True [] [] [] [])"
    by (rule run5_next [OF _ step5.fork5 [of "start5 True" 0]])
      (simp_all add: d)
  then have "run5 True 2 (at5 Close5 (?k(0 := ?T, 1 := ?T)) True True [] [] [] [])"
    by (rule run5_next [OF _ step5.fork5 [of "at5 (Fork5 1) (?k(0 := ?T)) True True [] [] [] []" 1]])
      (simp_all add: d)
  then have "run5 True 3 (at5 Loop5 (?k(0 := ?T, 1 := ?T)) False True [] [] [] [])"
    by (rule run5_next [OF _ step5.close5 [of "at5 Close5 (?k(0 := ?T, 1 := ?T)) True True [] [] [] []"]])
      (simp_all add: d)
  from kid_writes5 [OF kid_writes5 [OF this, of 0], of 1] show ?thesis by (auto simp: d)
qed

theorem t5_ends_witness:
  "\<exists>s t. run5 True 11 s \<and> contents (pipe5 s) = msg5 0 @ msg5 1 \<and> step5 s t"
proof -
  obtain ks where r: "run5 True 11 (at5 Loop5 ks False True [] (msg5 0 @ msg5 1) [0, 1] [])"
    using both_written5 by blast
  from t5_ends [OF r] r show ?thesis by (fastforce simp: at5_def)
qed

theorem t5_output_witness:
  "\<exists>n s. run5 True n s \<and> ph5 s = Exit5 0 \<and> out5 s = ''aaaaaaaaaaaaa'' @ [CHR 0x0A] @ ''bbbbb'' @ [CHR 0x0A]"
proof -
  let ?R = "\<lambda>ks i. ks(i := Reaped (WExited 0))" and ?out = "msg5 0 @ msg5 1"
    and ?e0 = "ExitedWith 0 0" and ?e1 = "ExitedWith 1 0"
  obtain ks where "run5 True 11 (at5 Loop5 ks False True [] ?out [0, 1] [])"
    and k: "ks 0 = Gone (WExited 0)" "ks 1 = Gone (WExited 0)"
    using both_written5 by blast
  from drain5 [OF this(1)] have "run5 True 31 (at5 Loop5 ks False True [] [] [0, 1] ?out)"
    by (simp add: at5_def msg5_def)
  then have "run5 True 32 (at5 CloseR5 ks False True [] [] [0, 1] ?out)"
    by (rule run5_next [OF _ step5.eof5 [of "at5 Loop5 ks False True [] [] [0, 1] ?out"]])
      (auto simp: at5_def no_writers_def less_2_cases_iff k [simplified])
  then have "run5 True 33 (at5 (Wait5 0) ks False False [] [] [0, 1] ?out)"
    by (rule run5_next [OF _ step5.close_r5 [of "at5 CloseR5 ks False True [] [] [0, 1] ?out"]])
      (simp_all add: at5_def)
  then have "run5 True 34 (at5 (Wait5 1) (?R ks 0) False False [?e0] [] [0, 1] ?out)"
    by (rule run5_next [OF _ step5.wait5 [of "at5 (Wait5 0) ks False False [] [] [0, 1] ?out" 0 "WExited 0"]])
      (simp_all add: at5_def k [simplified])
  then have "run5 True 35 (at5 (Wait5 2) (?R (?R ks 0) 1) False False [?e0, ?e1] [] [0, 1] ?out)"
    by (rule run5_next [OF _ step5.wait5 [of "at5 (Wait5 1) (?R ks 0) False False [?e0] [] [0, 1] ?out" 1 "WExited 0"]])
      (simp_all add: at5_def k [simplified])
  then have r: "run5 True 36 (at5 (Exit5 0) (?R (?R ks 0) 1) False False [?e0, ?e1] [] [0, 1] ?out)"
    by (rule run5_next [OF _ step5.done5 [of "at5 (Wait5 2) (?R (?R ks 0) 1) False False [?e0, ?e1] [] [0, 1] ?out"]])
      (simp_all add: at5_def)
  have e: "ph5 (at5 (Exit5 0) (?R (?R ks 0) 1) False False [?e0, ?e1] [] [0, 1] ?out) = Exit5 0" by (simp add: at5_def)
  from t5_output [OF r e, of 0] have "out5 (at5 (Exit5 0) (?R (?R ks 0) 1) False False [?e0, ?e1] [] [0, 1] ?out) = ?out"
    by (simp add: at5_def)
  with r e show ?thesis by (intro exI conjI) (assumption+, simp add: msg5_def numeral_eq_Suc)
qed


subsection \<open>Forking and waiting\<close>

text \<open>
  task\_01.c and the start of task\_02.c and task\_03.c: two forks, the first failure of which ends the program with
  status 1 while the child that exists goes on.
\<close>

definition two_forks :: "bool list \<Rightarrow> nat \<times> int" where
  "two_forks answers = (let (n, ok) = fork_loop 2 answers in (n, if ok then 0 else 1))"

text \<open>
  The loops of task\_02.c and task\_03.c over two calls of \<^verbatim>\<open>wait\<close>, which is not tested: after a failure the
  status of the call before is reported again, for the process -1.
\<close>

fun wait_untested :: "nat \<Rightarrow> wstatus \<Rightarrow> (int \<times> wstatus) option list \<Rightarrow> report list" where
  "wait_untested 0 old ws = []"
| "wait_untested (Suc n) old [] = wait_report (- 1) old @ wait_untested n old []"
| "wait_untested (Suc n) old (None # ws) = wait_report (- 1) old @ wait_untested n old ws"
| "wait_untested (Suc n) old (Some (w, st) # ws) = wait_report w st @ wait_untested n st ws"

text \<open>The child of task\_03.c: what the program it executes ends with, or status 1 when it cannot be executed.\<close>

definition exec_child :: "wstatus option \<Rightarrow> wstatus" where
  "exec_child execl = (case execl of None \<Rightarrow> WExited 1 | Some st \<Rightarrow> st)"

lemma wait_untested_all:
  "length ws = n \<Longrightarrow> wait_untested n old (map Some ws) = concat (map (\<lambda>(w, st). wait_report w st) ws)"
  by (induction ws arbitrary: n old) auto


subsection \<open>The programs that are executed\<close>

text \<open>
  \<^verbatim>\<open>calculate_expression\<close> of more/task\_03\_01.c on the array \<open>xs\<close>: the two pointers are indices. An addition that
  overflows is \<^term>\<open>None\<close>.
\<close>

definition add_int :: "int \<Rightarrow> int \<Rightarrow> int option" where
  "add_int a b = (if is_c_int (a + b) then Some (a + b) else None)"

function calc_while :: "int list \<Rightarrow> int \<Rightarrow> int \<Rightarrow> int \<Rightarrow> int option" where
  "calc_while xs pb pe result =
     (if pb \<le> pe then
        (case add_int (xs ! nat pb) (xs ! nat pe) of
           None \<Rightarrow> None
         | Some s \<Rightarrow> calc_while xs (pb + 1) (pe - 1) (max result s))
      else Some result)"
  by pat_completeness auto
termination by (relation "measure (\<lambda>(xs, pb, pe, result). nat (pe - pb + 1))") auto

declare calc_while.simps [simp del]

definition calculate_expression :: "int list \<Rightarrow> int option" where
  "calculate_expression xs =
     (let pe = int (length xs) - 1 in
      case add_int (xs ! 0) (xs ! nat pe) of None \<Rightarrow> None | Some s \<Rightarrow> calc_while xs 0 pe s)"

text \<open>\<^verbatim>\<open>array_input\<close>, on what the calls of \<^verbatim>\<open>scanf\<close> yield, and \<^verbatim>\<open>main\<close>; the length is read as an unsigned number.\<close>

fun array_input :: "nat \<Rightarrow> int option list \<Rightarrow> int list option" where
  "array_input 0 ts = Some []"
| "array_input (Suc n) (Some x # ts) = map_option (Cons x) (array_input n ts)"
| "array_input (Suc n) ts = None"

definition N_MAX_SIZE :: nat where "N_MAX_SIZE = 10"

datatype app_outcome = WrongSize | IncorrectData | AppResult int | AppOverflow

definition app1_main :: "nat option \<Rightarrow> int option list \<Rightarrow> app_outcome" where
  "app1_main n ts =
     (case n of
        None \<Rightarrow> WrongSize
      | Some len \<Rightarrow>
          if len > N_MAX_SIZE \<or> len < 1 then WrongSize
          else
            (case array_input len ts of
               None \<Rightarrow> IncorrectData
             | Some xs \<Rightarrow> (case calculate_expression xs of None \<Rightarrow> AppOverflow | Some r \<Rightarrow> AppResult r)))"

text \<open>
  more/task\_03\_02.c: it adds up the inputs, each divided by its number, until one is negative, and takes the
  root; \<^term>\<open>None\<close> is the error exit. The numbers are those of theory Calculators, with a test for being
  negative, the conversion of the counter, and the root.
\<close>

fun g_loop :: "'f flt \<Rightarrow> ('f \<Rightarrow> bool) \<Rightarrow> (nat \<Rightarrow> 'f) \<Rightarrow> 'f \<Rightarrow> nat \<Rightarrow> 'f \<Rightarrow> 'f option list \<Rightarrow> 'f option" where
  "g_loop F neg of_index sum_x index x ts =
     (if neg x then Some sum_x
      else
        (case ts of
           Some y # us \<Rightarrow> g_loop F neg of_index (f_add F sum_x (f_div F x (of_index index))) (index + 1) y us
         | _ \<Rightarrow> None))"

declare g_loop.simps [simp del]

definition app2_main ::
  "'f flt \<Rightarrow> ('f \<Rightarrow> bool) \<Rightarrow> (nat \<Rightarrow> 'f) \<Rightarrow> ('f \<Rightarrow> 'f) \<Rightarrow> 'f option list \<Rightarrow> 'f option" where
  "app2_main F neg of_index root ts =
     (case ts of
        Some x # us \<Rightarrow>
          if neg x then None else map_option root (g_loop F neg of_index (f_zero F) 1 x us)
      | _ \<Rightarrow> None)"

lemma g_loop_sum:
  "\<forall>x \<in> set (x # xs). \<not> neg x \<Longrightarrow> neg y \<Longrightarrow>
     g_loop F neg of_index acc k x (map Some xs @ Some y # rest) =
     Some (fold (\<lambda>(i, z) a. f_add F a (f_div F z (of_index i))) (zip [k..<k + length (x # xs)] (x # xs)) acc)"
proof (induction xs arbitrary: x acc k)
  case Nil
  then show ?case by (simp add: g_loop.simps)
next
  case (Cons z zs)
  have "[k..<k + length (x # z # zs)] = k # [k + 1..<(k + 1) + length (z # zs)]" by (simp add: upt_rec)
  with Cons show ?case by (subst g_loop.simps) (simp del: upt_Suc)
qed

lemma array_input_take: "array_input n ts = Some xs \<Longrightarrow> length xs = n \<and> map Some xs = take n ts"
proof (induction n ts arbitrary: xs rule: array_input.induct)
  case (2 n x ts)
  then show ?case by (auto simp: map_option_case split: option.splits)
qed simp_all

text \<open>The sum of an element and the one opposite.\<close>

definition opposite_sum :: "int list \<Rightarrow> nat \<Rightarrow> int" where
  "opposite_sum xs i = xs ! i + xs ! (length xs - 1 - i)"

lemma Max_insert_max: "finite B \<Longrightarrow> Max (insert (max a b) B) = Max (insert a (insert b B))" for a b :: int
  by (cases "B = {}") (simp_all add: max.assoc)

lemma calc_while_max:
  assumes "n = length xs"
  shows "calc_while xs (int k) (int n - 1 - int k) r =
    (if \<forall>i. k \<le> i \<and> 2 * i < n \<longrightarrow> is_c_int (opposite_sum xs i)
     then Some (Max (insert r (opposite_sum xs ` {i. k \<le> i \<and> 2 * i < n}))) else None)"
proof (induction "n - k" arbitrary: k r rule: less_induct)
  case less
  let ?A = "\<lambda>k. {i. k \<le> i \<and> 2 * i < n}"
  have fin: "finite (?A k)" for k by (rule finite_subset [of _ "{..<n}"]) auto
  show ?case
  proof (cases "2 * k < n")
    case False
    then have none: "?A k = {}" by auto
    then have "\<forall>i. k \<le> i \<and> 2 * i < n \<longrightarrow> is_c_int (opposite_sum xs i)" by auto
    moreover have "\<not> int k \<le> int n - 1 - int k" using False by linarith
    ultimately show ?thesis by (subst calc_while.simps) (simp add: none)
  next
    case True
    have le: "int k \<le> int n - 1 - int k" using True by linarith
    have split: "?A k = insert k (?A (Suc k))" using True by auto
    have all: "(\<forall>i. k \<le> i \<and> 2 * i < n \<longrightarrow> P i) \<longleftrightarrow> P k \<and> (\<forall>i. Suc k \<le> i \<and> 2 * i < n \<longrightarrow> P i)" for P
    proof -
      have le_Suc: "k \<le> i \<longleftrightarrow> i = k \<or> Suc k \<le> i" for i by auto
      show ?thesis unfolding le_Suc using True by blast
    qed
    have idx: "nat (int n - 1 - int k) = length xs - 1 - k" using assms by linarith
    have sum: "add_int (xs ! nat (int k)) (xs ! nat (int n - 1 - int k)) =
        (if is_c_int (opposite_sum xs k) then Some (opposite_sum xs k) else None)"
      by (simp only: add_int_def idx nat_int opposite_sum_def)
    have step_eq: "int k + 1 = int (Suc k)" "int n - 1 - int k - 1 = int n - 1 - int (Suc k)" by simp_all
    have "n - Suc k < n - k" using True by simp
    note ih = less [OF this]
    show ?thesis
    proof (cases "is_c_int (opposite_sum xs k)")
      case False
      then have "\<not> (\<forall>i. k \<le> i \<and> 2 * i < n \<longrightarrow> is_c_int (opposite_sum xs i))" using True by blast
      with False show ?thesis
        by (subst calc_while.simps) (simp only: le sum if_True if_False option.case)
    next
      case ok: True
      have "calc_while xs (int k) (int n - 1 - int k) r =
          calc_while xs (int (Suc k)) (int n - 1 - int (Suc k)) (max r (opposite_sum xs k))"
        by (subst calc_while.simps) (simp only: le sum ok step_eq if_True option.case)
      moreover have "Max (insert (max r (opposite_sum xs k)) (opposite_sum xs ` ?A (Suc k))) =
          Max (insert r (opposite_sum xs ` ?A k))"
        unfolding split image_insert by (rule Max_insert_max) (use fin in simp)
      ultimately show ?thesis using ih [of "max r (opposite_sum xs k)"] ok all [of "\<lambda>i. is_c_int (opposite_sum xs i)"]
        by simp
    qed
  qed
qed

lemma opposite_sum_sym: "i < length xs \<Longrightarrow> opposite_sum xs (length xs - 1 - i) = opposite_sum xs i"
  by (simp add: opposite_sum_def)

lemma opposite_half:
  "(\<exists>i. 2 * i < length xs \<and> P (opposite_sum xs i)) \<longleftrightarrow> (\<exists>i < length xs. P (opposite_sum xs i))"
proof
  assume "\<exists>i < length xs. P (opposite_sum xs i)"
  then obtain i where i: "i < length xs" "P (opposite_sum xs i)" by blast
  show "\<exists>i. 2 * i < length xs \<and> P (opposite_sum xs i)"
  proof (cases "2 * i < length xs")
    case False
    then have "2 * (length xs - 1 - i) < length xs" using i by linarith
    then show ?thesis using opposite_sum_sym [OF i(1)] i(2) by metis
  qed (use i in blast)
next
  assume "\<exists>i. 2 * i < length xs \<and> P (opposite_sum xs i)"
  then obtain i where "2 * i < length xs" "P (opposite_sum xs i)" by blast
  then show "\<exists>i < length xs. P (opposite_sum xs i)" by (intro exI [of _ i]) simp
qed

lemma opposite_half_image: "opposite_sum xs ` {i. 2 * i < length xs} = opposite_sum xs ` {..<length xs}"
proof (rule set_eqI)
  fix y
  show "y \<in> opposite_sum xs ` {i. 2 * i < length xs} \<longleftrightarrow> y \<in> opposite_sum xs ` {..<length xs}"
    using opposite_half [of xs "\<lambda>z. y = z"] unfolding image_iff by blast
qed

text \<open>The program that the children execute prints the largest sum of an element and the one opposite to
  it, for one to ten numbers, and stops before any output when the size or a number is wrong; an addition
  overflows exactly when one of these sums is no \<^verbatim>\<open>int\<close>.\<close>

theorem app1_result:
  "app1_main n ts =
    (case n of None \<Rightarrow> WrongSize
     | Some len \<Rightarrow>
        if len < 1 \<or> 10 < len then WrongSize
        else (case array_input len ts of None \<Rightarrow> IncorrectData
              | Some xs \<Rightarrow>
                  if \<exists>i < len. \<not> is_c_int (opposite_sum xs i) then AppOverflow
                  else AppResult (Max (opposite_sum xs ` {..<len}))))"
proof -
  have calc: "calculate_expression xs =
      (if \<exists>i < length xs. \<not> is_c_int (opposite_sum xs i) then None else Some (Max (opposite_sum xs ` {..<length xs})))"
    if "0 < length xs" for xs
  proof -
    let ?n = "length xs"
    have half: "(\<forall>i. 2 * i < ?n \<longrightarrow> is_c_int (opposite_sum xs i)) \<longleftrightarrow> \<not> (\<exists>i < ?n. \<not> is_c_int (opposite_sum xs i))"
      using opposite_half [of xs "\<lambda>y. \<not> is_c_int y"] by blast
    have first: "add_int (xs ! 0) (xs ! nat (int ?n - 1)) =
        (if is_c_int (opposite_sum xs 0) then Some (opposite_sum xs 0) else None)"
    proof -
      have "nat (int ?n - 1) = ?n - 1 - 0" by simp
      then show ?thesis by (simp only: add_int_def opposite_sum_def)
    qed
    have "insert (opposite_sum xs 0) (opposite_sum xs ` {..<?n}) = opposite_sum xs ` {..<?n}" using that by auto
    then show ?thesis
      using calc_while_max [OF refl, of xs 0 "opposite_sum xs 0"] half that
      by (auto simp: calculate_expression_def Let_def first opposite_half_image)
  qed
  show ?thesis
  proof (cases n)
    case (Some len)
    show ?thesis
    proof (cases "array_input len ts")
      case (Some xs)
      with array_input_take have "length xs = len" by blast
      then show ?thesis using Some \<open>n = Some len\<close> calc [of xs] by (auto simp: app1_main_def N_MAX_SIZE_def)
    qed (use Some in \<open>simp add: app1_main_def N_MAX_SIZE_def\<close>)
  qed (simp add: app1_main_def)
qed

end
