(* ===== verification/Sock_Exercises.thy ===== *)
theory Sock_Exercises
  imports Calculators
begin

section \<open>Socket exercises\<close>

text \<open>
  Models of four programs under lab-socket: three children that exchange messages with their parent over one
  pair of connected sockets (task-01), a server and a client for datagrams (task-02), the client of the calculator
  (task-03), and the table that compares the times of the letter servers (task-07). Printing and sleeping are left
  out where they only report or delay.
\<close>

subsection \<open>A pair of sockets\<close>

definition CHILD_COUNT :: nat where "CHILD_COUNT = 3"

definition messages :: "string list" where
  "messages = [''aaaa'', ''bb'', ''ccccc'', ''dddddddd'', ''eee'', ''ffffffffffff'']"

text \<open>A message as it is sent, with its terminating zero.\<close>

definition message :: "nat \<Rightarrow> string" where
  "message i = messages ! i @ [CHR 0x00]"

datatype sp_child = SpNone | SpWrite | SpRead | SpDone string
datatype sp_parent = SpFork nat | SpReceive nat | SpSend nat | SpClosed | SpFailed

text \<open>
  The bytes on the way to the parent and to the children, which all read from the same end. The last fields
  record what the parent received, and what the children have read in the order of the reads.
\<close>

record sp_sys =
  sp_par :: sp_parent
  sp_kid :: "nat \<Rightarrow> sp_child"
  up :: string
  down :: string
  sp_received :: "string list"
  sp_taken :: string

text \<open>A read of at most \<open>n\<close> bytes takes what there is.\<close>

fun sp_step :: "sp_sys \<Rightarrow> nat option \<Rightarrow> bool \<Rightarrow> sp_sys option" where
  "sp_step s None ok =
     (case sp_par s of
        SpFork i \<Rightarrow>
          if ok then Some (s\<lparr>sp_par := SpReceive i, sp_kid := (sp_kid s)(i := SpWrite)\<rparr>)
          else Some (s\<lparr>sp_par := SpFailed\<rparr>)
      | SpReceive i \<Rightarrow>
          if up s = [] then None
          else
            let n = length (message (i + 3)) in
            Some (s\<lparr>sp_par := SpSend i, up := drop n (up s), sp_received := sp_received s @ [take n (up s)]\<rparr>)
      | SpSend i \<Rightarrow>
          Some (s\<lparr>sp_par := (if i + 1 < CHILD_COUNT then SpFork (i + 1) else SpClosed), down := down s @ message i\<rparr>)
      | _ \<Rightarrow> None)"
| "sp_step s (Some i) ok =
     (case sp_kid s i of
        SpWrite \<Rightarrow> Some (s\<lparr>sp_kid := (sp_kid s)(i := SpRead), up := up s @ message (i + 3)\<rparr>)
      | SpRead \<Rightarrow>
          if down s = [] \<and> sp_par s \<noteq> SpClosed \<and> sp_par s \<noteq> SpFailed then None
          else
            let n = length (message i) in
            Some (s\<lparr>sp_kid := (sp_kid s)(i := SpDone (take n (down s))), down := drop n (down s),
              sp_taken := sp_taken s @ take n (down s)\<rparr>)
      | _ \<Rightarrow> None)"

definition sp_exec :: "sp_sys \<Rightarrow> nat option \<times> bool \<Rightarrow> sp_sys option" where
  "sp_exec s e = sp_step s (fst e) (snd e)"

definition sp_start :: sp_sys where
  "sp_start = \<lparr>sp_par = SpFork 0, sp_kid = (\<lambda>_. SpNone), up = [], down = [], sp_received = [], sp_taken = []\<rparr>"

text \<open>How many children the parent has heard from and answered.\<close>

fun heard :: "sp_parent \<Rightarrow> nat \<Rightarrow> nat" where
  "heard (SpFork i) n = i"
| "heard (SpReceive i) n = i"
| "heard (SpSend i) n = Suc i"
| "heard SpClosed n = CHILD_COUNT"
| "heard SpFailed n = n"

fun answered :: "sp_parent \<Rightarrow> nat \<Rightarrow> nat" where
  "answered (SpFork i) n = i"
| "answered (SpReceive i) n = i"
| "answered (SpSend i) n = i"
| "answered SpClosed n = CHILD_COUNT"
| "answered SpFailed n = n"

definition sp_inv :: "sp_sys \<Rightarrow> bool" where
  "sp_inv s \<longleftrightarrow> (\<exists>k \<le> CHILD_COUNT.
     sp_received s = map (\<lambda>i. message (i + 3)) [0..<heard (sp_par s) k] \<and>
     sp_taken s @ down s = concat (map message [0..<answered (sp_par s) k]) \<and>
     (case sp_par s of
        SpFork i \<Rightarrow> i < CHILD_COUNT \<and> up s = [] \<and> (\<forall>j. sp_kid s j \<noteq> SpWrite) \<and> (\<forall>j \<ge> i. sp_kid s j = SpNone)
      | SpReceive i \<Rightarrow> i < CHILD_COUNT \<and> (\<forall>j. j \<noteq> i \<longrightarrow> sp_kid s j \<noteq> SpWrite) \<and> (\<forall>j > i. sp_kid s j = SpNone) \<and>
          up s = (if sp_kid s i = SpWrite then [] else message (i + 3))
      | SpSend i \<Rightarrow> i < CHILD_COUNT \<and> up s = [] \<and> (\<forall>j. sp_kid s j \<noteq> SpWrite) \<and> (\<forall>j > i. sp_kid s j = SpNone)
      | SpClosed \<Rightarrow> \<forall>j. sp_kid s j \<noteq> SpWrite
      | SpFailed \<Rightarrow> \<forall>j. sp_kid s j \<noteq> SpWrite))"

lemma message_nonempty: "message i \<noteq> []"
  by (simp add: message_def)

lemma sp_inv_parent:
  assumes inv: "sp_inv s" and ex: "sp_step s None ok = Some t"
  shows "sp_inv t"
proof -
  obtain k where k: "k \<le> CHILD_COUNT" "sp_received s = map (\<lambda>i. message (i + 3)) [0..<heard (sp_par s) k]"
    "sp_taken s @ down s = concat (map message [0..<answered (sp_par s) k])"
    using inv by (auto simp: sp_inv_def)
  show ?thesis
  proof (cases "sp_par s")
    case (SpFork i)
    then show ?thesis using inv ex k
      by (cases ok) (auto simp: sp_inv_def intro!: exI [of _ i])
  next
    case (SpReceive i)
    then have "sp_kid s i \<noteq> SpWrite" "up s = message (i + 3)" "i < CHILD_COUNT"
      "\<forall>j. j \<noteq> i \<longrightarrow> sp_kid s j \<noteq> SpWrite"
      using inv ex by (auto simp: sp_inv_def split: if_splits)
    moreover then have "\<forall>j. sp_kid s j \<noteq> SpWrite" by metis
    ultimately show ?thesis using SpReceive inv ex k message_nonempty by (auto simp: sp_inv_def Let_def)
  next
    case (SpSend i)
    have "i + 1 < CHILD_COUNT \<or> CHILD_COUNT = Suc i" using SpSend inv by (auto simp: sp_inv_def)
    then show ?thesis
    proof
      assume "i + 1 < CHILD_COUNT"
      then show ?thesis
        using SpSend inv ex k append_assoc [of "sp_taken s" "down s" "message i"]
        by (auto simp: sp_inv_def simp del: append_assoc)
    next
      assume n: "CHILD_COUNT = Suc i"
      then have upt: "[0..<CHILD_COUNT] = [0..<i] @ [i]" unfolding n by simp
      have t: "t = s\<lparr>sp_par := SpClosed, down := down s @ message i\<rparr>" using ex SpSend n by simp
      have "sp_received s = map (\<lambda>i. message (i + 3)) [0..<CHILD_COUNT]" using k(2) SpSend upt by simp
      moreover have "sp_taken s @ down s @ message i = concat (map message [0..<CHILD_COUNT])"
        using k(3) SpSend by (simp add: upt append_assoc [symmetric] del: append_assoc)
      ultimately show ?thesis using inv SpSend k(1) by (auto simp: sp_inv_def t)
    qed
  qed (use ex in simp_all)
qed

lemma sp_inv_child:
  assumes inv: "sp_inv s" and ex: "sp_step s (Some i) ok = Some t"
  shows "sp_inv t"
proof -
  obtain k where k: "k \<le> CHILD_COUNT" "sp_received s = map (\<lambda>i. message (i + 3)) [0..<heard (sp_par s) k]"
    "sp_taken s @ down s = concat (map message [0..<answered (sp_par s) k])"
    using inv by (auto simp: sp_inv_def)
  show ?thesis
  proof (cases "sp_kid s i")
    case SpWrite
    then obtain j where j: "sp_par s = SpReceive j" "i = j" using inv by (auto simp: sp_inv_def split: sp_parent.splits)
    then show ?thesis using SpWrite inv ex k by (auto simp: sp_inv_def)
  next
    case SpRead
    have "sp_kid s j = SpNone \<Longrightarrow> j \<noteq> i" for j using SpRead by auto
    then show ?thesis
      using SpRead inv ex k append_assoc [of "sp_taken s" "take n (down s)" "drop n (down s)" for n]
      by (auto simp: sp_inv_def Let_def split: sp_parent.splits if_splits)
  qed (use ex in simp_all)
qed

lemma sp_inv_exec: "sp_inv s \<Longrightarrow> sp_exec s e = Some t \<Longrightarrow> sp_inv t"
  by (cases "fst e") (auto simp: sp_exec_def intro: sp_inv_parent sp_inv_child)

interpretation sp: invariant_system sp_exec sp_start sp_inv
proof
  show "sp_inv sp_start" by (auto simp: sp_inv_def sp_start_def CHILD_COUNT_def)
qed (rule sp_inv_exec)

text \<open>Whatever the order of the steps, the parent receives the children's messages in the order of the
  children, each as it was sent; and the children together read the parent's messages in order, without
  loss, but a child need not get the one meant for it.\<close>

theorem sp_streams:
  assumes "reach sp_exec sp_start s"
  shows "\<exists>k \<le> 3. \<exists>m \<le> k. sp_received s = map message [3..<3 + k] \<and> sp_taken s @ down s = concat (map message [0..<m])"
proof -
  have inv: "sp_inv s" by (rule sp.reach_inv [OF assms])
  then obtain k where k: "k \<le> 3" "sp_received s = map (\<lambda>i. message (i + 3)) [0..<heard (sp_par s) k]"
    "sp_taken s @ down s = concat (map message [0..<answered (sp_par s) k])"
    by (auto simp: sp_inv_def CHILD_COUNT_def)
  have shift: "map (\<lambda>i. message (i + 3)) [0..<n] = map message [3..<3 + n]" for n
  proof -
    have "map (\<lambda>i. message (i + 3)) [0..<n] = map message (map (\<lambda>i. i + 3) [0..<n])" by simp
    then show ?thesis by (simp only: map_add_upt add.commute)
  qed
  have "heard (sp_par s) k \<le> 3" "answered (sp_par s) k \<le> heard (sp_par s) k"
    using inv k(1) by (auto simp: sp_inv_def CHILD_COUNT_def split: sp_parent.splits)
  with k shift show ?thesis by metis
qed

theorem sp_streams_witness:
  "\<exists>s. run sp_exec sp_start [(None, True), (Some 0, True), (None, True)] = Some s \<and>
     (\<exists>k \<le> 3. sp_received s = map message [3..<3 + k])"
proof -
  obtain s where s: "run sp_exec sp_start [(None, True), (Some 0, True), (None, True)] = Some s"
    by (simp add: sp_exec_def sp_start_def message_def)
  with sp_streams [OF run_reach_init [OF s]] show ?thesis by blast
qed

text \<open>A child that is late loses its message to the next one: the second child can read the first three
  bytes of the first child's message, without an end of string, and the first child the rest of it.\<close>

theorem sp_mixup:
  "\<exists>s. run sp_exec sp_start [(None, True), (Some 0, True), (None, True), (None, True), (None, True), (Some 1, True),
        (Some 1, True), (Some 0, True)] = Some s \<and>
     sp_kid s 1 = SpDone ''aaa'' \<and> sp_kid s 0 = SpDone [CHR ''a'', CHR 0x00]"
  by (simp add: sp_exec_def sp_start_def message_def messages_def CHILD_COUNT_def)


subsection \<open>Datagrams\<close>

definition SOCK_NAME :: string where "SOCK_NAME = ''./server.soc''"
definition DGRAM_BUFF_SIZE :: nat where "DGRAM_BUFF_SIZE = 1024"

text \<open>
  The 14 bytes of an address after \<^verbatim>\<open>strncpy\<close>, which copies the name without its terminating zero over what they
  held, and the path that the system reads there.
\<close>

definition sa_data :: "string \<Rightarrow> string" where
  "sa_data old = SOCK_NAME @ drop (length SOCK_NAME) old"

definition sa_path :: "string \<Rightarrow> string" where
  "sa_path data = takeWhile (\<lambda>c. c \<noteq> CHR 0x00) data"

text \<open>
  The loop of the server. The alarm clears the flag; when it interrupts \<^verbatim>\<open>recvfrom\<close>, that is started again,
  and it may also arrive while a message is printed (the flag of the datagram). The result
  lists what was printed and the status of the exit, \<^term>\<open>None\<close> while the server waits; a datagram that fills the
  buffer makes it write outside, which is the outer \<^term>\<open>None\<close>.
\<close>

datatype dg_event = Datagram string bool | Alarm | RecvFails

fun dg_server :: "bool \<Rightarrow> dg_event list \<Rightarrow> (string list \<times> int option) option" where
  "dg_server flag [] = Some ([], None)"
| "dg_server flag (Alarm # es) = dg_server False es"
| "dg_server flag (RecvFails # es) = Some ([], Some 1)"
| "dg_server flag (Datagram d alarm # es) =
     (let buff = take DGRAM_BUFF_SIZE d in
      if length buff \<ge> DGRAM_BUFF_SIZE then None
      else if flag \<and> \<not> alarm then map_option (\<lambda>(out, st). (sa_path buff # out, st)) (dg_server flag es)
      else Some ([sa_path buff], Some 0))"

text \<open>
  The client: it sends its process id in decimal, without a terminating zero; \<^term>\<open>None\<close> is the exit with status 1.
  Its address is filled with zeros first.
\<close>

definition dg_client :: "string \<Rightarrow> bool \<Rightarrow> bool \<Rightarrow> (string \<times> string) option" where
  "dg_client pid_text socket_ok send_ok =
     (if \<not> socket_ok then None
      else if \<not> send_ok then None
      else Some (sa_path (sa_data (replicate 14 (CHR 0x00))), pid_text))"

lemma length_two: "length zs = 2 \<Longrightarrow> \<exists>x y. zs = [x, y]"
  by (auto simp: numeral_2_eq_2 length_Suc_conv)

lemma soc_length: "length SOCK_NAME = 12"
  by (simp add: SOCK_NAME_def)

text \<open>The server of datagrams is at the path that its clients send to exactly when the byte of its
  address after the name, which it never sets, is zero; it never ends while no alarm has come, and afterwards only
  with the next message; its only undefined behaviour is a message of 1024 bytes or more.\<close>

theorem dg_server_life:
  assumes "length old = 14" and "\<forall>d \<in> set ds. length d < 1024"
  shows "(sa_path (sa_data old) = sa_path (sa_data (replicate 14 (CHR 0x00))) \<longleftrightarrow> old ! 12 = CHR 0x00) \<and>
    dg_server True (map (\<lambda>d. Datagram d False) ds @ [Alarm]) = Some (map sa_path ds, None) \<and>
    dg_server True (map (\<lambda>d. Datagram d False) ds @ [Alarm, Datagram d alarm]) =
      (if length d < 1024 then Some (map sa_path ds @ [sa_path d], Some 0) else None)"
proof (intro conjI)
  have run: "dg_server True (map (\<lambda>d. Datagram d False) ds @ es) =
      map_option (\<lambda>(out, st). (map sa_path ds @ out, st)) (dg_server True es)" for es
    using assms(2)
    by (cases "dg_server True es"; induction ds) (auto simp: DGRAM_BUFF_SIZE_def)
  show "dg_server True (map (\<lambda>d. Datagram d False) ds @ [Alarm]) = Some (map sa_path ds, None)"
    by (simp add: run)
  show "dg_server True (map (\<lambda>d. Datagram d False) ds @ [Alarm, Datagram d alarm]) =
      (if length d < 1024 then Some (map sa_path ds @ [sa_path d], Some 0) else None)"
    by (simp add: run DGRAM_BUFF_SIZE_def)
  have soc: "CHR 0x00 \<notin> set SOCK_NAME" by (simp add: SOCK_NAME_def)
  have "length (drop 12 old) = 2" using assms(1) by simp
  from length_two [OF this] obtain x y where xy: "drop 12 old = [x, y]" by blast
  have "drop 12 old ! 0 = old ! 12" using assms(1) by simp
  then have "x = old ! 12" by (simp add: xy)
  moreover have path: "sa_path (sa_data zs) = SOCK_NAME @ takeWhile (\<lambda>c. c \<noteq> CHR 0x00) (drop 12 zs)" for zs
    unfolding sa_path_def sa_data_def soc_length using soc by (intro takeWhile_append2) auto
  ultimately show "sa_path (sa_data old) = sa_path (sa_data (replicate 14 (CHR 0x00))) \<longleftrightarrow> old ! 12 = CHR 0x00"
    by (simp add: xy path)
qed

theorem dg_server_life_witness:
  "sa_path (sa_data (replicate 14 (CHR ''x''))) \<noteq> sa_path (sa_data (replicate 14 (CHR 0x00))) \<and>
     dg_server True [Datagram ''42'' False, Alarm, Datagram ''43'' False] = Some ([''42'', ''43''], Some 0)"
  using dg_server_life [of "replicate 14 (CHR ''x'')" "[''42'']" "''43''" False]
  by (simp add: sa_path_def nth_replicate)


subsection \<open>The client of the calculator\<close>

text \<open>
  One turn of \<^verbatim>\<open>client_process\<close>: whether the socket was created and connected, the two numbers, the operator and
  the answer of \<^verbatim>\<open>recv\<close>. The loop ends only with status 1, at the first failure.
\<close>

record 'f cc_turn =
  cc_socket :: bool
  cc_connect :: bool
  cc_num1 :: 'f
  cc_num2 :: 'f
  cc_rand :: nat
  cc_recv :: "'f option"

definition operators :: "int list" where
  "operators = [43, 45, 42, 47]"

definition cc_request :: "'f cc_turn \<Rightarrow> 'f \<times> 'f \<times> int" where
  "cc_request t = (cc_num1 t, cc_num2 t, operators ! (cc_rand t mod 4))"

fun client_process :: "'f cc_turn list \<Rightarrow> ('f \<times> 'f \<times> int \<times> 'f) list \<times> int option" where
  "client_process [] = ([], None)"
| "client_process (t # ts) =
     (if \<not> cc_socket t then ([], Some 1)
      else if \<not> cc_connect t then ([], Some 1)
      else
        (case cc_recv t of
           None \<Rightarrow> ([], Some 1)
         | Some r \<Rightarrow>
             let (a, b, op) = cc_request t; (out, st) = client_process ts in ((a, b, op, r) # out, st)))"

text \<open>The answer that the server of task-03 gives to the request of a turn.\<close>

definition served :: "'f flt \<Rightarrow> 'f cc_turn \<Rightarrow> bool" where
  "served F t \<longleftrightarrow> cc_socket t \<and> cc_connect t \<and>
     cc_recv t = Some (case cc_request t of (a, b, op) \<Rightarrow> socket_calc F op a b)"

text \<open>As long as the server answers, every line that the client prints is an operation on its two numbers
  with the result of that operation, where a division by zero has the result zero; the client never ends
  by itself.\<close>

theorem client_prints:
  assumes "\<forall>t \<in> set ts. served F t"
  shows "client_process ts =
    (map (\<lambda>t. (cc_num1 t, cc_num2 t, operators ! (cc_rand t mod 4),
       (let x = cc_num1 t; y = cc_num2 t in
        case cc_rand t mod 4 of
          0 \<Rightarrow> f_add F x y
        | Suc 0 \<Rightarrow> f_sub F x y
        | Suc (Suc 0) \<Rightarrow> f_mul F x y
        | _ \<Rightarrow> if f_eq F y (f_zero F) then f_zero F else f_div F x y))) ts, None)"
  using assms
proof (induction ts)
  case (Cons t ts)
  have "cc_rand t mod 4 \<in> {0, 1, 2, 3}" by auto
  then consider "cc_rand t mod 4 = 0" | "cc_rand t mod 4 = Suc 0" | "cc_rand t mod 4 = Suc (Suc 0)"
    | "cc_rand t mod 4 = Suc (Suc (Suc 0))" by force
  then have r: "(case cc_request t of (a, b, op) \<Rightarrow> socket_calc F op a b) =
      (let x = cc_num1 t; y = cc_num2 t in
        case cc_rand t mod 4 of
          0 \<Rightarrow> f_add F x y
        | Suc 0 \<Rightarrow> f_sub F x y
        | Suc (Suc 0) \<Rightarrow> f_mul F x y
        | _ \<Rightarrow> if f_eq F y (f_zero F) then f_zero F else f_div F x y)"
    by cases (simp_all add: cc_request_def operators_def socket_calc_def)
  show ?case using Cons r by (simp add: served_def cc_request_def)
qed simp

theorem client_prints_witness:
  "client_process [\<lparr>cc_socket = True, cc_connect = True, cc_num1 = Some 6, cc_num2 = Some 7, cc_rand = 2,
     cc_recv = Some (Some 42)\<rparr>] = ([(Some 6, Some 7, 42, Some (42 :: int))], None)"
  using client_prints [of "[\<lparr>cc_socket = True, cc_connect = True, cc_num1 = Some 6, cc_num2 = Some 7, cc_rand = 2,
     cc_recv = Some (Some 42)\<rparr>]" int_flt]
  by (simp add: served_def cc_request_def operators_def socket_calc_def int_flt_def)


subsection \<open>The table of times\<close>

definition CLIENT_COUNT :: nat where "CLIENT_COUNT = 52"

text \<open>
  \<^verbatim>\<open>read_data_from_file\<close> on what the calls of \<^verbatim>\<open>fscanf\<close> yield, \<^term>\<open>None\<close> when the file cannot be opened or a
  number is missing; the program then exits with status 1.
\<close>

fun read_ints :: "nat \<Rightarrow> int option list \<Rightarrow> int list option" where
  "read_ints 0 ts = Some []"
| "read_ints (Suc n) (Some x # ts) = map_option (Cons x) (read_ints n ts)"
| "read_ints (Suc n) ts = None"

definition read_data_from_file :: "int option list option \<Rightarrow> int list option" where
  "read_data_from_file f = Option.bind f (read_ints CLIENT_COUNT)"

text \<open>One sum of the loop: an overflow is \<^term>\<open>None\<close>.\<close>

fun sum_ints :: "int \<Rightarrow> int list \<Rightarrow> int option" where
  "sum_ints acc [] = Some acc"
| "sum_ints acc (x # xs) = (if is_c_int (acc + x) then sum_ints (acc + x) xs else None)"

datatype table = NoTable | Table "(nat \<times> int \<times> int \<times> int) list" "int \<times> int \<times> int" | TableOverflow

definition table_main :: "int option list option \<Rightarrow> int option list option \<Rightarrow> int option list option \<Rightarrow> table" where
  "table_main f1 f2 f3 =
     (case read_data_from_file f1 of
        None \<Rightarrow> NoTable
      | Some a \<Rightarrow>
          (case read_data_from_file f2 of
             None \<Rightarrow> NoTable
           | Some b \<Rightarrow>
               (case read_data_from_file f3 of
                  None \<Rightarrow> NoTable
                | Some c \<Rightarrow>
                    (case (sum_ints 0 a, sum_ints 0 b, sum_ints 0 c) of
                       (Some x, Some y, Some z) \<Rightarrow>
                         Table (map (\<lambda>i. (i + 1, a ! i, b ! i, c ! i)) [0..<CLIENT_COUNT]) (x, y, z)
                     | _ \<Rightarrow> TableOverflow))))"

lemma read_ints_length: "read_ints n ts = Some xs \<Longrightarrow> length xs = n"
  by (induction n ts arbitrary: xs rule: read_ints.induct) (auto simp: map_option_case split: option.splits)

lemma sum_ints_total: "sum_ints acc xs = Some n \<Longrightarrow> n = acc + sum_list xs"
  by (induction acc xs rule: sum_ints.induct) (auto split: if_splits)

text \<open>Times below forty million do not overflow the sums.\<close>

lemma sum_ints_some:
  "\<forall>x \<in> set xs. 0 \<le> x \<and> x < 40000000 \<Longrightarrow> 0 \<le> acc \<Longrightarrow> acc + 40000000 * int (length xs) \<le> INT_MAX \<Longrightarrow>
     sum_ints acc xs = Some (acc + sum_list xs)"
proof (induction xs arbitrary: acc)
  case (Cons x xs)
  then have "is_c_int (acc + x)" by (simp add: is_c_int_def INT_MIN_def)
  with Cons show ?case by (simp add: algebra_simps)
qed simp

end
