(* ===== verification/Program_Mains.thy ===== *)
theory Program_Mains
  imports Processes Sock_Exercises Win_Readwrite Sysv_Sem "HOL-Library.Multiset"
begin

section \<open>Set-up, error exits and clean-up of the smaller programs\<close>

text \<open>
  The \<^verbatim>\<open>main\<close> functions of lab-bio/task-01 to task-05 and task-07, of lab-socket/task-03, of
  lab-shmemory/mutex and of the fork exercises share one shape: calls in a fixed order, each of which ends
  the program when it fails, after closing some of what is open. A program is the list of these calls;
  one interpreter gives its end for any answers of the system. Two more definitions are the loops
  that wait for children.
\<close>

subsection \<open>Guarded calls\<close>

text \<open>
  A call with its name, what it opens, and what is closed when it fails. Closing what is not open (any
  more) is recorded.
\<close>

record guard =
  g_call :: string
  g_opens :: "string list"
  g_closes :: "string list"

definition call :: "string \<Rightarrow> string list \<Rightarrow> string list \<Rightarrow> guard" where
  "call c opens closes = \<lparr>g_call = c, g_opens = opens, g_closes = closes\<rparr>"

fun close_all :: "string list \<Rightarrow> string list \<Rightarrow> string list \<times> string list" where
  "close_all opn [] = (opn, [])"
| "close_all opn (r # rs) =
     (if r \<in> set opn then close_all (remove1 r opn) rs
      else let (o', bad) = close_all opn rs in (o', r # bad))"

record program_end =
  pe_failed :: "string option"
  pe_status :: int
  pe_open :: "string list"
  pe_bad :: "string list"

fun guarded :: "(string \<Rightarrow> bool) \<Rightarrow> string list \<Rightarrow> guard list \<Rightarrow> string list \<Rightarrow> program_end" where
  "guarded ok final [] opn =
     (let (o', bad) = close_all opn final in \<lparr>pe_failed = None, pe_status = 0, pe_open = o', pe_bad = bad\<rparr>)"
| "guarded ok final (g # gs) opn =
     (if ok (g_call g) then guarded ok final gs (opn @ g_opens g)
      else let (o', bad) = close_all opn (g_closes g) in
        \<lparr>pe_failed = Some (g_call g), pe_status = 1, pe_open = o', pe_bad = bad\<rparr>)"

text \<open>
  A check of the program text: at each exit, what is open is what is closed there. A program that passes it
  leaves nothing open and closes nothing twice, whatever the system answers.
\<close>

fun tidy :: "string list \<Rightarrow> guard list \<Rightarrow> string list \<Rightarrow> bool" where
  "tidy final [] opn \<longleftrightarrow> close_all opn final = ([], [])"
| "tidy final (g # gs) opn \<longleftrightarrow> close_all opn (g_closes g) = ([], []) \<and> tidy final gs (opn @ g_opens g)"

lemma tidy_guarded:
  "tidy final gs opn \<Longrightarrow> pe_open (guarded ok final gs opn) = [] \<and> pe_bad (guarded ok final gs opn) = []"
  by (induction gs arbitrary: opn) auto

lemma guarded_status:
  "(pe_status (guarded ok final gs opn) = 0 \<longleftrightarrow> (\<forall>g \<in> set gs. ok (g_call g))) \<and>
   pe_status (guarded ok final gs opn) \<in> {0, 1}"
  by (induction gs arbitrary: opn) (auto simp: Let_def split: prod.splits)


subsection \<open>The programs\<close>

text \<open>
  lab-bio: the two streams of task-01 and task-02 are over one descriptor, which the second \<^verbatim>\<open>fclose\<close> closes
  again. \<^verbatim>\<open>fdopen\<close> and the two \<^verbatim>\<open>fopen\<close> of task-07 are not checked.
\<close>

definition bio1_calls :: "guard list" where
  "bio1_calls = [call ''open'' [''fd''] []]"

definition bio1_final :: "string list" where "bio1_final = [''fd'', ''fd'']"

definition bio2_calls :: "guard list" where
  "bio2_calls = [call ''open'' [''fd''] [], call ''pthread_create'' [] [''fd'', ''fd''],
     call ''pthread_join'' [] [''fd'', ''fd'']]"

definition bio2_final :: "string list" where "bio2_final = [''fd'', ''fd'']"

definition bio3_calls :: "guard list" where
  "bio3_calls = [call ''open 1'' [''fd1''] [], call ''open 2'' [''fd2''] [''fd1'']]"

definition bio4_calls :: "guard list" where
  "bio4_calls = [call ''open 1'' [''fd1''] [], call ''open 2'' [''fd2''] [''fd1''],
     call ''create 1'' [] [''fd1'', ''fd2''], call ''create 2'' [] [''fd1'', ''fd2''],
     call ''join 1'' [] [''fd1'', ''fd2''], call ''join 2'' [] [''fd1'', ''fd2'']]"

definition bio5_calls :: "guard list" where
  "bio5_calls = [call ''open 1'' [''fd1''] [], call ''open 2'' [''fd2''] [''fd1''],
     call ''create'' [] [''fd1'', ''fd2''], call ''join'' [] [''fd1'', ''fd2'']]"

definition fd_final :: "string list" where "fd_final = [''fd1'', ''fd2'']"

definition bio7_calls :: "guard list" where
  "bio7_calls = [call ''create 1'' [] [''f1'', ''f2''], call ''create 2'' [] [''f1'', ''f2'']]"

definition bio7_final :: "string list" where "bio7_final = [''f1'', ''f2'']"

text \<open>
  lab-socket/task-03/server.c: the loop is left only when the handler has cleared the flag, and then
  \<^verbatim>\<open>if (flag) close\<close> does nothing, after the loop and in the handler itself.
\<close>

definition calc_server_calls :: "guard list" where
  "calc_server_calls = [call ''socket'' [''server''] [], call ''bind'' [] [''server''], call ''listen'' [] [''server'']]"

definition calc_handler :: "bool \<Rightarrow> bool \<times> string list" where
  "calc_handler flag = (let flag' = False in (flag', if flag' then [''server''] else []))"

definition calc_server_final :: "bool \<Rightarrow> string list" where
  "calc_server_final flag = (if flag then [''server''] else [])"

definition calc_server_main :: "(string \<Rightarrow> bool) \<Rightarrow> program_end" where
  "calc_server_main ok = guarded ok (calc_server_final (fst (calc_handler True))) calc_server_calls []"

text \<open>lab-shmemory/mutex/main.c: the handles, with those of the threads.\<close>

definition thread_name :: "string \<Rightarrow> nat \<Rightarrow> string" where
  "thread_name s i = s @ [char_of (48 + i)]"

definition win_threads :: "string list" where
  "win_threads = map (thread_name ''writer '') [0..<WRITERS] @ map (thread_name ''reader '') [0..<READERS]"

definition win_calls :: "guard list" where
  "win_calls = map (\<lambda>r. call r [r] []) ([''mutex'', ''can_read'', ''can_write''] @ win_threads)"

definition win_final :: "string list" where
  "win_final = win_threads @ [''can_read'', ''can_write'', ''mutex'']"

text \<open>
  The messages of lab-bio/task-03 to task-05 are written with a fixed length of 32: the number of bytes read
  after the end of the literal, its terminating zero included.
\<close>

definition BIO_BUFF_SIZE :: nat where "BIO_BUFF_SIZE = 32"

definition bio_messages :: "string list" where
  "bio_messages = map (\<lambda>t. t @ [CHR 0x0A])
     [''error: open fd1'', ''error: open fd2'', ''error: pthread1 create'', ''error: pthread2 create'',
      ''error: pthread1 join'', ''error: pthread2 join'', ''error: pthread join'']"

definition err_over :: "string \<Rightarrow> nat" where
  "err_over t = BIO_BUFF_SIZE - (length t + 1)"


subsection \<open>Forks and waits\<close>

text \<open>
  The second loop of lab-socket/task-01/main.c and of task-03/client.c: \<^verbatim>\<open>waitpid\<close> for each child in turn, whose
  result is not looked at. \<open>ws\<close> is what the status holds after each call, which is arbitrary when the call
  failed. The lines name the child of the loop.
\<close>

fun waitpid_loop :: "int list \<Rightarrow> wstatus list \<Rightarrow> report list" where
  "waitpid_loop (p # ps) (st # ws) = wait_report p st @ waitpid_loop ps ws"
| "waitpid_loop _ _ = []"

definition CC_CHILD_COUNT :: nat where "CC_CHILD_COUNT = 5"

definition calc_client_main :: "bool list \<Rightarrow> int list \<Rightarrow> wstatus list \<Rightarrow> main_result" where
  "calc_client_main fs pids ws =
     (let (k, ok) = fork_loop CC_CHILD_COUNT fs in
      if ok then \<lparr>exit_status = 0, children = k, left_behind = [], reports = waitpid_loop pids ws\<rparr>
      else \<lparr>exit_status = 1, children = k, left_behind = [], reports = []\<rparr>)"

definition pair_main :: "bool \<Rightarrow> bool list \<Rightarrow> int list \<Rightarrow> wstatus list \<Rightarrow> main_result" where
  "pair_main pair_ok fs pids ws =
     (if \<not> pair_ok then \<lparr>exit_status = 1, children = 0, left_behind = [], reports = []\<rparr>
      else let (k, ok) = fork_loop CHILD_COUNT fs in
        if ok then \<lparr>exit_status = 0, children = k, left_behind = [], reports = waitpid_loop pids ws\<rparr>
        else \<lparr>exit_status = 1, children = k, left_behind = [], reports = []\<rparr>)"

text \<open>
  lab-processes/part-02/task\_02.c: the answers of \<^verbatim>\<open>wait\<close> are given. task\_03.c: the children execute programs
  (\<open>execs\<close>, \<^term>\<open>None\<close> when that fails) and end in the order \<open>ord\<close>.
\<close>

definition task_02_main :: "bool list \<Rightarrow> wstatus \<Rightarrow> (int \<times> wstatus) option list \<Rightarrow> main_result" where
  "task_02_main fs old ws =
     (let (k, st) = two_forks fs in
      \<lparr>exit_status = st, children = k, left_behind = [], reports = (if st = 0 then wait_untested 2 old ws else [])\<rparr>)"

definition task_03_main ::
  "bool list \<Rightarrow> wstatus \<Rightarrow> (nat \<Rightarrow> int) \<Rightarrow> (nat \<Rightarrow> wstatus option) \<Rightarrow> nat list \<Rightarrow> main_result" where
  "task_03_main fs old pid execs ord =
     (let (k, st) = two_forks fs in
      \<lparr>exit_status = st, children = k, left_behind = [],
       reports = (if st = 0 then wait_untested 2 old (map (\<lambda>i. Some (pid i, exec_child (execs i))) ord) else [])\<rparr>)"

lemma waitpid_loop_all: "waitpid_loop pids ws = concat (map (\<lambda>(p, st). wait_report p st) (zip pids ws))"
  by (induction pids ws rule: waitpid_loop.induct) auto


subsection \<open>Properties\<close>

lemmas bio_calls = bio1_calls_def bio1_final_def bio2_calls_def bio2_final_def bio3_calls_def bio4_calls_def
  bio5_calls_def fd_final_def bio7_calls_def bio7_final_def

text \<open>The programs with two descriptors or two streams of their own close each exactly once, whichever call
  fails; those with two streams over one descriptor close it twice at every exit after it was opened.\<close>

theorem bio_exits:
  "pe_open (guarded ok fd_final bio4_calls []) = [] \<and> pe_bad (guarded ok fd_final bio4_calls []) = [] \<and>
   pe_open (guarded ok fd_final bio5_calls []) = [] \<and> pe_bad (guarded ok fd_final bio5_calls []) = [] \<and>
   pe_open (guarded ok fd_final bio3_calls []) = [] \<and> pe_bad (guarded ok fd_final bio3_calls []) = [] \<and>
   pe_open (guarded ok bio7_final bio7_calls [''f1'', ''f2'']) = [] \<and>
   pe_bad (guarded ok bio7_final bio7_calls [''f1'', ''f2'']) = [] \<and>
   (ok ''open'' \<longrightarrow> pe_bad (guarded ok bio2_final bio2_calls []) = [''fd''] \<and>
      pe_bad (guarded ok bio1_final bio1_calls []) = [''fd''])"
proof -
  have "tidy fd_final bio4_calls []" "tidy fd_final bio5_calls []" "tidy fd_final bio3_calls []"
    "tidy bio7_final bio7_calls [''f1'', ''f2'']"
    by (simp_all add: bio_calls call_def)
  from this [THEN tidy_guarded [of _ _ _ ok]] show ?thesis by (auto simp: bio_calls call_def)
qed

theorem bio_exits_witness:
  "pe_bad (guarded (\<lambda>c. c = ''open'') bio2_final bio2_calls []) = [''fd'']"
  using bio_exits [of "\<lambda>c. c = ''open''"] by simp

text \<open>Every error message of the programs over descriptors is shorter than the 32 bytes written: between 8 and
  15 bytes after the end of the literal are read.\<close>

theorem bio_messages_over:
  "t \<in> set bio_messages \<Longrightarrow> 8 \<le> err_over t \<and> err_over t \<le> 15"
  by (auto simp: bio_messages_def err_over_def BIO_BUFF_SIZE_def)

theorem bio_messages_over_witness: "8 \<le> err_over (''error: pthread1 create'' @ [CHR 0x0A])"
  using bio_messages_over [of "''error: pthread1 create'' @ [CHR 0x0A]"] by (simp add: bio_messages_def)

text \<open>The server of the socket calculator closes its socket at every error exit, and never when it ends as it
  should: the flag that both calls of \<^verbatim>\<open>close\<close> test has been cleared before.\<close>

theorem calc_server_exits:
  "(pe_status (calc_server_main ok) = 1 \<longrightarrow> pe_open (calc_server_main ok) = []) \<and>
   (pe_status (calc_server_main ok) = 0 \<longrightarrow> pe_open (calc_server_main ok) = [''server''])"
  by (simp add: calc_server_main_def calc_handler_def calc_server_final_def calc_server_calls_def call_def)

theorem calc_server_exits_witness:
  "pe_open (calc_server_main (\<lambda>c. True)) = [''server''] \<and> pe_open (calc_server_main (\<lambda>c. c = ''socket'')) = []"
proof -
  have "pe_status (calc_server_main (\<lambda>c. True)) = 0" "pe_status (calc_server_main (\<lambda>c. c = ''socket'')) = 1"
    by (simp_all add: calc_server_main_def calc_server_calls_def calc_handler_def calc_server_final_def call_def)
  with calc_server_exits show ?thesis by blast
qed

lemma win_guarded_fail:
  "\<exists>r \<in> set rs. \<not> ok r \<Longrightarrow>
     pe_open (guarded ok final (map (\<lambda>r. call r [r] []) rs) opn) = opn @ takeWhile ok rs"
  by (induction rs arbitrary: opn) (auto simp: call_def)

lemma win_guarded_done:
  "\<forall>r \<in> set rs. ok r \<Longrightarrow> guarded ok final (map (\<lambda>r. call r [r] []) rs) opn = guarded ok final [] (opn @ rs)"
  by (induction rs arbitrary: opn) (auto simp: call_def)

text \<open>The program over Windows objects closes all its handles when it comes to its end, and none at an error exit.\<close>

theorem win_exits:
  "pe_open (guarded ok win_final win_calls []) = takeWhile ok ([''mutex'', ''can_read'', ''can_write''] @ win_threads) \<or>
   (pe_status (guarded ok win_final win_calls []) = 0 \<and> pe_open (guarded ok win_final win_calls []) = [] \<and>
    pe_bad (guarded ok win_final win_calls []) = [])"
proof (cases "\<forall>r \<in> set ([''mutex'', ''can_read'', ''can_write''] @ win_threads). ok r")
  case True
  have t: "win_threads = [''writer 0'', ''writer 1'', ''writer 2'', ''reader 0'', ''reader 1'', ''reader 2'',
      ''reader 3'', ''reader 4'']" by code_simp
  from True show ?thesis
    by (simp only: win_calls_def win_guarded_done) (simp add: win_final_def t)
next
  case False
  then show ?thesis unfolding win_calls_def by (subst win_guarded_fail) auto
qed

theorem win_exits_witness:
  "pe_open (guarded (\<lambda>r. r \<in> {''mutex'', ''can_read''}) win_final win_calls []) = [''mutex'', ''can_read'']"
proof -
  have "pe_status (guarded (\<lambda>r. r \<in> {''mutex'', ''can_read''}) win_final win_calls []) \<noteq> 0"
    using guarded_status [of "\<lambda>r. r \<in> {''mutex'', ''can_read''}" win_final win_calls "[]"]
    by (auto simp: win_calls_def call_def)
  with win_exits [of "\<lambda>r. r \<in> {''mutex'', ''can_read''}"] show ?thesis by simp
qed

text \<open>The programs that fork report every child once, with the status it ended with, when all calls succeed; the
  children whose program cannot be executed are reported with status 1.\<close>

theorem fork_reports:
  assumes "ord = [0, 1] \<or> ord = [1, 0]"
  shows "mset (reports (task_03_main [True, True] old pid execs ord)) =
      mset (wait_report (pid 0) (exec_child (execs 0)) @ wait_report (pid 1) (exec_child (execs 1))) \<and>
    exec_child None = WExited 1 \<and>
    reports (calc_client_main (replicate 5 True) pids sts) =
      concat (map (\<lambda>(p, st). wait_report p st) (zip pids sts)) \<and>
    reports (pair_main True (replicate 3 True) pids sts) =
      concat (map (\<lambda>(p, st). wait_report p st) (zip pids sts))"
proof -
  have f: "fork_loop 5 (replicate 5 True) = (5, True)" "fork_loop 3 (replicate 3 True) = (3, True)"
    "two_forks [True, True] = (2, 0)"
    by (simp_all add: two_forks_def numeral_eq_Suc)
  have w: "wait_untested 2 old [Some (a, x), Some (b, y)] = wait_report a x @ wait_report b y" for a b x y
    by (simp add: numeral_2_eq_2)
  show ?thesis
    using assms f w
    by (auto simp: task_03_main_def calc_client_main_def pair_main_def CC_CHILD_COUNT_def CHILD_COUNT_def
        waitpid_loop_all exec_child_def)
qed

theorem fork_reports_witness:
  "mset (reports (task_03_main [True, True] WOther (\<lambda>i. 7 + int i) (\<lambda>i. if i = 0 then None else Some (WExited 0)) [1, 0])) =
     {#ExitedWith 7 1, ExitedWith 8 0#}"
  using fork_reports [of "[1, 0]" WOther "\<lambda>i. 7 + int i" "\<lambda>i. if i = 0 then None else Some (WExited 0)" "[]" "[]"]
  by (simp add: exec_child_def)

text \<open>A \<^verbatim>\<open>fork\<close> that fails ends the parent with 1 and without a wait for the children that exist.\<close>

theorem fork_failures:
  "snd (fork_loop 2 fs) = False \<Longrightarrow>
     task_02_main fs old ws = \<lparr>exit_status = 1, children = fst (fork_loop 2 fs), left_behind = [], reports = []\<rparr> \<and>
     task_03_main fs old pid execs ord =
       \<lparr>exit_status = 1, children = fst (fork_loop 2 fs), left_behind = [], reports = []\<rparr>"
  by (auto simp: task_02_main_def task_03_main_def two_forks_def Let_def split: prod.splits)

theorem fork_failures_witness:
  "task_02_main [True, False] WOther [] = \<lparr>exit_status = 1, children = 1, left_behind = [], reports = []\<rparr>"
proof -
  have f: "snd (fork_loop 2 [True, False]) = False" "fst (fork_loop 2 [True, False]) = 1"
    by (simp_all add: numeral_2_eq_2)
  from fork_failures [OF f(1)] show ?thesis by (simp add: f(2))
qed

end
