(* ===== verification/Ftw_Output.thy ===== *)
theory Ftw_Output
  imports Complex_Main Ftw
begin

section \<open>What the file tree walk prints\<close>

text \<open>
  The visitor \<^verbatim>\<open>function\<close> and \<^verbatim>\<open>main\<close> of lab-fileSystem/task-ftw/main.c, and the table of lib/statistics.c,
  behind the walk of Ftw: the text on the standard output, colours included, and what it says about the tree, and
  the messages on the standard error output.
\<close>

subsection \<open>Lines\<close>

definition escape :: "string \<Rightarrow> string" where
  "escape n = CHR 0x1B # ''[38;5;'' @ n @ ''m''"

definition GREEN :: string where "GREEN = escape ''46''"
definition MAGENTA :: string where "MAGENTA = escape ''201''"
definition CYAN :: string where "CYAN = escape ''51''"
definition YELLOW :: string where "YELLOW = escape ''226''"
definition RESET :: string where "RESET = CHR 0x1B # ''[0m''"

definition nl :: char where "nl = CHR 0x0A"

definition visit_mark :: string where "visit_mark = MAGENTA @ ''----| '' @ RESET"

definition visit_colour :: "ftype \<Rightarrow> string" where
  "visit_colour ty = (case ty of FTW_DIR \<Rightarrow> GREEN | FTW_FILE \<Rightarrow> CYAN)"

text \<open>\<^verbatim>\<open>function\<close>: what one call of the visitor prints.\<close>

definition visit_line :: "string \<times> ftype \<times> int \<Rightarrow> string" where
  "visit_line v = (let (pathName, ty, depth) = v in
     concat (replicate (nat depth) visit_mark) @ visit_colour ty @ '' '' @ pathName @ nl # RESET)"


subsection \<open>Floating point\<close>

text \<open>
  Rounding to the nearest integer, ties to the even one, and to the nearest number with \<open>p\<close> binary digits. The
  quotients of the program lie between \<open>100 / 2^31\<close> and \<open>100 * 2^31\<close>, where neither a \<^verbatim>\<open>double\<close> nor a
  \<^verbatim>\<open>float\<close> overflows or is subnormal; the sign of a zero is not kept.
\<close>

definition round_even :: "rat \<Rightarrow> int" where
  "round_even x = (let k = \<lfloor>x\<rfloor>; r = x - of_int k in
     if r < 1 / 2 \<or> (r = 1 / 2 \<and> even k) then k else k + 1)"

definition binade :: "rat \<Rightarrow> int" where
  "binade x = hd (filter (\<lambda>e. 2 powi e \<le> \<bar>x\<bar>) (rev [-32..40]))"

definition fl :: "nat \<Rightarrow> rat \<Rightarrow> rat" where
  "fl p x = (if x = 0 then 0 else
     let u = 2 powi (binade x + 1 - int p) in of_int (round_even (x / u)) * u)"


subsection \<open>The table\<close>

text \<open>
  \<^verbatim>\<open>findPercent\<close> takes two \<^verbatim>\<open>int\<close>s, and the counters are \<^verbatim>\<open>long\<close>s: the conversion takes the low 32 bits. The
  product is exact in a \<^verbatim>\<open>double\<close> (53 binary digits), the quotient is rounded to one, and the result to a
  \<^verbatim>\<open>float\<close> (24).
\<close>

definition as_int :: "nat \<Rightarrow> int" where
  "as_int n = sint (word_of_int (int n) :: 32 word)"

definition findPercent :: "int \<Rightarrow> int \<Rightarrow> rat" where
  "findPercent part all = (if all \<noteq> 0 then fl 24 (fl 53 (of_int part * 100 / of_int all)) else 0)"

text \<open>\<^verbatim>\<open>printStat\<close>: the rows with their numbers, in the order of the table.\<close>

definition stat_rows :: "fstats \<Rightarrow> (string \<times> nat) list" where
  "stat_rows s = [(''regular (-)'', nreg s), (''directory (d)'', ndir s), (''block device (b)'', nblk s),
     (''character device (c)'', nchr s), (''named pipe (fifo) (p)'', nfifo s), (''symbolic link (l)'', nslink s),
     (''socket (s)'', nsock s)]"

definition printStat :: "fstats \<Rightarrow> (string \<times> nat \<times> rat) list \<times> nat" where
  "printStat s = (map (\<lambda>(x, n). (x, n, findPercent (as_int n) (as_int (ntotal s)))) (stat_rows s), ntotal s)"

text \<open>The conversions: \<open>%5ld\<close>, and \<open>%4.2f\<close>, which shows hundredths and is never narrower than four characters.\<close>

definition hundredths :: "rat \<Rightarrow> int" where
  "hundredths x = round_even (x * 100)"

definition fixed_2 :: "rat \<Rightarrow> string" where
  "fixed_2 x = (let h = nat \<bar>hundredths x\<bar> in (if x < 0 then ''-'' else []) @ decimal (h div 100) @ ''.'' @
     [digit (h div 10 mod 10), digit (h mod 10)])"

definition width_5 :: "nat \<Rightarrow> string" where
  "width_5 n = replicate (5 - length (decimal n)) (CHR '' '') @ decimal n"

definition row_label :: "string \<Rightarrow> string" where
  "row_label x = nl # '' '' @ x @ '':'' @ replicate (31 - length x) (CHR '' '')"

definition table_row :: "string \<times> nat \<times> rat \<Rightarrow> string" where
  "table_row r = (let (x, n, p) = r in
     row_label x @ width_5 n @ '' ('' @ fixed_2 p @ '' %) '' @ replicate 9 (CHR '' ''))"

definition rule_line :: string where
  "rule_line = nl # '' '' @ replicate 48 (CHR ''-'') @ '' ''"

definition table_text :: "(string \<times> nat \<times> rat) list \<times> nat \<Rightarrow> string" where
  "table_text t = YELLOW @ [nl, nl, nl] @ '' File stats '' @ replicate 9 (CHR '' '') @ rule_line @
     replicate 9 (CHR '' '') @ concat (map table_row (fst t)) @ rule_line @ replicate 9 (CHR '' '') @
     row_label ''Total'' @ width_5 (snd t) @ '' '' @ replicate 9 (CHR '' '') @ butlast rule_line @ [nl, nl] @ RESET"


subsection \<open>The program\<close>

text \<open>
  \<^verbatim>\<open>main\<close> and the ends of \<^verbatim>\<open>ftw\<close>: the exit status, the text on the standard output and the messages on the
  standard error output. \<open>fs\<close> gives the absolute name and the tree of an argument that \<^verbatim>\<open>chdir\<close> finds; a failing
  \<^verbatim>\<open>getcwd\<close> is left out.
\<close>

record ftw_result =
  fr_status :: nat
  fr_out :: string
  fr_err :: "diag list"

definition ftw_main :: "nat \<Rightarrow> (string \<Rightarrow> (string \<times> ftree) option) \<Rightarrow> string list \<Rightarrow> ftw_result option" where
  "ftw_main k fs argv =
     (if length argv \<noteq> 2 then Some \<lparr>fr_status = 1, fr_out = [], fr_err = [Directory_not_set]\<rparr>
      else
        let refused = \<lparr>fr_status = 1,
              fr_out = ''error: directory does not exist or access is not available'' @ [nl], fr_err = []\<rparr> in
        case fs (argv ! 1) of
          None \<Rightarrow> Some refused
        | Some rt \<Rightarrow>
            (case ftw_run k rt of
               Some Chdir_failed \<Rightarrow> Some refused
             | Some (Done s) \<Rightarrow>
                 Some \<lparr>fr_status = 0,
                   fr_out = concat (map visit_line (log s)) @ table_text (printStat (stats s)), fr_err = perrors s\<rparr>
             | _ \<Rightarrow> None))"


subsection \<open>Reading the lines back\<close>

fun strip :: "string \<Rightarrow> string \<Rightarrow> string option" where
  "strip [] s = Some s"
| "strip (p # ps) [] = None"
| "strip (p # ps) (c # s) = (if p = c then strip ps s else None)"

lemma strip_app [simp]: "strip p (p @ s) = Some s"
  by (induction p) simp_all

lemma strip_length: "strip p s = Some r \<Longrightarrow> length s = length p + length r"
  by (induction p s rule: strip.induct) (auto split: if_splits)

lemma rest_of_line: "length (drop k (dropWhile P r)) \<le> length r"
  using le_trans [OF diff_le_self length_dropWhile_le] by (simp only: length_drop)

text \<open>The visits that a text shows; \<open>d\<close> counts the marks of the line so far.\<close>

function read_visits :: "nat \<Rightarrow> string \<Rightarrow> (string \<times> ftype \<times> int) list" where
  "read_visits d s =
     (case strip visit_mark s of
        Some r \<Rightarrow> read_visits (Suc d) r
      | None \<Rightarrow>
          (case strip (GREEN @ '' '') s of
             Some r \<Rightarrow> (takeWhile (\<lambda>c. c \<noteq> nl) r, FTW_DIR, int d) #
               read_visits 0 (drop (Suc (length RESET)) (dropWhile (\<lambda>c. c \<noteq> nl) r))
           | None \<Rightarrow>
               (case strip (CYAN @ '' '') s of
                  Some r \<Rightarrow> (takeWhile (\<lambda>c. c \<noteq> nl) r, FTW_FILE, int d) #
                    read_visits 0 (drop (Suc (length RESET)) (dropWhile (\<lambda>c. c \<noteq> nl) r))
                | None \<Rightarrow> [])))"
  by pat_completeness auto
termination
proof (relation "measure (\<lambda>(d, s). length s)", goal_cases)
  case (2 d s r)
  then have r: "length r < length s" by (auto dest!: strip_length simp: visit_mark_def MAGENTA_def escape_def)
  with le_less_trans [OF rest_of_line r] show ?case by simp
next
  case (3 d s r)
  then have r: "length r < length s" by (auto dest!: strip_length)
  with le_less_trans [OF rest_of_line r] show ?case by simp
next
  case (4 d s r)
  then have r: "length r < length s" by (auto dest!: strip_length simp: visit_mark_def MAGENTA_def escape_def)
  with le_less_trans [OF rest_of_line r] show ?case by simp
qed simp

declare read_visits.simps [simp del]

lemmas colours = visit_mark_def MAGENTA_def GREEN_def CYAN_def RESET_def escape_def

lemma strip_colour [simp]:
  "strip visit_mark (visit_colour ty @ s) = None"
  "strip (GREEN @ '' '') (visit_colour FTW_FILE @ s) = None"
  by (cases ty) (simp_all add: visit_colour_def colours)

lemma strip_colour_space [simp]:
  "strip (GREEN @ '' '') (visit_colour FTW_DIR @ CHR '' '' # s) = Some s"
  "strip (CYAN @ '' '') (visit_colour FTW_FILE @ CHR '' '' # s) = Some s"
  by (simp_all add: visit_colour_def colours)

lemma read_name:
  assumes "nl \<notin> set n"
  shows "read_visits d (visit_colour ty @ CHR '' '' # n @ nl # RESET @ s) = (n, ty, int d) # read_visits 0 s"
proof -
  have "\<And>c. c \<in> set n \<Longrightarrow> c \<noteq> nl" using assms by auto
  then have "takeWhile (\<lambda>c. c \<noteq> nl) (n @ nl # RESET @ s) = n" "dropWhile (\<lambda>c. c \<noteq> nl) (n @ nl # RESET @ s) = nl # RESET @ s"
    by (simp_all add: takeWhile_append2 dropWhile_append2)
  then show ?thesis by (cases ty) (subst read_visits.simps; simp)+
qed

lemma read_line:
  assumes "nl \<notin> set n"
  shows "read_visits d (concat (replicate k visit_mark) @ visit_colour ty @ CHR '' '' # n @ nl # RESET @ s) =
    (n, ty, int (d + k)) # read_visits 0 s"
proof (induction k arbitrary: d)
  case 0
  then show ?case using read_name [OF assms] by simp
next
  case (Suc k)
  show ?case by (subst read_visits.simps) (simp add: Suc)
qed

definition plain_visits :: "(string \<times> ftype \<times> int) list \<Rightarrow> bool" where
  "plain_visits vs \<longleftrightarrow> (\<forall>(n, ty, d) \<in> set vs. nl \<notin> set n \<and> 0 \<le> d)"

text \<open>The reader stops at the colour of the table.\<close>

lemma read_lines: "plain_visits vs \<Longrightarrow> read_visits 0 (concat (map visit_line vs) @ YELLOW @ s) = vs"
proof (induction vs)
  case Nil
  show ?case by (subst read_visits.simps) (simp add: colours YELLOW_def)
next
  case (Cons v vs)
  obtain n ty d where v: "v = (n, ty, d)" by (cases v)
  have "nl \<notin> set n" "0 \<le> d" "plain_visits vs" using Cons.prems by (auto simp: plain_visits_def v)
  then show ?case
    using Cons.IH read_line [of n 0 "nat d" ty "concat (map visit_line vs) @ YELLOW @ s"] by (simp add: v visit_line_def [of "(n, ty, d)"])
qed


subsection \<open>Reading the tree back\<close>

text \<open>What the lines can say about a tree: the names and kinds, with the entries of what has been entered.\<close>

datatype outline = Outline string ftype "outline list"

text \<open>Lines to trees: what follows a line with a greater depth lies below it.\<close>

fun grow :: "(string \<times> ftype \<times> int) list \<Rightarrow> (int \<times> outline) list" where
  "grow [] = []"
| "grow ((n, ty, d) # vs) =
     (let below = (\<lambda>(k, t). d < k); ts = grow vs in
      (d, Outline n ty (map snd (takeWhile below ts))) # dropWhile below ts)"

primrec outline_of :: "ftree \<Rightarrow> string \<Rightarrow> outline" and outlines_of :: "fentries \<Rightarrow> outline list" where
  "outline_of (Leaf k) n = Outline n FTW_FILE []"
| "outline_of (Dir r x es) n = Outline n FTW_DIR (if r \<and> x then outlines_of es else [])"
| "outlines_of ENil = []"
| "outlines_of (ECons n t es) = outlines_of es @ [outline_of t n]"

text \<open>A forest that goes on above the depth \<open>d\<close>, or at it.\<close>

definition ends_at :: "int \<Rightarrow> (int \<times> outline) list \<Rightarrow> bool" where
  "ends_at d ts \<longleftrightarrow> takeWhile (\<lambda>(k, t). d < k) ts = []"

lemma ends_at_less: "ends_at d ts \<Longrightarrow> d \<le> d' \<Longrightarrow> ends_at d' ts"
  by (cases ts) (auto simp: ends_at_def split: if_splits)

lemma ends_at_drop: "ends_at d ts \<Longrightarrow> dropWhile (\<lambda>(k, t). d < k) ts = ts"
  by (cases ts) (auto simp: ends_at_def split: if_splits)

lemma ends_at_same: "ends_at d ((d, t) # ts)"
  by (simp add: ends_at_def)

lemma below_all:
  "ends_at d ts \<Longrightarrow> takeWhile (\<lambda>(k, t). d < k) (map (Pair (d + 1)) os @ ts) = map (Pair (d + 1)) os \<and>
     dropWhile (\<lambda>(k, t). d < k) (map (Pair (d + 1)) os @ ts) = ts"
  by (induction os) (simp_all add: ends_at_drop, simp add: ends_at_def)

lemma grow_visits:
  "ends_at d (grow vs) \<Longrightarrow> grow (visits t n d @ vs) = (d, outline_of t n) # grow vs"
  "ends_at d (grow vs) \<Longrightarrow> grow (visits_in es d @ vs) = map (Pair d) (outlines_of es) @ grow vs"
proof (induction t and es arbitrary: n d vs and d vs)
  case (Leaf k)
  then show ?case by (simp add: ends_at_drop) (simp add: ends_at_def)
next
  case (Dir r x es)
  show ?case
  proof (cases "r \<and> x")
    case True
    have "grow (visits_in es (d + 1) @ vs) = map (Pair (d + 1)) (outlines_of es) @ grow vs"
      by (rule Dir.IH) (rule ends_at_less [OF Dir.prems], simp)
    then show ?thesis using True below_all [OF Dir.prems] by (simp add: comp_def)
  next
    case False
    then have "visits (Dir r x es) n d = [(n, FTW_DIR, d)]" "outline_of (Dir r x es) n = Outline n FTW_DIR []"
      by (simp_all only: visits.simps outline_of.simps if_False)
    then show ?thesis using Dir.prems by (simp add: ends_at_drop) (simp add: ends_at_def)
  qed
next
  case ENil
  show ?case by simp
next
  case (ECons m t es)
  have t: "grow (visits t m d @ vs) = (d, outline_of t m) # grow vs" by (rule ECons.IH(1)) (rule ECons.prems)
  have "grow (visits_in es d @ visits t m d @ vs) = map (Pair d) (outlines_of es) @ (d, outline_of t m) # grow vs"
    unfolding t [symmetric] by (rule ECons.IH(2)) (simp add: t ends_at_same)
  then show ?case by simp
qed

text \<open>Names without a new line, in all that is visited.\<close>

lemma visits_depth: "v \<in> set (visits t n d) \<Longrightarrow> d \<le> snd (snd v)" "v \<in> set (visits_in es d) \<Longrightarrow> d \<le> snd (snd v)"
proof (induction t and es arbitrary: n d and d)
  case (Dir r x es)
  then show ?case by (auto split: if_splits dest!: Dir.IH)
qed auto


subsection \<open>Messages\<close>

lemma messages_none:
  "\<not> barred t \<Longrightarrow> messages t False = []" "\<not> barred_in es \<Longrightarrow> messages_in es False = []"
  by (induction t and es) (auto split: if_splits)

lemma messages_some:
  "barred t \<Longrightarrow> messages t b \<noteq> []" "barred_in es \<Longrightarrow> messages_in es b \<noteq> []"
proof (induction t and es arbitrary: b and b)
  case (ECons n t es)
  then show ?case by (cases "barred_in es") auto
qed (auto split: if_splits)


subsection \<open>Percentages\<close>

lemma as_int_id: "n < 2 ^ 31 \<Longrightarrow> as_int n = int n"
  by (simp add: as_int_def sint_sbintrunc' signed_take_bit_int_eq_self del: of_int_of_nat_eq)

lemma round_even_error: "\<bar>of_int (round_even x) - x\<bar> \<le> 1 / 2"
proof -
  have "of_int \<lfloor>x\<rfloor> \<le> x" "x < of_int \<lfloor>x\<rfloor> + 1" by linarith+
  then show ?thesis unfolding round_even_def Let_def by (simp add: abs_if) linarith
qed

lemma hd_filter: "x \<in> set xs \<Longrightarrow> P x \<Longrightarrow> P (hd (filter P xs))"
  by (induction xs) auto

lemma binade_le:
  assumes "2 powi (-32) \<le> \<bar>x\<bar>"
  shows "2 powi (binade x) \<le> \<bar>x\<bar>"
proof -
  have "-32 \<in> set (rev [-32..40])" unfolding set_rev set_upto by simp
  from hd_filter [OF this, of "\<lambda>e. 2 powi e \<le> \<bar>x\<bar>"] show ?thesis unfolding binade_def using assms by blast
qed

lemma fl_error:
  assumes "x = 0 \<or> 2 powi (-32) \<le> \<bar>x\<bar>"
  shows "\<bar>fl p x - x\<bar> \<le> \<bar>x\<bar> / 2 ^ p"
proof (cases "x = 0")
  case False
  define u :: rat where "u = 2 powi (binade x + 1 - int p)"
  have u: "u > 0" by (simp add: u_def)
  have "u = 2 * 2 powi (binade x) / 2 ^ p" by (simp add: u_def power_int_add power_int_diff)
  moreover have "2 powi (binade x) \<le> \<bar>x\<bar>" using assms False binade_le by blast
  ultimately have le: "u / 2 \<le> \<bar>x\<bar> / 2 ^ p" by (simp add: divide_right_mono)
  have "fl p x - x = (of_int (round_even (x / u)) - x / u) * u"
    using False u by (simp add: fl_def u_def [symmetric] Let_def left_diff_distrib)
  then have "\<bar>fl p x - x\<bar> = \<bar>of_int (round_even (x / u)) - x / u\<bar> * u" using u by (simp add: abs_mult)
  also have "\<dots> \<le> 1 / 2 * u" by (rule mult_right_mono [OF round_even_error]) (use u in simp)
  finally show ?thesis using le by linarith
qed (simp add: fl_def)

lemma sum_list_error:
  "\<forall>x \<in> set xs. \<bar>f x - g x\<bar> \<le> (c :: rat) \<Longrightarrow>
     \<bar>sum_list (map f xs) - sum_list (map g xs)\<bar> \<le> of_nat (length xs) * c"
proof (induction xs)
  case (Cons x xs)
  then have "\<bar>f x - g x\<bar> \<le> c" "\<bar>sum_list (map f xs) - sum_list (map g xs)\<bar> \<le> of_nat (length xs) * c" by simp_all
  then show ?case by (simp add: distrib_right)
qed simp

lemma sum_close:
  assumes "\<bar>of_int k - x * 100\<bar> \<le> (7 * (51 / 100) :: rat)" and "x = (if b then 0 else 100)"
  shows "\<bar>k - (if b then 0 else 10000)\<bar> \<le> 3"
proof -
  have "\<bar>(of_int k :: rat) - of_int (if b then 0 else 10000)\<bar> < of_int 4" using assms by (cases b) simp_all
  then show ?thesis unfolding of_int_diff [symmetric] of_int_abs [symmetric] of_int_less_iff by simp
qed

text \<open>What is printed is off by less than \<open>0.0051\<close>.\<close>

definition share :: "nat \<Rightarrow> nat \<Rightarrow> rat" where
  "share n t = (if t = 0 then 0 else of_nat n * 100 / of_nat t)"

lemma share_range: "n \<le> t \<Longrightarrow> 0 \<le> share n t \<and> share n t \<le> 100"
  by (simp add: share_def divide_le_eq)

lemma share_large:
  assumes "t < 2 ^ 31"
  shows "share n t = 0 \<or> 2 powi (-31) * 100 \<le> share n t"
proof (cases "n = 0 \<or> t = 0")
  case False
  then have n: "(1 :: rat) \<le> of_nat n" and t: "(0 :: rat) < of_nat t" by simp_all
  have "(of_nat t :: rat) \<le> of_nat (2 ^ 31)" using assms by (simp only: of_nat_le_iff)
  then have "of_nat t \<le> (2147483648 :: rat) * of_nat n" using n by simp
  then show ?thesis using t False by (simp add: share_def power_int_def field_simps)
qed (auto simp: share_def)

lemma findPercent_error:
  assumes "n \<le> t" and "t < 2 ^ 31"
  shows "\<bar>findPercent (as_int n) (as_int t) - share n t\<bar> \<le> 1 / 100000"
proof -
  define x where "x = share n t"
  define y where "y = fl 53 x"
  have f: "findPercent (as_int n) (as_int t) = fl 24 y"
    using assms as_int_id [of n] as_int_id [of t] by (simp add: findPercent_def share_def x_def y_def fl_def)
  have r: "0 \<le> x" "x \<le> 100" using share_range [OF assms(1)] by (simp_all add: x_def)
  have l: "x = 0 \<or> 2 powi (-31) * 100 \<le> x" using share_large [OF assms(2), of n] by (simp add: x_def)
  have "(2 powi (-32) :: rat) \<le> 2 powi (-31) * 100" by (simp add: power_int_def power_divide)
  then have x32: "x = 0 \<or> 2 powi (-32) \<le> \<bar>x\<bar>" using l by linarith
  have "\<bar>x\<bar> = x" using r by simp
  then have d: "\<bar>y - x\<bar> \<le> x / 2 ^ 53" using fl_error [OF x32, of 53] by (simp only: y_def)
  show ?thesis
  proof (cases "x = 0")
    case True
    then show ?thesis unfolding f x_def [symmetric] by (simp add: y_def fl_def)
  next
    case False
    have half: "x / 2 ^ 53 \<le> x / 2" using r by simp
    have pw: "(2 powi (-32) :: rat) = 1 / 4294967296" "(2 powi (-31) :: rat) = 1 / 2147483648"
      by (simp_all add: power_int_def power_divide)
    have "2 powi (-32) \<le> \<bar>y\<bar>" using l False d half unfolding pw by linarith
    then have e: "\<bar>fl 24 y - y\<bar> \<le> \<bar>y\<bar> / 2 ^ 24" using fl_error [of y 24] by blast
    have "\<bar>y\<bar> \<le> 150" using d r half by linarith
    then have "\<bar>y\<bar> / 2 ^ 24 \<le> 150 / 2 ^ 24" by (rule divide_right_mono) simp
    then have "\<bar>fl 24 y - y\<bar> \<le> 150 / 2 ^ 24" using e by linarith
    moreover have "\<bar>y - x\<bar> \<le> 100 / 2 ^ 53" using d divide_right_mono [OF r(2), of "2 ^ 53"] by simp
    moreover have "150 / 2 ^ 24 + 100 / 2 ^ 53 \<le> (1 / 100000 :: rat)" by simp
    ultimately show ?thesis unfolding f x_def [symmetric] by linarith
  qed
qed

lemma hundredths_error:
  assumes "n \<le> t" and "t < 2 ^ 31"
  shows "\<bar>of_int (hundredths (findPercent (as_int n) (as_int t))) - share n t * 100\<bar> \<le> 51 / 100"
  using findPercent_error [OF assms] round_even_error [of "findPercent (as_int n) (as_int t) * 100"]
  unfolding hundredths_def by linarith

lemma hundredths_range:
  assumes "n \<le> t" and "t < 2 ^ 31"
  shows "0 \<le> hundredths (findPercent (as_int n) (as_int t)) \<and> hundredths (findPercent (as_int n) (as_int t)) \<le> 10000"
proof -
  let ?h = "hundredths (findPercent (as_int n) (as_int t))"
  have "(of_int ?h :: rat) < of_int 10001" "of_int (- 1) < (of_int ?h :: rat)"
    using hundredths_error [OF assms] share_range [OF assms(1)] by linarith+
  then show ?thesis unfolding of_int_less_iff by simp
qed

text \<open>What the program leaves behind, for a root that can be entered.\<close>

lemma ftw_main_result:
  assumes "fs arg = Some (nm, Dir r True es)" and "tree_ok nm (Dir r True es)" and "length nm < MAX_NAME"
    and "turns (Dir r True es) < k"
  shows "ftw_main k fs [prog, arg] = Some \<lparr>fr_status = 0,
    fr_out = concat (map visit_line (visits (Dir r True es) nm 0)) @
      table_text (printStat (count (Dir r True es) no_stats)),
    fr_err = messages (Dir r True es) False\<rparr>"
  using assms ftw_run_done [of nm r es k] by (simp add: ftw_main_def del: messages.simps)


subsection \<open>Properties\<close>

text \<open>C9: The standard output is a faithful drawing of the tree: for names without a new line, whoever reads its lines
  back up to the table, marks, colours and names, gets the tree with every name and kind and with the entries of each
  directory that could be opened and entered, and the program ends with status 0. The messages on the standard error
  output are left out of the drawing; there are none exactly if every directory that was visited could be opened and
  entered, and then the standard output is all that the terminal shows.\<close>

theorem ftw_drawing:
  assumes "fs arg = Some (nm, Dir r True es)" and "tree_ok nm (Dir r True es)" and "length nm < MAX_NAME"
    and "turns (Dir r True es) < k" and "\<forall>v \<in> set (visits (Dir r True es) nm 0). nl \<notin> set (fst v)"
  shows "\<exists>res. ftw_main k fs [prog, arg] = Some res \<and> fr_status res = 0 \<and>
    grow (read_visits 0 (fr_out res)) = [(0, outline_of (Dir r True es) nm)] \<and>
    (fr_err res = [] \<longleftrightarrow> \<not> barred (Dir r True es))"
proof -
  let ?vs = "visits (Dir r True es) nm 0" and ?tb = "table_text (printStat (count (Dir r True es) no_stats))"
  have "plain_visits ?vs"
    using assms(5) visits_depth(1) [of _ "Dir r True es" nm 0] by (fastforce simp: plain_visits_def)
  then have "read_visits 0 (concat (map visit_line ?vs) @ ?tb) = ?vs" unfolding table_text_def by (rule read_lines)
  moreover have "grow (?vs @ []) = (0, outline_of (Dir r True es) nm) # grow []"
    by (rule grow_visits) (simp add: ends_at_def)
  moreover have "messages (Dir r True es) False = [] \<longleftrightarrow> \<not> barred (Dir r True es)"
    using messages_none(1) messages_some(1) by blast
  ultimately show ?thesis using ftw_main_result [of fs arg nm r es k prog, OF assms(1-4)] by simp
qed

theorem ftw_drawing_witness:
  "\<exists>res. ftw_main 9 (\<lambda>_. Some sample_tree) [''ftw'', ''r''] = Some res \<and> fr_err res \<noteq> [] \<and>
    grow (read_visits 0 (fr_out res)) =
    [(0, Outline ''/r'' FTW_DIR [Outline ''d'' FTW_DIR [], Outline ''b'' FTW_DIR [Outline ''c'' FTW_FILE []],
       Outline ''a'' FTW_FILE []])]"
proof -
  obtain es where t: "sample_tree = (''/r'', Dir True True es)" by (simp add: sample_tree_def)
  have es: "es = ECons ''a'' (Leaf S_IFREG) (ECons ''b'' (Dir True True (ECons ''c'' (Leaf S_IFLNK) ENil))
     (ECons ''d'' (Dir True False (ECons ''e'' (Leaf S_IFREG) ENil)) ENil))"
    using t by (simp add: sample_tree_def)
  show ?thesis
    using ftw_drawing [of "\<lambda>_. Some sample_tree" "''r''" "''/r''" True es 9 "''ftw''"]
    by (auto simp: t es MAX_NAME_def nl_def)
qed

text \<open>The test after \<^verbatim>\<open>readdir\<close> looks at an \<^verbatim>\<open>errno\<close> that nobody has reset: once a directory could not be opened or
  entered, every directory that is read later gets the message of a failing \<^verbatim>\<open>readdir\<close>.\<close>

primrec dirs_read :: "ftree \<Rightarrow> nat" and dirs_read_in :: "fentries \<Rightarrow> nat" where
  "dirs_read (Leaf k) = 0"
| "dirs_read (Dir r x es) = (if r \<and> x then Suc (dirs_read_in es) else 0)"
| "dirs_read_in ENil = 0"
| "dirs_read_in (ECons n t es) = dirs_read_in es + dirs_read t"

theorem ftw_stale_errno:
  "count_list (messages t True) Error_readdir = dirs_read t"
  "count_list (messages_in es True) Error_readdir = dirs_read_in es"
  by (induction t and es) simp_all

text \<open>C37: The table: with fewer than \<open>2^31\<close> files each printed share is within 0.0051 of the exact one, rounding to
  \<^verbatim>\<open>double\<close>, \<^verbatim>\<open>float\<close> and two decimals included, lies between 0 and 100, and the seven of them make 100 to within
  0.03, or are 0 when nothing has been counted; \<^verbatim>\<open>ntotal\<close> is the sum of the rows.\<close>

theorem ftw_percents:
  assumes "ntotal s < 2 ^ 31" and "printStat s = (rows, tot)"
  shows "tot = sum_list (map (\<lambda>(x, n, p). n) rows) \<and>
    (\<forall>(x, n, p) \<in> set rows. 0 \<le> hundredths p \<and> hundredths p \<le> 10000 \<and>
       \<bar>of_int (hundredths p) - share n tot * 100\<bar> \<le> 51 / 100) \<and>
    \<bar>sum_list (map (\<lambda>(x, n, p). hundredths p) rows) - (if tot = 0 then 0 else 10000)\<bar> \<le> 3"
proof -
  define h where "h n = hundredths (findPercent (as_int n) (as_int tot))" for n
  have t: "tot = ntotal s" and rows: "rows = map (\<lambda>(x, n). (x, n, findPercent (as_int n) (as_int tot))) (stat_rows s)"
    using assms(2) by (auto simp: printStat_def)
  let ?ns = "[nreg s, ndir s, nblk s, nchr s, nfifo s, nslink s, nsock s]"
  have le: "\<forall>n \<in> set ?ns. n \<le> tot" and sum: "tot = sum_list ?ns" by (simp_all add: t ntotal_def)
  have t31: "tot < 2 ^ 31" using assms(1) t by simp
  have err: "\<bar>of_int (h n) - share n tot * 100\<bar> \<le> 51 / 100" if "n \<le> tot" for n
    using hundredths_error [OF that t31] by (simp add: h_def)
  have ran: "0 \<le> h n \<and> h n \<le> 10000" if "n \<le> tot" for n
    using hundredths_range [OF that t31] by (simp add: h_def)
  have "\<bar>sum_list (map (\<lambda>n. of_int (h n)) ?ns) - sum_list (map (\<lambda>n. share n tot * 100) ?ns)\<bar> \<le> of_nat (length ?ns) * (51 / 100)"
    by (rule sum_list_error) (use err le in blast)
  then have "\<bar>of_int (sum_list (map h ?ns)) - sum_list (map (\<lambda>n. share n tot) ?ns) * 100\<bar> \<le> 7 * (51 / 100)"
    by (simp add: distrib_right add.assoc)
  moreover have "sum_list (map (\<lambda>n. share n tot) ?ns) = (if tot = 0 then 0 else 100)"
  proof -
    have "(of_nat tot :: rat) = of_nat (nreg s) + of_nat (ndir s) + of_nat (nblk s) + of_nat (nchr s) + of_nat (nfifo s) +
        of_nat (nslink s) + of_nat (nsock s)"
      by (subst sum) simp
    then show ?thesis by (auto simp: share_def add_divide_distrib [symmetric] nonzero_divide_eq_eq algebra_simps)
  qed
  ultimately have "\<bar>sum_list (map h ?ns) - (if tot = 0 then 0 else 10000)\<bar> \<le> 3" by (rule sum_close)
  moreover have "map (\<lambda>(x, n, p). hundredths p) rows = map h ?ns" "map (\<lambda>(x, n, p). n) rows = ?ns"
    by (simp_all add: rows stat_rows_def h_def)
  moreover have "\<forall>(x, n, p) \<in> set rows. n \<in> set ?ns \<and> hundredths p = h n"
    by (simp add: rows stat_rows_def h_def)
  ultimately show ?thesis using sum err ran le by fastforce
qed

theorem ftw_percents_witness:
  "\<exists>rows. printStat (no_stats\<lparr>nreg := 1, ndir := 1, nsock := 1\<rparr>) = (rows, 3) \<and>
    \<bar>sum_list (map (\<lambda>(x, n, p). hundredths p) rows) - 10000\<bar> \<le> 3"
proof -
  obtain rows where "printStat (no_stats\<lparr>nreg := 1, ndir := 1, nsock := 1\<rparr>) = (rows, 3)"
    by (simp add: printStat_def ntotal_def no_stats_def)
  then show ?thesis
    using ftw_percents [of "no_stats\<lparr>nreg := 1, ndir := 1, nsock := 1\<rparr>" rows 3] by (auto simp: ntotal_def no_stats_def)
qed

text \<open>Three equal kinds: 33.33 each.\<close>

lemma ftw_thirds: "hundredths (findPercent 1 3) = 3333"
proof -
  have "\<bar>of_int (hundredths (findPercent 1 3)) - 10000 / 3\<bar> \<le> (51 / 100 :: rat)"
    using hundredths_error [of 1 3] by (simp add: as_int_id share_def)
  then have "(of_int (hundredths (findPercent 1 3)) :: rat) < of_int 3334"
    "of_int 3332 < (of_int (hundredths (findPercent 1 3)) :: rat)" by linarith+
  then show ?thesis unfolding of_int_less_iff by simp
qed

text \<open>The parameters of \<^verbatim>\<open>findPercent\<close> are too small for its arguments: when the number of files is a multiple of
  \<open>2^32\<close>, every share is printed as 0.\<close>

theorem ftw_percents_wrap:
  assumes "ntotal s mod 2 ^ 32 = 0"
  shows "\<forall>(x, n, p) \<in> set (fst (printStat s)). p = 0"
proof -
  have "(of_nat (ntotal s) :: 32 word) = 0" using assms by (simp add: word_of_nat_eq_0_iff mod_eq_0_iff_dvd)
  then have "as_int (ntotal s) = 0" by (simp add: as_int_def)
  then show ?thesis by (auto simp: printStat_def findPercent_def)
qed

theorem ftw_percents_wrap_witness:
  "\<forall>(x, n, p) \<in> set (fst (printStat (no_stats\<lparr>nreg := 4294967296\<rparr>))). p = 0"
  using ftw_percents_wrap [of "no_stats\<lparr>nreg := 4294967296\<rparr>"] by (simp add: ntotal_def no_stats_def)

end
