(* ===== verification/Tool_Pagemap.thy ===== *)
theory Tool_Pagemap
  imports Proc_Info Pagemap
begin

section \<open>The page map reader as a command of the report\<close>

text \<open>
  \<^verbatim>\<open>run_pagemap\<close> and \<^verbatim>\<open>run_pagemap_region\<close> of lab-fileSystem/task-proc/proc\_info.c write a command line for
  pagemap.c and leave it to the shell. Here are the two ends: the line as \<^verbatim>\<open>snprintf\<close> writes it, and \<^verbatim>\<open>main\<close>
  of pagemap.c on its words, with the number parsers of the C library written out.
\<close>

subsection \<open>The number parser\<close>

text \<open>
  \<^verbatim>\<open>strtol\<close>: blanks, a sign, in base 16 a prefix \<^verbatim>\<open>0x\<close> before a digit, and digits; a value outside
  \<^verbatim>\<open>long\<close> becomes the nearest one in it. The result is the value and the rest of the string, which is all of it
  when there is no digit.
\<close>

definition LONG_MAX :: int where "LONG_MAX = 9223372036854775807"
definition LONG_MIN :: int where "LONG_MIN = - 9223372036854775808"

definition is_blank :: "char \<Rightarrow> bool" where
  "is_blank c \<longleftrightarrow> c \<in> {CHR '' '', CHR 0x09, CHR 0x0A, CHR 0x0B, CHR 0x0C, CHR 0x0D}"

definition digit_in :: "nat \<Rightarrow> char \<Rightarrow> nat option" where
  "digit_in base c =
     (let k = of_char c :: nat;
          v = (if 48 \<le> k \<and> k \<le> 57 then k - 48 else if 97 \<le> k \<and> k \<le> 122 then k - 87
               else if 65 \<le> k \<and> k \<le> 90 then k - 55 else base)
      in if v < base then Some v else None)"

fun digits_value :: "nat \<Rightarrow> nat \<Rightarrow> string \<Rightarrow> nat \<times> string" where
  "digits_value base n [] = (n, [])"
| "digits_value base n (c # cs) =
     (case digit_in base c of None \<Rightarrow> (n, c # cs) | Some v \<Rightarrow> digits_value base (n * base + v) cs)"

fun skip_prefix :: "string \<Rightarrow> string" where
  "skip_prefix (a # b # c # cs) =
     (if a = CHR ''0'' \<and> (b = CHR ''x'' \<or> b = CHR ''X'') \<and> digit_in 16 c \<noteq> None then c # cs else a # b # c # cs)"
| "skip_prefix s = s"

definition strtol :: "nat \<Rightarrow> string \<Rightarrow> int \<times> string" where
  "strtol base s =
     (let t = dropWhile is_blank s;
          (neg, u) = (case t of [] \<Rightarrow> (False, []) | c # cs \<Rightarrow>
             if c = CHR ''-'' then (True, cs) else if c = CHR ''+'' then (False, cs) else (False, t));
          w = (if base = 16 then skip_prefix u else u)
      in case w of
           [] \<Rightarrow> (0, s)
         | c # cs \<Rightarrow>
             if digit_in base c = None then (0, s)
             else
               let (n, rest) = digits_value base 0 w; v = (if neg then - int n else int n)
               in (max LONG_MIN (min LONG_MAX v), rest))"


subsection \<open>The two programs\<close>

text \<open>\<^verbatim>\<open>%d\<close> and the command line; \<^verbatim>\<open>snprintf\<close> would cut it at the 100 bytes of its buffer, the zero included.\<close>

definition dec_int :: "int \<Rightarrow> string" where
  "dec_int i = (if i < 0 then CHR ''-'' # dec (nat (- i)) else dec (nat i))"

definition full_command :: "int \<Rightarrow> 64 word \<Rightarrow> string" where
  "full_command pid start_addr = ''./pagemap '' @ dec_int pid @ '' 0x'' @ hex (unat start_addr)"

definition run_pagemap :: "int \<Rightarrow> 64 word \<Rightarrow> string" where
  "run_pagemap pid start_addr = take (100 - 1) (full_command pid start_addr)"

text \<open>The commands of one call of \<^verbatim>\<open>run_pagemap_region\<close>: its loop leaves after the first page.\<close>

definition run_pagemap_region :: "int \<Rightarrow> 64 word \<Rightarrow> 64 word \<Rightarrow> string list" where
  "run_pagemap_region pid start_addr end_addr = (if start_addr < end_addr then [run_pagemap pid start_addr] else [])"

text \<open>The words of a line without quotes or other special characters, as the shell takes them.\<close>

definition shell_words :: "string \<Rightarrow> string list" where
  "shell_words s = filter (\<lambda>w. w \<noteq> []) (split_on (CHR '' '') s)"

text \<open>
  \<^verbatim>\<open>main\<close> of pagemap.c: a usage error or a bad number is -1 without a look at a file, otherwise the entry of the
  address in the file of the process is read, whose result \<^verbatim>\<open>main\<close> does not use.
\<close>

definition page_file :: "int \<Rightarrow> string" where
  "page_file pid = (if pid = - 1 then ''/proc/self/pagemap'' else ''/proc/'' @ dec (nat pid) @ ''/pagemap'')"

definition pagemap_main ::
  "bool \<Rightarrow> 64 word \<Rightarrow> (string \<Rightarrow> 8 word list option) \<Rightarrow> string list \<Rightarrow> int \<times> outcome option" where
  "pagemap_main big page files argv =
     (case parse_args (strtol 10) (\<lambda>s. fst (strtol 16 s)) (tl argv) of
        None \<Rightarrow> (- 1, None)
      | Some (pid, virt_addr) \<Rightarrow> (0, Some (read_pagemap big page (files (page_file pid)) virt_addr)))"


subsection \<open>Digits written and read\<close>

lemma digit_in_hex: "d < 16 \<Longrightarrow> digit_in 16 (hex_digit d) = Some d"
  by (simp add: numeral_eq_Suc less_Suc_eq hex_digit_def digit_in_def, elim disjE; simp add: numeral_eq_Suc)

lemma digit_in_dec: "d < 10 \<Longrightarrow> digit_in 10 (hex_digit d) = Some d"
  by (simp add: numeral_eq_Suc less_Suc_eq hex_digit_def digit_in_def, elim disjE; simp add: numeral_eq_Suc)

lemma digits_value_app:
  "\<forall>c \<in> set s. digit_in base c \<noteq> None \<Longrightarrow>
     digits_value base n (s @ t) = digits_value base (fst (digits_value base n s)) t"
  by (induction s arbitrary: n) (auto split: option.splits)

lemma hex_digits: "\<forall>c \<in> set (hex k). digit_in 16 c \<noteq> None"
proof (induction k rule: hex.induct)
  case (1 k)
  then show ?case by (subst hex.simps) (auto simp: digit_in_hex)
qed

lemma dec_digits: "\<forall>c \<in> set (dec k). digit_in 10 c \<noteq> None"
proof (induction k rule: dec.induct)
  case (1 k)
  then show ?case by (subst dec.simps) (auto simp: digit_in_dec)
qed

lemma digits_value_hex: "digits_value 16 0 (hex k) = (k, [])"
proof (induction k rule: hex.induct)
  case (1 k)
  then show ?case
    using digits_value_app [OF hex_digits, of 0 "k div 16"] by (subst hex.simps) (simp add: digit_in_hex)
qed

lemma digits_value_dec: "digits_value 10 0 (dec k) = (k, [])"
proof (induction k rule: dec.induct)
  case (1 k)
  then show ?case
    using digits_value_app [OF dec_digits, of 0 "k div 10"] by (subst dec.simps) (simp add: digit_in_dec)
qed

lemma hex_nonempty: "hex k \<noteq> []"
  by (subst hex.simps) simp

lemma dec_nonempty: "dec k \<noteq> []"
  by (subst dec.simps) simp

lemma hex_length: "k < 16 ^ Suc m \<Longrightarrow> length (hex k) \<le> Suc m"
proof (induction m arbitrary: k)
  case 0
  then show ?case by (subst hex.simps) simp
next
  case (Suc m)
  have "k div 16 < 16 ^ Suc m" using Suc.prems by (simp add: less_mult_imp_div_less mult.commute)
  then show ?case using Suc.IH [of "k div 16"] by (subst hex.simps) simp
qed

lemma dec_length: "k < 10 ^ Suc m \<Longrightarrow> length (dec k) \<le> Suc m"
proof (induction m arbitrary: k)
  case 0
  then show ?case by (subst dec.simps) simp
next
  case (Suc m)
  have "k div 10 < 10 ^ Suc m" using Suc.prems by (simp add: less_mult_imp_div_less mult.commute)
  then show ?case using Suc.IH [of "k div 10"] by (subst dec.simps) simp
qed

text \<open>A digit is no blank and no sign.\<close>

lemma digit_plain:
  "digit_in base c = Some v \<Longrightarrow> base \<le> 16 \<Longrightarrow> \<not> is_blank c \<and> c \<noteq> CHR ''-'' \<and> c \<noteq> CHR ''+''"
  by (auto simp: digit_in_def is_blank_def Let_def split: if_splits)

lemma strtol_dec: "strtol 10 (dec k) = (min LONG_MAX (int k), [])"
proof -
  obtain c cs where d: "dec k = c # cs" by (meson dec_nonempty neq_Nil_conv)
  obtain v where v: "digit_in 10 c = Some v" using dec_digits [of k] by (auto simp: d)
  have n: "digits_value 10 0 (c # cs) = (k, [])" using digits_value_dec [of k] by (simp only: d)
  have "\<not> is_blank c" "c \<noteq> CHR ''-''" "c \<noteq> CHR ''+''" using digit_plain [OF v] by simp_all
  then show ?thesis using v n by (simp add: strtol_def d LONG_MIN_def LONG_MAX_def)
qed

lemma strtol_hex: "strtol 16 (CHR ''0'' # CHR ''x'' # hex k) = (min LONG_MAX (int k), [])"
proof -
  obtain c cs where d: "hex k = c # cs" by (meson hex_nonempty neq_Nil_conv)
  obtain v where v: "digit_in 16 c = Some v" using hex_digits [of k] by (auto simp: d)
  have n: "digits_value 16 0 (c # cs) = (k, [])" using digits_value_hex [of k] by (simp only: d)
  show ?thesis using v n by (simp add: strtol_def d is_blank_def LONG_MIN_def LONG_MAX_def)
qed

lemma no_blank: "\<forall>c \<in> set s. digit_in base c \<noteq> None \<Longrightarrow> base \<le> 16 \<Longrightarrow> CHR '' '' \<notin> set s"
  using digit_plain [of base "CHR '' ''"] by (fastforce simp: is_blank_def)

lemma command_words:
  assumes "0 < pid"
  shows "shell_words (full_command pid a) = [''./pagemap'', dec (nat pid), CHR ''0'' # CHR ''x'' # hex (unat a)]"
proof -
  have d: "CHR '' '' \<notin> set (dec (nat pid))" by (rule no_blank [OF dec_digits]) simp
  have h: "CHR '' '' \<notin> set (CHR ''0'' # CHR ''x'' # hex (unat a))" using no_blank [OF hex_digits, of "unat a"] by simp
  have c: "full_command pid a = ''./pagemap'' @ CHR '' '' # (dec (nat pid) @ CHR '' '' # (CHR ''0'' # CHR ''x'' # hex (unat a)))"
    using assms by (simp add: full_command_def dec_int_def)
  have "split_on (CHR '' '') (full_command pid a) =
      [''./pagemap'', dec (nat pid), CHR ''0'' # CHR ''x'' # hex (unat a)]"
    unfolding c by (subst split_on_app, simp, subst split_on_app [OF d], subst split_on_word [OF h]) simp
  then show ?thesis using dec_nonempty [of "nat pid"] by (simp add: shell_words_def)
qed

lemma command_fits: "0 < pid \<Longrightarrow> pid \<le> INT_MAX \<Longrightarrow> length (full_command pid a) \<le> 40"
proof -
  assume "0 < pid" "pid \<le> INT_MAX"
  then have "length (dec (nat pid)) \<le> 10"
    using dec_length [of "nat pid" 9] by (simp add: INT_MAX_def)
  moreover have "length (hex (unat a)) \<le> 16" using hex_length [of "unat a" 15] unat_bound [of a] by simp
  ultimately show ?thesis using \<open>0 < pid\<close> by (simp add: full_command_def dec_int_def)
qed


lemma min_long:
  "k < 2 ^ 63 \<Longrightarrow> min LONG_MAX (int k) = int k" "2 ^ 63 \<le> k \<Longrightarrow> min LONG_MAX (int k) = LONG_MAX"
  by (simp_all add: LONG_MAX_def min_def)

text \<open>The whole way, with what \<^verbatim>\<open>strtol\<close> makes of the address.\<close>

lemma command_main:
  assumes "0 < pid" and "pid \<le> INT_MAX"
  shows "pagemap_main big page files (shell_words (run_pagemap pid a)) =
    (0, Some (read_pagemap big page (files (page_file pid)) (word_of_int (min LONG_MAX (int (unat a))))))"
proof -
  have fit: "run_pagemap pid a = full_command pid a"
    using command_fits [OF assms, of a] by (simp add: run_pagemap_def)
  have pid: "strtol 10 (dec (nat pid)) = (pid, [])"
    using assms by (simp add: strtol_dec LONG_MAX_def INT_MAX_def)
  have int: "to_int pid = pid" using assms by (simp add: to_int_def INT_MAX_def sint_sbintrunc' signed_take_bit_int_eq_self)
  have "dec (nat pid) \<noteq> ''self''" using dec_digits [of "nat pid"] by (auto simp: digit_in_def)
  then have "parse_args (strtol 10) (\<lambda>s. fst (strtol 16 s)) [dec (nat pid), CHR ''0'' # CHR ''x'' # hex (unat a)] =
      Some (pid, word_of_int (min LONG_MAX (int (unat a))))"
    using assms(1) pid int dec_nonempty [of "nat pid"] by (simp add: parse_args_def strtol_hex)
  then show ?thesis using command_words [OF assms(1), of a] by (simp add: pagemap_main_def fit)
qed


subsection \<open>Properties\<close>

text \<open>C27: What the report asks, the reader does: for every process number and every address below \<open>2^63\<close> the
  command fits the buffer of 100 bytes with room to spare, and the program that the shell starts with its words
  prints the entry of that address in the page map of that process, and ends with 0.\<close>

theorem pagemap_command:
  assumes "0 < pid" and "pid \<le> INT_MAX" and "unat start_addr < 2 ^ 63"
  shows "length (full_command pid start_addr) \<le> 40 \<and>
    pagemap_main big page files (shell_words (run_pagemap pid start_addr)) =
      (0, Some (read_pagemap big page (files (page_file pid)) start_addr))"
proof -
  have "word_of_int (min LONG_MAX (int (unat start_addr))) = start_addr" unfolding min_long(1) [OF assms(3)] by simp
  then show ?thesis
    using command_fits [OF assms(1,2), of start_addr] command_main [OF assms(1,2), of big page files start_addr] by simp
qed

text \<open>Process 123, an address in its second page, and a file with an entry for that page.\<close>

theorem pagemap_command_witness:
  "pagemap_main False 4096 (\<lambda>f. if f = ''/proc/123/pagemap'' then Some (replicate 8 0 @ mem_bytes False 5) else None)
      (shell_words (run_pagemap 123 0x1fff)) =
     (0, Some (read_pagemap False 4096 (Some (replicate 8 0 @ mem_bytes False 5)) 0x1fff))"
  using pagemap_command [of 123 "0x1fff" False 4096
      "\<lambda>f. if f = ''/proc/123/pagemap'' then Some (replicate 8 0 @ mem_bytes False 5) else None"]
  by (simp add: INT_MAX_def page_file_def dec.simps hex_digit_def)

text \<open>From \<open>2^63\<close> on the reader looks at another page: \<^verbatim>\<open>strtol\<close> stops at the largest \<^verbatim>\<open>long\<close>, so every address of
  the upper half, such as that of the vsyscall page in each process, is answered with the entry of \<open>2^63 - 1\<close>.\<close>

theorem pagemap_command_high:
  assumes "0 < pid" and "pid \<le> INT_MAX" and "2 ^ 63 \<le> unat start_addr"
  shows "pagemap_main big page files (shell_words (run_pagemap pid start_addr)) =
    (0, Some (read_pagemap big page (files (page_file pid)) 0x7FFFFFFFFFFFFFFF))"
proof -
  show ?thesis
    using command_main [OF assms(1,2), of big page files start_addr] unfolding min_long(2) [OF assms(3)]
    by (simp add: LONG_MAX_def)
qed

theorem pagemap_command_high_witness:
  "pagemap_main False 4096 (\<lambda>_. None) (shell_words (run_pagemap 1 0xffffffffff600000)) =
     (0, Some (read_pagemap False 4096 None 0x7FFFFFFFFFFFFFFF))"
  using pagemap_command_high [of 1 "0xffffffffff600000" False 4096 "\<lambda>_. None"] by (simp add: INT_MAX_def)

end
