(* ===== verification/Module_Exercises.thy ===== *)
theory Module_Exercises
  imports Kernel_Base
begin

section \<open>First exercises on kernel modules\<close>

text \<open>
  lab-module/task-01/my\_module.c, which prints a line for every task of the kernel's ring of tasks, and
  lab-module/task-02, where two modules use what a third one exports. The initialiser of \<^verbatim>\<open>task\<close> in task-01 has
  a second \<^verbatim>\<open>=\<close> and does not compile; the value that \<^verbatim>\<open>task\<close> has at the loop is an argument.
\<close>

subsection \<open>The ring of tasks\<close>

record task_struct =
  td_pid :: int
  td_comm :: string
  td_parent :: nat
  td_state :: int
  td_cpu :: int
  td_prio :: int
  td_static_prio :: int
  td_normal_prio :: int
  td_policy :: int
  td_utime :: "64 word"
  td_stime :: "64 word"
  td_nvcsw :: "64 word"
  td_nivcsw :: "64 word"

text \<open>One line of the log: the fields in the order of the format, the parent's number and name among them.\<close>

record task_line =
  tl_pid :: int
  tl_comm :: string
  tl_ppid :: int
  tl_pcomm :: string
  tl_numbers :: "int list"
  tl_times :: "64 word list"
  tl_sw_count :: "64 word"

definition task_line :: "(nat \<Rightarrow> task_struct) \<Rightarrow> nat \<Rightarrow> task_line" where
  "task_line mem t =
     (let task = mem t; parent = mem (td_parent task) in
      \<lparr>tl_pid = td_pid task, tl_comm = td_comm task, tl_ppid = td_pid parent, tl_pcomm = td_comm parent,
       tl_numbers = [td_state task, td_cpu task, td_prio task, td_static_prio task, td_normal_prio task, td_policy task],
       tl_times = [td_utime task, td_stime task], tl_sw_count = td_nvcsw task + td_nivcsw task\<rparr>)"

text \<open>
  The loop \<^verbatim>\<open>do .. while ((task = next_task(task)) != &init_task)\<close>, the tasks it prints; \<^term>\<open>None\<close> when it does
  not end. A task is its address, and \<open>next_task\<close> the link of the kernel's list.
\<close>

partial_function (option) ring_walk :: "(nat \<Rightarrow> nat) \<Rightarrow> nat \<Rightarrow> nat \<Rightarrow> nat list option" where
  "ring_walk next_task init_task task =
     (if next_task task = init_task then Some [task]
      else Option.bind (ring_walk next_task init_task (next_task task)) (\<lambda>ts. Some (task # ts)))"

text \<open>\<^verbatim>\<open>my_module_init\<close> from line 18 on: the line of the current task, then the lines of the loop.\<close>

definition task_module_init ::
  "(nat \<Rightarrow> task_struct) \<Rightarrow> (nat \<Rightarrow> nat) \<Rightarrow> nat \<Rightarrow> nat \<Rightarrow> nat \<Rightarrow> (int \<times> task_line list) option" where
  "task_module_init mem next_task init_task task current =
     Option.bind (ring_walk next_task init_task task)
       (\<lambda>ts. Some (0, task_line mem current # map (task_line mem) ts))"

lemma ring_walk_closed:
  "(nxt ^^ Suc n) t = i \<Longrightarrow> (\<forall>k < n. (nxt ^^ Suc k) t \<noteq> i) \<Longrightarrow>
     ring_walk nxt i t = Some (map (\<lambda>k. (nxt ^^ k) t) [0..<Suc n])"
proof (induction n arbitrary: t)
  case 0
  then show ?case by (subst ring_walk.simps) simp
next
  case (Suc n)
  have "nxt t \<noteq> i" using Suc.prems(2) by auto
  moreover have "ring_walk nxt i (nxt t) = Some (map (\<lambda>k. (nxt ^^ k) (nxt t)) [0..<Suc n])"
  proof (rule Suc.IH)
    show "(nxt ^^ Suc n) (nxt t) = i" using Suc.prems(1) by (simp add: funpow_swap1)
    show "\<forall>k < n. (nxt ^^ Suc k) (nxt t) \<noteq> i"
      using Suc.prems(2) by (metis Suc_less_eq comp_apply funpow_Suc_right)
  qed
  moreover have "map (\<lambda>k. (nxt ^^ k) t) [0..<Suc (Suc n)] = t # map (\<lambda>k. (nxt ^^ k) (nxt t)) [0..<Suc n]"
    by (subst upt_conv_Cons) (simp_all add: map_Suc_upt [symmetric] comp_def funpow_swap1 del: upt_Suc)
  ultimately show ?case by (subst ring_walk.simps) simp
qed

lemma ring_walk_Some:
  assumes "ring_walk nxt i t = Some ts"
  shows "\<exists>n. (nxt ^^ Suc n) t = i"
proof (rule ring_walk.raw_induct [of "\<lambda>nxt i t ts. \<exists>n. (nxt ^^ Suc n) t = i", OF _ assms])
  fix rec :: "(nat \<Rightarrow> nat) \<Rightarrow> nat \<Rightarrow> nat \<Rightarrow> nat list option" and nxt i t ts
  assume IH: "\<And>nxt i t ts. rec nxt i t = Some ts \<Longrightarrow> \<exists>n. (nxt ^^ Suc n) t = i"
    and step: "(if nxt t = i then Some [t] else Option.bind (rec nxt i (nxt t)) (\<lambda>ts. Some (t # ts))) = Some ts"
  show "\<exists>n. (nxt ^^ Suc n) t = i"
  proof (cases "nxt t = i")
    case True
    then show ?thesis by (intro exI [of _ 0]) simp
  next
    case False
    then obtain ts' where "rec nxt i (nxt t) = Some ts'" using step by (cases "rec nxt i (nxt t)") auto
    from IH [OF this] obtain n where "(nxt ^^ Suc n) (nxt t) = i" by blast
    then show ?thesis by (intro exI [of _ "Suc n"]) (simp add: funpow_swap1)
  qed
qed

lemma ring_distinct:
  fixes nxt :: "nat \<Rightarrow> nat"
  assumes "(nxt ^^ Suc n) t = i" and "\<forall>k < n. (nxt ^^ Suc k) t \<noteq> i"
  shows "distinct (map (\<lambda>k. (nxt ^^ k) t) [0..<Suc n])"
proof -
  have less: "(nxt ^^ a) t \<noteq> (nxt ^^ b) t" if "a < b" "b < Suc n" for a b
  proof
    assume eq: "(nxt ^^ a) t = (nxt ^^ b) t"
    have "(nxt ^^ (Suc n - b + a)) t = (nxt ^^ (Suc n - b + b)) t" by (simp only: funpow_add comp_apply eq)
    then have "(nxt ^^ Suc (n - b + a)) t = i" using that assms(1) by (simp add: Suc_diff_le)
    moreover have "n - b + a < n" using that by simp
    ultimately show False using assms(2) by blast
  qed
  have "inj_on (\<lambda>k. (nxt ^^ k) t) {0..<Suc n}"
  proof (rule inj_onI)
    fix a b assume ab: "a \<in> {0..<Suc n}" "b \<in> {0..<Suc n}" "(nxt ^^ a) t = (nxt ^^ b) t"
    then have "\<not> a < b" "\<not> b < a" using less [of a b] less [of b a] by auto
    then show "a = b" by simp
  qed
  then show ?thesis by (simp add: distinct_map del: upt_Suc)
qed


subsection \<open>Modules that use each other\<close>

text \<open>
  The three modules of task-02: what they export, what they use, and what their functions print, where \<open>d\<close> is
  the value of md1's \<^verbatim>\<open>md1_data\<close>.
\<close>

datatype md = MD1 | MD2 | MD3

definition md1_data :: string where "md1_data = ''Hello World!''"

definition md1_local :: "string \<Rightarrow> string" where "md1_local d = d"
definition md1_proc :: "string \<Rightarrow> string" where "md1_proc d = d"
definition md1_noexport :: "string \<Rightarrow> string" where "md1_noexport d = d"

definition md_exports :: "md \<Rightarrow> string set" where
  "md_exports m = (case m of MD1 \<Rightarrow> {''md1_data'', ''md1_proc''} | _ \<Rightarrow> {})"

definition md_uses :: "md \<Rightarrow> string set" where
  "md_uses m = (case m of MD1 \<Rightarrow> {} | _ \<Rightarrow> {''md1_data'', ''md1_proc''})"

text \<open>The three \<^verbatim>\<open>md_init\<close>: what they return and print.\<close>

definition md1_init :: "int \<times> string list" where
  "md1_init = (0, [''+ module md1 start!''])"

definition md2_init :: "string \<Rightarrow> int \<times> string list" where
  "md2_init d = (0, [''+ module md2 start!'', ''+ data string exported from md1 : '' @ d,
     ''+ string returned md1_proc() is : '' @ md1_proc d])"

definition md3_init :: "string \<Rightarrow> int \<times> string list" where
  "md3_init d = (- 1, [''+ module md3 start!'', ''+ data string exported from md1 : '' @ d,
     ''+ string returned md1_proc() is : '' @ md1_proc d])"

definition md_init :: "string \<Rightarrow> md \<Rightarrow> int \<times> string list" where
  "md_init d m = (case m of MD1 \<Rightarrow> md1_init | MD2 \<Rightarrow> md2_init d | MD3 \<Rightarrow> md3_init d)"

text \<open>The three \<^verbatim>\<open>md_exit\<close>.\<close>

definition md1_exit :: "string list" where "md1_exit = [''+ module md1 unloaded!'']"
definition md2_exit :: "string list" where "md2_exit = [''+ module md2 unloaded!'']"
definition md3_exit :: "string list" where "md3_exit = [''+ module md3 unloaded!'']"

definition md_exit :: "md \<Rightarrow> string list" where
  "md_exit m = (case m of MD1 \<Rightarrow> md1_exit | MD2 \<Rightarrow> md2_exit | MD3 \<Rightarrow> md3_exit)"

lemmas md_defs = md_init_def md1_init_def md2_init_def md3_init_def md1_proc_def

text \<open>
  The kernel's loader is not in the sources. It decides with \<open>resolves\<close> whether it can give a module the symbols it
  uses, and with \<open>unused\<close> whether a module can go; a module whose \<^verbatim>\<open>md_init\<close> does not return 0 is not kept.
\<close>

record md_sys =
  md_loaded :: "md set"
  md_log :: "string list"

datatype md_event = Insmod md | Rmmod md

fun md_exec :: "(md set \<Rightarrow> md \<Rightarrow> bool) \<Rightarrow> (md set \<Rightarrow> md \<Rightarrow> bool) \<Rightarrow> md_sys \<Rightarrow> md_event \<Rightarrow> md_sys option" where
  "md_exec resolves unused s (Insmod m) =
     (if m \<in> md_loaded s \<or> \<not> resolves (md_loaded s) m then None
      else
        let (ret, out) = md_init md1_data m in
        Some (s\<lparr>md_loaded := (if ret = 0 then insert m (md_loaded s) else md_loaded s), md_log := md_log s @ out\<rparr>))"
| "md_exec resolves unused s (Rmmod m) =
     (if m \<notin> md_loaded s \<or> \<not> unused (md_loaded s) m then None
      else Some (s\<lparr>md_loaded := md_loaded s - {m}, md_log := md_log s @ md_exit m\<rparr>))"

definition md_start :: md_sys where
  "md_start = \<lparr>md_loaded = {}, md_log = []\<rparr>"

text \<open>What the loader documents: a symbol comes from a loaded module, and a module that is used stays.\<close>

definition loader_rules :: "(md set \<Rightarrow> md \<Rightarrow> bool) \<Rightarrow> (md set \<Rightarrow> md \<Rightarrow> bool) \<Rightarrow> bool" where
  "loader_rules resolves unused \<longleftrightarrow>
     (\<forall>l m. resolves l m \<longrightarrow> md_uses m \<subseteq> \<Union> (md_exports ` l)) \<and>
     (\<forall>l m. unused l m \<longrightarrow> (\<forall>u \<in> l - {m}. md_uses u \<inter> md_exports m = {}))"

definition md_inv :: "md_sys \<Rightarrow> bool" where
  "md_inv s \<longleftrightarrow> MD3 \<notin> md_loaded s \<and> (MD2 \<in> md_loaded s \<longrightarrow> MD1 \<in> md_loaded s)"

lemma md_uses_MD1: "md_uses m \<subseteq> \<Union> (md_exports ` l) \<Longrightarrow> m = MD1 \<or> MD1 \<in> l"
  by (cases m) (auto simp: md_uses_def md_exports_def split: md.splits, (metis md.exhaust)+)

lemma loader_resolves: "loader_rules resolves unused \<Longrightarrow> resolves l m \<Longrightarrow> m = MD1 \<or> MD1 \<in> l"
  by (rule md_uses_MD1) (simp add: loader_rules_def)

lemma loader_unused: "loader_rules resolves unused \<Longrightarrow> unused l m \<Longrightarrow> u \<in> l \<Longrightarrow> u \<noteq> m \<Longrightarrow> md_uses u \<inter> md_exports m = {}"
  by (simp add: loader_rules_def)

lemma md_inv_exec:
  assumes rules: "loader_rules resolves unused" and "md_inv s" and "md_exec resolves unused s e = Some t"
  shows "md_inv t"
proof (cases e)
  case (Insmod m)
  have "m = MD1 \<or> MD1 \<in> md_loaded s"
    using loader_resolves [OF rules, of "md_loaded s" m] assms(3) Insmod by (simp split: if_splits)
  then show ?thesis
    using assms(2,3) Insmod by (cases m) (auto simp: md_inv_def md_defs split: if_splits)
next
  case (Rmmod m)
  have "md_uses MD2 \<inter> md_exports m = {}" if "MD2 \<in> md_loaded s" "m \<noteq> MD2"
    using loader_unused [OF rules, of "md_loaded s" m MD2] assms(3) Rmmod that by (auto split: if_splits)
  then show ?thesis
    using assms(2,3) Rmmod by (cases m) (auto simp: md_inv_def md_uses_def md_exports_def split: if_splits)
qed

lemma md_system: "loader_rules resolves unused \<Longrightarrow> invariant_system (md_exec resolves unused) md_start md_inv"
  by unfold_locales (simp add: md_inv_def md_start_def, rule md_inv_exec)

lemmas md_reach_inv = invariant_system.reach_inv [OF md_system]

text \<open>A loader that follows the rules and refuses nothing else.\<close>

definition plain_resolves :: "md set \<Rightarrow> md \<Rightarrow> bool" where
  "plain_resolves l m \<longleftrightarrow> m = MD1 \<or> MD1 \<in> l"

definition plain_unused :: "md set \<Rightarrow> md \<Rightarrow> bool" where
  "plain_unused l m \<longleftrightarrow> m \<noteq> MD1 \<or> l \<subseteq> {MD1}"

lemma plain_loader: "loader_rules plain_resolves plain_unused"
  by (auto simp: loader_rules_def plain_resolves_def plain_unused_def md_uses_def md_exports_def split: md.splits)


subsection \<open>Properties\<close>

text \<open>The loop of task-01 ends exactly when the links lead from its first task to \<^verbatim>\<open>init_task\<close>: then it prints each
  task on the way once, in the order of the links, and before them the line of the current task; otherwise it never
  ends.\<close>

theorem ring_printed:
  "(case task_module_init mem nxt init_task task current of
      None \<Rightarrow> \<forall>n. (nxt ^^ Suc n) task \<noteq> init_task
    | Some (r, ls) \<Rightarrow> r = 0 \<and>
        (\<exists>n. (nxt ^^ Suc n) task = init_task \<and> distinct (map (\<lambda>k. (nxt ^^ k) task) [0..<Suc n]) \<and>
           ls = task_line mem current # map (\<lambda>k. task_line mem ((nxt ^^ k) task)) [0..<Suc n]))"
proof (cases "\<exists>n. (nxt ^^ Suc n) task = init_task")
  case True
  define n where "n = (LEAST n. (nxt ^^ Suc n) task = init_task)"
  have n: "(nxt ^^ Suc n) task = init_task" unfolding n_def by (rule LeastI_ex [OF True])
  have least: "\<forall>k < n. (nxt ^^ Suc k) task \<noteq> init_task" using not_less_Least unfolding n_def by blast
  show ?thesis
    using ring_walk_closed [OF n least] ring_distinct [OF n least] n
    by (simp add: task_module_init_def comp_def del: upt_Suc funpow.simps) blast
next
  case False
  then have "ring_walk nxt init_task task = None" using ring_walk_Some by (meson not_Some_eq)
  then show ?thesis using False by (simp add: task_module_init_def del: funpow.simps)
qed

text \<open>With a loader that keeps to its rules, md3 is never loaded, md2 is loaded only while md1 is, and md1 cannot be
  removed under md2; so the exported string exists whenever it is read.\<close>

theorem md_order:
  assumes "loader_rules resolves unused" and "reach (md_exec resolves unused) md_start s"
  shows "MD3 \<notin> md_loaded s \<and> (MD2 \<in> md_loaded s \<longrightarrow> MD1 \<in> md_loaded s \<and> md_exec resolves unused s (Rmmod MD1) = None) \<and>
    (\<forall>m t. m \<noteq> MD1 \<and> md_exec resolves unused s (Insmod m) = Some t \<longrightarrow> MD1 \<in> md_loaded s)"
proof -
  have inv: "md_inv s" using md_reach_inv [OF assms] .
  have "\<not> unused (md_loaded s) MD1" if "MD2 \<in> md_loaded s"
    using loader_unused [OF assms(1) _ that, of MD1] by (auto simp: md_uses_def md_exports_def)
  moreover have "MD1 \<in> md_loaded s" if "m \<noteq> MD1" "resolves (md_loaded s) m" for m
    using loader_resolves [OF assms(1) that(2)] that(1) by simp
  ultimately show ?thesis using inv by (auto simp: md_inv_def split: if_splits)
qed

text \<open>The session that the repository records in task-02/errors: md2, then md3, with md1 loaded.\<close>

theorem md_order_witness:
  "\<exists>s. run (md_exec plain_resolves plain_unused) md_start [Insmod MD1, Insmod MD2, Insmod MD3] = Some s \<and>
    md_exec plain_resolves plain_unused s (Rmmod MD1) = None \<and>
    md_log s = [''+ module md1 start!'', ''+ module md2 start!'', ''+ data string exported from md1 : Hello World!'',
      ''+ string returned md1_proc() is : Hello World!'', ''+ module md3 start!'',
      ''+ data string exported from md1 : Hello World!'', ''+ string returned md1_proc() is : Hello World!'']"
proof -
  obtain s where r: "run (md_exec plain_resolves plain_unused) md_start [Insmod MD1, Insmod MD2, Insmod MD3] = Some s"
    and l: "MD2 \<in> md_loaded s" and out: "md_log s = [''+ module md1 start!'', ''+ module md2 start!'',
      ''+ data string exported from md1 : Hello World!'', ''+ string returned md1_proc() is : Hello World!'',
      ''+ module md3 start!'', ''+ data string exported from md1 : Hello World!'',
      ''+ string returned md1_proc() is : Hello World!'']"
    by (simp add: plain_resolves_def md_start_def md_defs md1_data_def)
  show ?thesis using md_order [OF plain_loader run_reach_init [OF r]] r l out by blast
qed

end
