(* ===== verification/Two_Printers.thy ===== *)
theory Two_Printers
  imports Prelude
begin

section \<open>A parent and a child that print for ever\<close>

text \<open>
  lab-processes/iu7-54b/main.c: after \<^verbatim>\<open>fork\<close> both processes print their numbers without an end. What they print
  has no new line, so that the library keeps it in the buffer of the process and hands it to the kernel in whole
  blocks; the two share the terminal.
\<close>

subsection \<open>The program\<close>

text \<open>
  \<^verbatim>\<open>printf\<close> to a stream with a buffer of \<open>B\<close> bytes: the blocks that are written and what stays in the buffer;
  a full buffer is written when there is more to come.
  The answer of \<^verbatim>\<open>getpid\<close> comes as its text: \<open>num False\<close> is the parent's, \<open>num True\<close> the child's.
\<close>

definition put_text :: "nat \<Rightarrow> string \<Rightarrow> string \<Rightarrow> string \<times> string" where
  "put_text B buf t = (let x = buf @ t; n = (length x - 1) div B * B in (take n x, drop n x))"

definition pid_text :: "(bool \<Rightarrow> string) \<Rightarrow> bool \<Rightarrow> string" where
  "pid_text num w = '' '' @ num w"

text \<open>The answer of \<^verbatim>\<open>fork\<close> is \<^term>\<open>None\<close> before the call.\<close>

record tp_sys =
  tp_fork :: "bool option"
  tp_buf :: "bool \<Rightarrow> string"
  tp_count :: "bool \<Rightarrow> nat"
  tp_out :: "(bool \<times> string) list"
  tp_errors :: "string list"

datatype tp_event = TpFork bool | TpPrint bool

fun tp_exec :: "nat \<Rightarrow> (bool \<Rightarrow> string) \<Rightarrow> tp_sys \<Rightarrow> tp_event \<Rightarrow> tp_sys option" where
  "tp_exec B num s (TpFork ok) =
     (if tp_fork s = None
      then Some (s\<lparr>tp_fork := Some ok, tp_errors := tp_errors s @ (if ok then [] else [''Can't fork''])\<rparr>)
      else None)"
| "tp_exec B num s (TpPrint w) =
     (if tp_fork s = Some True then
        let (out, buf) = put_text B (tp_buf s w) (pid_text num w) in
        Some (s\<lparr>tp_buf := (tp_buf s)(w := buf), tp_count := (tp_count s)(w := tp_count s w + 1),
          tp_out := tp_out s @ (if out = [] then [] else [(w, out)])\<rparr>)
      else None)"

definition tp_start :: tp_sys where
  "tp_start = \<lparr>tp_fork = None, tp_buf = (\<lambda>_. []), tp_count = (\<lambda>_. 0), tp_out = [], tp_errors = []\<rparr>"

text \<open>What one process has written.\<close>

definition tp_written :: "tp_sys \<Rightarrow> bool \<Rightarrow> string" where
  "tp_written s w = concat (map snd (filter (\<lambda>x. fst x = w) (tp_out s)))"

definition copies :: "nat \<Rightarrow> string \<Rightarrow> string" where
  "copies n t = concat (replicate n t)"

lemma copies_Suc: "copies (Suc n) t = copies n t @ t"
  by (simp add: copies_def replicate_append_same [symmetric])

definition tp_inv :: "nat \<Rightarrow> (bool \<Rightarrow> string) \<Rightarrow> tp_sys \<Rightarrow> bool" where
  "tp_inv B num s \<longleftrightarrow>
     (\<forall>w. tp_written s w @ tp_buf s w = copies (tp_count s w) (pid_text num w) \<and> length (tp_buf s w) \<le> B) \<and>
     (\<forall>x \<in> set (tp_out s). B dvd length (snd x)) \<and>
     (tp_fork s \<noteq> Some True \<longrightarrow> tp_out s = [])"

lemma put_text_parts:
  assumes "put_text B buf t = (out, rest)" and "0 < B"
  shows "out @ rest = buf @ t" and "length rest \<le> B" and "B dvd length out"
proof -
  define x where "x = buf @ t"
  define n where "n = (length x - 1) div B * B"
  have "n \<le> length x - 1" unfolding n_def by (rule div_times_less_eq_dividend)
  then have n: "n \<le> length x" by simp
  have more: "length x - 1 < B + n" using dividend_less_div_times [OF assms(2), of "length x - 1"] by (simp add: n_def)
  have o: "out = take n x" "rest = drop n x" using assms(1) by (simp_all add: put_text_def Let_def x_def n_def)
  show "out @ rest = buf @ t" unfolding o append_take_drop_id by (simp add: x_def)
  show "length rest \<le> B" using more unfolding o by simp
  show "B dvd length out" using n unfolding o by (simp add: min_def) (simp add: n_def)
qed

lemma tp_inv_exec:
  assumes "0 < B" and "tp_inv B num s" and "tp_exec B num s e = Some t"
  shows "tp_inv B num t"
proof (cases e)
  case (TpFork ok)
  then show ?thesis using assms(2,3) by (auto simp: tp_inv_def tp_written_def split: if_splits)
next
  case (TpPrint w)
  obtain out rest where p: "put_text B (tp_buf s w) (pid_text num w) = (out, rest)" by fastforce
  have t: "t = s\<lparr>tp_buf := (tp_buf s)(w := rest), tp_count := (tp_count s)(w := tp_count s w + 1),
      tp_out := tp_out s @ (if out = [] then [] else [(w, out)])\<rparr>" and f: "tp_fork s = Some True"
    using assms(3) TpPrint p by (simp_all split: if_splits)
  note parts = put_text_parts [OF p assms(1)]
  have w: "tp_written t v = tp_written s v @ (if v = w then out else [])" for v
    by (simp add: t tp_written_def)
  have own: "tp_written s w @ tp_buf s w = copies (tp_count s w) (pid_text num w)" using assms(2) by (simp add: tp_inv_def)
  have "tp_written t w @ tp_buf t w = tp_written s w @ out @ rest" by (simp add: w) (simp add: t)
  also have "\<dots> = copies (tp_count s w) (pid_text num w) @ pid_text num w" by (simp add: parts(1) own [symmetric])
  also have "\<dots> = copies (tp_count t w) (pid_text num w)" by (simp add: t copies_Suc)
  finally have "tp_written t v @ tp_buf t v = copies (tp_count t v) (pid_text num v) \<and> length (tp_buf t v) \<le> B" for v
    using assms(2) parts(2) by (cases "v = w") (simp_all add: w, simp_all add: t tp_inv_def)
  then show ?thesis using assms(2) parts(3) f by (auto simp: tp_inv_def) (auto simp: t split: if_splits)
qed

lemma tp_system: "0 < B \<Longrightarrow> invariant_system (tp_exec B num) tp_start (tp_inv B num)"
  by unfold_locales (simp add: tp_inv_def tp_start_def tp_written_def copies_def, rule tp_inv_exec)

lemmas tp_reach_inv = invariant_system.reach_inv [OF tp_system]

text \<open>A process that prints alone, while its text fits the buffer.\<close>

lemma copies_length: "length (copies n t) = n * length t"
  by (induction n) (simp_all add: copies_def)

lemma put_copies:
  "put_text B (copies n t) t =
     (take ((Suc n * length t - 1) div B * B) (copies (Suc n) t), drop ((Suc n * length t - 1) div B * B) (copies (Suc n) t))"
  by (simp only: put_text_def Let_def copies_Suc [symmetric] copies_length)

lemma tp_prints:
  "tp_fork s = Some True \<Longrightarrow> tp_buf s w = [] \<Longrightarrow> n * length (pid_text num w) \<le> B \<Longrightarrow> 0 < B \<Longrightarrow>
     run (tp_exec B num) s (replicate n (TpPrint w)) =
       Some (s\<lparr>tp_buf := (tp_buf s)(w := copies n (pid_text num w)), tp_count := (tp_count s)(w := tp_count s w + n)\<rparr>)"
proof (induction n)
  case 0
  then have "(tp_buf s)(w := []) = tp_buf s" by auto
  then show ?case by (simp add: copies_def)
next
  case (Suc n)
  have r: "replicate (Suc n) (TpPrint w) = replicate n (TpPrint w) @ [TpPrint w]" by (simp add: replicate_append_same)
  have "(Suc n * length (pid_text num w) - 1) div B = 0" using Suc.prems(3,4) by auto
  then have "put_text B (copies n (pid_text num w)) (pid_text num w) = ([], copies (Suc n) (pid_text num w))"
    by (simp only: put_copies) simp
  then show ?case unfolding r run_append using Suc by (simp add: fun_upd_def cong: if_cong)
qed

text \<open>The print after it writes the buffer, which may end within a number.\<close>

lemma tp_fills:
  assumes f: "tp_fork s = Some True" and b: "tp_buf s w = []" and L: "length (pid_text num w) \<le> B"
  defines "n \<equiv> B div length (pid_text num w)"
  shows "\<exists>t. run (tp_exec B num) s (replicate n (TpPrint w) @ [TpPrint w]) = Some t \<and> tp_fork t = Some True \<and>
    (\<forall>v. v \<noteq> w \<longrightarrow> tp_buf t v = tp_buf s v) \<and> tp_out t = tp_out s @ [(w, take B (copies (Suc n) (pid_text num w)))]"
proof -
  let ?L = "length (pid_text num w)"
  have L0: "0 < ?L" by (simp add: pid_text_def)
  have le: "n * ?L \<le> B" by (simp add: n_def)
  have gt: "B < Suc n * ?L" using dividend_less_div_times [OF L0, of B] by (simp add: n_def)
  have "(Suc n * ?L - 1) div B = 1" using le gt L L0 by (intro div_nat_eqI) simp_all
  then have "put_text B (copies n (pid_text num w)) (pid_text num w) =
      (take B (copies (Suc n) (pid_text num w)), drop B (copies (Suc n) (pid_text num w)))"
    by (simp only: put_copies) simp
  moreover have B: "0 < B" using L0 L by linarith
  moreover have "length (take B (copies (Suc n) (pid_text num w))) = B" using gt by (simp only: length_take copies_length)
  then have "take B (copies (Suc n) (pid_text num w)) \<noteq> []" using B by auto
  ultimately show ?thesis
    unfolding run_append using tp_prints [OF f b le B] f by simp
qed


subsection \<open>Properties\<close>

text \<open>What each process has written, with what waits in its buffer, is its number repeated as often as it has printed
  it, without loss and in order, in whole blocks of the buffer's size and with less than a block waiting; after a
  successful fork both can always go on, and after a failed one nothing is ever printed.\<close>

theorem tp_streams:
  assumes "reach (tp_exec B num) tp_start s" and "0 < B"
  shows "tp_written s w @ tp_buf s w = copies (tp_count s w) (pid_text num w) \<and> length (tp_buf s w) \<le> B \<and>
    (\<forall>x \<in> set (tp_out s). B dvd length (snd x)) \<and>
    (if tp_fork s = Some True then \<exists>t. tp_exec B num s (TpPrint w) = Some t
     else tp_out s = [] \<and> tp_exec B num s (TpPrint w) = None)"
  using tp_reach_inv [OF assms(2,1)] by (auto simp: tp_inv_def split: prod.splits)

theorem tp_streams_witness:
  "\<exists>s. run (tp_exec 4 (\<lambda>w. if w then ''12'' else ''7'')) tp_start
      [TpFork True, TpPrint True, TpPrint False, TpPrint True, TpPrint False, TpPrint False] = Some s \<and>
    tp_out s = [(True, '' 12 ''), (False, '' 7 7'')] \<and> tp_written s True @ tp_buf s True = '' 12 12''"
proof -
  let ?exec = "tp_exec 4 (\<lambda>w. if w then ''12'' else ''7'')"
  obtain s where r: "run ?exec tp_start
      [TpFork True, TpPrint True, TpPrint False, TpPrint True, TpPrint False, TpPrint False] = Some s"
    and o: "tp_out s = [(True, '' 12 ''), (False, '' 7 7'')]" and c: "tp_count s True = 2"
    by (simp add: tp_start_def put_text_def pid_text_def)
  show ?thesis
    using tp_streams [OF run_reach_init [OF r], of True] r o c
    by (simp add: copies_def pid_text_def numeral_2_eq_2)
qed

text \<open>The numbers on the terminal can be torn: when the text of the parent's number does not divide the buffer, the
  parent's first block ends within its number and the child's text goes on there.\<close>

theorem tp_torn:
  assumes "length (pid_text num False) \<le> B" and "length (pid_text num True) \<le> B"
    and "\<not> length (pid_text num False) dvd B"
  shows "\<exists>es s x y. run (tp_exec B num) tp_start es = Some s \<and> tp_out s = [(False, x), (True, y)] \<and>
    (\<forall>k. x \<noteq> copies k (pid_text num False)) \<and> take (length (pid_text num True)) y = pid_text num True"
proof -
  let ?n = "\<lambda>w. B div length (pid_text num w)"
  let ?x = "\<lambda>w. take B (copies (Suc (?n w)) (pid_text num w))"
  define s1 where "s1 = tp_start\<lparr>tp_fork := Some True\<rparr>"
  have s1: "tp_fork s1 = Some True" "tp_buf s1 w = []" "tp_out s1 = []" for w by (simp_all add: s1_def tp_start_def)
  obtain s2 where s2: "run (tp_exec B num) s1 (replicate (?n False) (TpPrint False) @ [TpPrint False]) = Some s2"
      "tp_fork s2 = Some True" "tp_buf s2 True = []" "tp_out s2 = [(False, ?x False)]"
    using tp_fills [OF s1(1,2) assms(1)] s1(2,3) by (metis append_Nil)
  obtain s3 where s3: "run (tp_exec B num) s2 (replicate (?n True) (TpPrint True) @ [TpPrint True]) = Some s3"
      "tp_out s3 = [(False, ?x False), (True, ?x True)]"
    using tp_fills [OF s2(2,3) assms(2)] s2(4) by (metis append_Cons append_Nil)
  have run: "run (tp_exec B num) tp_start (TpFork True # (replicate (?n False) (TpPrint False) @ [TpPrint False]) @
      (replicate (?n True) (TpPrint True) @ [TpPrint True])) = Some s3"
    by (rule run_one [OF _ run_chain [OF s2(1) s3(1)]]) (simp add: s1_def tp_start_def)
  have B: "B < length (copies (Suc (?n False)) (pid_text num False))"
    using dividend_less_div_times [of "length (pid_text num False)" B] by (simp add: copies_length pid_text_def)
  have "?x False \<noteq> copies k (pid_text num False)" for k
  proof
    assume "?x False = copies k (pid_text num False)"
    then have "length (?x False) = k * length (pid_text num False)" by (simp only: copies_length)
    then have "B = k * length (pid_text num False)" using B by simp
    then show False using assms(3) by simp
  qed
  moreover have "take (length (pid_text num True)) (?x True) = pid_text num True"
    using assms(2) by (simp add: copies_def min_def)
  ultimately show ?thesis using run s3(2) by blast
qed

text \<open>A terminal's buffer of 1024 bytes, and two processes with numbers of four digits.\<close>

theorem tp_torn_witness:
  "\<exists>es s x y. run (tp_exec 1024 (\<lambda>w. if w then ''4568'' else ''4567'')) tp_start es = Some s \<and>
    tp_out s = [(False, x), (True, y)] \<and> (\<forall>k. x \<noteq> copies k '' 4567'') \<and> take 5 y = '' 4568''"
proof -
  let ?num = "\<lambda>w. if w then ''4568'' else ''4567''"
  have t: "pid_text ?num False = '' 4567''" "pid_text ?num True = '' 4568''" by (simp_all add: pid_text_def)
  have l: "length '' 4567'' = 5" "length '' 4568'' = 5" by simp_all
  have "(5 :: nat) \<le> 1024" "\<not> (5 :: nat) dvd 1024" by simp_all
  then show ?thesis using tp_torn [of ?num 1024] unfolding t l by blast
qed

end
