(* ===== verification/Vfs_Mount.thy ===== *)
theory Vfs_Mount
  imports Vfs
begin

section \<open>Mounting the file system\<close>

text \<open>
  The rest of lab-vfs/src/main.c: \<^verbatim>\<open>myvfs_mount\<close>, the super operations and \<^verbatim>\<open>myvfs_kill_super\<close>, as the kernel calls
  them between the loading and the unloading of the module. What the module relies on is written out: \<^verbatim>\<open>mount_nodev\<close>
  gets a super block, fills it, and gives it up through \<^verbatim>\<open>kill_sb\<close> when that fails; \<^verbatim>\<open>kill_anon_super\<close> lets go of the
  root, whose inode goes through \<^verbatim>\<open>drop_inode\<close>, and then calls \<^verbatim>\<open>put_super\<close>; \<^verbatim>\<open>d_make_root\<close> that fails drops its
  inode the same way; a file system in use keeps its module (\<^verbatim>\<open>.owner\<close>).
\<close>

subsection \<open>Operations\<close>

text \<open>The lines that the operations print to the kernel log.\<close>

datatype vm_line = Call_fill_super | Err_new_inode | Err_d_make_root | Mounted | Mounting_failed | Call_kill_super
  | Put_super | Call_delete_inode | Call_statfs

record vfs_super =
  vs_block :: super_block
  vs_inode :: root_inode

record kstatfs =
  f_type :: nat
  f_bsize :: nat
  f_namelen :: nat

record vm_sys =
  vm_loaded :: bool
  vm_supers :: "(nat \<times> vfs_super) list"
  vm_next :: nat
  vm_log :: "vm_line list"
  vm_dropped :: "int list"
  vm_broken :: bool

definition vm_print :: "vm_line \<Rightarrow> vm_sys \<Rightarrow> vm_sys" where
  "vm_print x s = s\<lparr>vm_log := vm_log s @ [x]\<rparr>"

text \<open>The super operations: each prints its line; \<^verbatim>\<open>generic_delete_inode\<close> answers 1, for an inode nobody keeps.\<close>

definition myvfs_put_super :: "vm_sys \<Rightarrow> vm_sys" where
  "myvfs_put_super s = vm_print Put_super s"

definition myvfs_statfs :: "vfs_super \<Rightarrow> vm_sys \<Rightarrow> vm_sys \<times> kstatfs" where
  "myvfs_statfs sb s =
     (vm_print Call_statfs s, \<lparr>f_type = s_magic (vs_block sb), f_bsize = PAGE_SIZE, f_namelen = 255\<rparr>)"

definition myvfs_delete_inode :: "vm_sys \<Rightarrow> vm_sys \<times> int" where
  "myvfs_delete_inode s = (vm_print Call_delete_inode s, 1)"

record super_operations =
  so_put_super :: "vm_sys \<Rightarrow> vm_sys"
  so_statfs :: "vfs_super \<Rightarrow> vm_sys \<Rightarrow> vm_sys \<times> kstatfs"
  so_drop_inode :: "vm_sys \<Rightarrow> vm_sys \<times> int"

definition myvfs_super_operations :: super_operations where
  "myvfs_super_operations =
     \<lparr>so_put_super = myvfs_put_super, so_statfs = myvfs_statfs, so_drop_inode = myvfs_delete_inode\<rparr>"

text \<open>
  \<^verbatim>\<open>myvfs_kill_super\<close>: a super block with a root gives it up; the references that its inode had are recorded when
  the last one goes and the operation says so.
\<close>

definition kill_anon_super :: "super_operations \<Rightarrow> root_inode option \<Rightarrow> vm_sys \<Rightarrow> vm_sys" where
  "kill_anon_super ops rt s = (case rt of
      None \<Rightarrow> s
    | Some i \<Rightarrow>
        (let (s', answer) = so_drop_inode ops s in
         so_put_super ops (if answer = 1 then s'\<lparr>vm_dropped := vm_dropped s' @ [i_refs i]\<rparr> else s')))"

definition myvfs_kill_super :: "root_inode option \<Rightarrow> vm_sys \<Rightarrow> vm_sys" where
  "myvfs_kill_super rt s = kill_anon_super myvfs_super_operations rt (vm_print Call_kill_super s)"

definition empty_super :: super_block where
  "empty_super = \<lparr>s_blocksize = 0, s_blocksize_bits = 0, s_magic = 0, s_time_gran = 0, s_root = False\<rparr>"

text \<open>
  \<^verbatim>\<open>myvfs_mount\<close> with the answers of the calls in \<^verbatim>\<open>mount_nodev\<close> and \<^verbatim>\<open>myvfs_fill_super\<close>. When the root cannot be
  made, \<^verbatim>\<open>d_make_root\<close> has dropped the last reference, so that \<^verbatim>\<open>drop_inode\<close> has been called and the inode is gone;
  the \<^verbatim>\<open>iput\<close> that follows is recorded with the references it leaves. What the kernel does with it is undefined, and the
  run ends there (\<open>vm_broken\<close>).
\<close>

definition myvfs_mount :: "bool \<Rightarrow> bool \<Rightarrow> bool \<Rightarrow> vm_sys \<Rightarrow> vm_sys \<times> bool" where
  "myvfs_mount sget_ok inode_ok root_ok s =
     (if \<not> sget_ok then (vm_print Mounting_failed s, False)
      else
        let s1 = vm_print Call_fill_super s in
        case myvfs_fill_super inode_ok root_ok empty_super of
          (None, sb, Some i) \<Rightarrow>
            (vm_print Mounted (s1\<lparr>vm_supers := vm_supers s1 @ [(vm_next s1, \<lparr>vs_block = sb, vs_inode = i\<rparr>)],
               vm_next := vm_next s1 + 1\<rparr>), True)
        | (_, sb, None) \<Rightarrow> (vm_print Mounting_failed (myvfs_kill_super None (vm_print Err_new_inode s1)), False)
        | (_, sb, Some i) \<Rightarrow>
            let s2 = vm_print Err_d_make_root (fst (so_drop_inode myvfs_super_operations s1))
            in (s2\<lparr>vm_dropped := vm_dropped s2 @ [i_refs i], vm_broken := True\<rparr>, False))"

datatype vm_event = VmMount bool bool bool | VmStatfs nat | VmUmount nat | VmUnload

fun vm_call :: "vm_sys \<Rightarrow> vm_event \<Rightarrow> vm_sys option" where
  "vm_call s (VmMount a b c) = (if vm_loaded s then Some (fst (myvfs_mount a b c s)) else None)"
| "vm_call s (VmStatfs k) =
     (case map_of (vm_supers s) k of None \<Rightarrow> None | Some sb \<Rightarrow> Some (fst (so_statfs myvfs_super_operations sb s)))"
| "vm_call s (VmUmount k) =
     (case map_of (vm_supers s) k of
        None \<Rightarrow> None
      | Some sb \<Rightarrow>
          Some (myvfs_kill_super (Some (vs_inode sb)) (s\<lparr>vm_supers := filter (\<lambda>x. fst x \<noteq> k) (vm_supers s)\<rparr>)))"
| "vm_call s VmUnload = (if vm_loaded s \<and> vm_supers s = [] then Some (s\<lparr>vm_loaded := False\<rparr>) else None)"

definition vm_exec :: "vm_sys \<Rightarrow> vm_event \<Rightarrow> vm_sys option" where
  "vm_exec s e = (if vm_broken s then None else vm_call s e)"

definition vm_start :: vm_sys where
  "vm_start = \<lparr>vm_loaded = True, vm_supers = [], vm_next = 0, vm_log = [], vm_dropped = [], vm_broken = False\<rparr>"


text \<open>main\_comm.c has the same operations.\<close>

definition comm_put_super :: "vm_sys \<Rightarrow> vm_sys" where
  "comm_put_super s = vm_print Put_super s"

definition comm_statfs :: "vfs_super \<Rightarrow> vm_sys \<Rightarrow> vm_sys \<times> kstatfs" where
  "comm_statfs sb s = (vm_print Call_statfs s, \<lparr>f_type = s_magic (vs_block sb), f_bsize = PAGE_SIZE, f_namelen = 255\<rparr>)"

definition comm_delete_inode :: "vm_sys \<Rightarrow> vm_sys \<times> int" where
  "comm_delete_inode s = (vm_print Call_delete_inode s, 1)"

definition comm_super_operations :: super_operations where
  "comm_super_operations = \<lparr>so_put_super = comm_put_super, so_statfs = comm_statfs, so_drop_inode = comm_delete_inode\<rparr>"

definition comm_kill_super :: "root_inode option \<Rightarrow> vm_sys \<Rightarrow> vm_sys" where
  "comm_kill_super rt s = kill_anon_super comm_super_operations rt (vm_print Call_kill_super s)"

definition comm_mount :: "bool \<Rightarrow> bool \<Rightarrow> bool \<Rightarrow> vm_sys \<Rightarrow> vm_sys \<times> bool" where
  "comm_mount sget_ok inode_ok root_ok s =
     (if \<not> sget_ok then (vm_print Mounting_failed s, False)
      else
        let s1 = vm_print Call_fill_super s in
        case comm_fill_super inode_ok root_ok empty_super of
          (None, sb, Some i) \<Rightarrow>
            (vm_print Mounted (s1\<lparr>vm_supers := vm_supers s1 @ [(vm_next s1, \<lparr>vs_block = sb, vs_inode = i\<rparr>)],
               vm_next := vm_next s1 + 1\<rparr>), True)
        | (_, sb, None) \<Rightarrow> (vm_print Mounting_failed (comm_kill_super None (vm_print Err_new_inode s1)), False)
        | (_, sb, Some i) \<Rightarrow>
            let s2 = vm_print Err_d_make_root (fst (so_drop_inode comm_super_operations s1))
            in (s2\<lparr>vm_dropped := vm_dropped s2 @ [i_refs i], vm_broken := True\<rparr>, False))"

lemma comm_same: "comm_super_operations = myvfs_super_operations" "comm_mount = myvfs_mount" "comm_kill_super = myvfs_kill_super"
proof -
  show ops: "comm_super_operations = myvfs_super_operations"
    by (simp add: comm_super_operations_def myvfs_super_operations_def comm_put_super_def myvfs_put_super_def comm_statfs_def
        myvfs_statfs_def comm_delete_inode_def myvfs_delete_inode_def fun_eq_iff)
  show kill: "comm_kill_super = myvfs_kill_super" by (simp add: fun_eq_iff comm_kill_super_def myvfs_kill_super_def ops)
  show "comm_mount = myvfs_mount"
    by (intro ext) (simp only: comm_mount_def myvfs_mount_def comm_fill_super_def kill ops)
qed


subsection \<open>Objects\<close>

text \<open>\<^verbatim>\<open>f_init\<close>, the constructor of the cache: the low half of the address of an object goes into its first field.\<close>

record myvfs_inode =
  mi_mode :: "32 word"
  mi_ino :: "64 word"

definition f_init :: "64 word \<Rightarrow> myvfs_inode \<Rightarrow> myvfs_inode" where
  "f_init p obj = obj\<lparr>mi_mode := ucast p\<rparr>"

lemma f_init_mark: "mi_mode (f_init p x) = mi_mode (f_init q y) \<longleftrightarrow> unat p mod 2 ^ 32 = unat q mod 2 ^ 32"
  by (simp add: f_init_def word_unat_eq_iff unsigned_ucast_eq take_bit_eq_mod)


subsection \<open>Lemmas\<close>

definition super_ok :: "vfs_super \<Rightarrow> bool" where
  "super_ok sb \<longleftrightarrow> s_root (vs_block sb) \<and> s_magic (vs_block sb) = MAGIC_NUMBER \<and>
     s_blocksize (vs_block sb) = 2 ^ s_blocksize_bits (vs_block sb) \<and> i_refs (vs_inode sb) = 1 \<and> i_nlink (vs_inode sb) = 2"

definition logged :: "vm_sys \<Rightarrow> vm_line \<Rightarrow> nat" where
  "logged s x = count_list (vm_log s) x"

definition vm_inv :: "vm_sys \<Rightarrow> bool" where
  "vm_inv s \<longleftrightarrow> (\<forall>x \<in> set (vm_supers s). super_ok (snd x) \<and> fst x < vm_next s) \<and> distinct (map fst (vm_supers s)) \<and>
     (vm_supers s \<noteq> [] \<longrightarrow> vm_loaded s) \<and>
     logged s Mounted = length (vm_supers s) + logged s Put_super \<and>
     logged s Call_delete_inode = logged s Put_super + logged s Err_d_make_root \<and>
     logged s Call_fill_super = length (vm_supers s) + logged s Call_kill_super + logged s Err_d_make_root \<and>
     logged s Err_d_make_root = (if vm_broken s then 1 else 0) \<and>
     count_list (vm_dropped s) 1 = logged s Put_super \<and>
     count_list (vm_dropped s) (- 1) = logged s Err_d_make_root \<and> set (vm_dropped s) \<subseteq> {1, - 1}"

lemma count_list_app [simp]: "count_list (xs @ ys) x = count_list xs x + count_list ys x"
  by (induction xs) auto

lemmas vm_defs = vm_print_def myvfs_put_super_def myvfs_statfs_def myvfs_delete_inode_def myvfs_super_operations_def
  kill_anon_super_def myvfs_kill_super_def

lemma fill_cases:
  "myvfs_fill_super inode_ok root_ok empty_super =
     (let sb = \<lparr>s_blocksize = PAGE_SIZE, s_blocksize_bits = PAGE_SHIFT, s_magic = MAGIC_NUMBER, s_time_gran = 1, s_root = False\<rparr>;
          i = \<lparr>i_ino = 1, i_mode = S_IFDIR + 493, i_nlink = 2, i_refs = 1\<rparr>
      in if \<not> inode_ok then (Some K_ENOMEM, sb, None)
         else if root_ok then (None, sb\<lparr>s_root := True\<rparr>, Some i)
         else (Some K_ENOMEM, sb, Some (i\<lparr>i_refs := - 1\<rparr>)))"
  by (simp add: myvfs_fill_super_def empty_super_def Let_def)

lemma length_filter_key:
  "distinct (map fst xs) \<Longrightarrow> (k, v) \<in> set xs \<Longrightarrow> length xs = Suc (length (filter (\<lambda>x. fst x \<noteq> k) xs))"
proof (induction xs)
  case (Cons x xs)
  show ?case
  proof (cases "fst x = k")
    case True
    then have "\<forall>y \<in> set xs. fst y \<noteq> k" using Cons.prems(1) by (auto simp: image_iff)
    then show ?thesis using True by (simp add: filter_id_conv)
  next
    case False
    then show ?thesis using Cons by auto
  qed
qed simp

lemma vm_inv_exec:
  assumes inv: "vm_inv s" and ex: "vm_exec s e = Some t"
  shows "vm_inv t"
proof -
  have step: "vm_call s e = Some t" and nb: "\<not> vm_broken s" using ex by (auto simp: vm_exec_def split: if_splits)
  show ?thesis
  proof (cases e)
    case (VmMount a b c)
    then have "vm_loaded s" and t: "t = fst (myvfs_mount a b c s)" using step by (auto split: if_splits)
    then show ?thesis
      using inv nb unfolding t
      by (cases a; cases b; cases c)
        (auto simp: vm_inv_def myvfs_mount_def fill_cases vm_defs logged_def super_ok_def PAGE_SIZE_def PAGE_SHIFT_def Let_def)
  next
    case (VmStatfs k)
    then have "t = vm_print Call_statfs s" using step by (auto simp: vm_defs split: option.splits)
    then show ?thesis using inv nb by (simp add: vm_inv_def vm_print_def logged_def)
  next
    case (VmUmount k)
    then obtain sb where k: "map_of (vm_supers s) k = Some sb"
      and t: "t = myvfs_kill_super (Some (vs_inode sb)) (s\<lparr>vm_supers := filter (\<lambda>x. fst x \<noteq> k) (vm_supers s)\<rparr>)"
      using step by (auto split: option.splits)
    have "(k, sb) \<in> set (vm_supers s)" using k by (rule map_of_SomeD)
    moreover have d: "distinct (map fst (vm_supers s))" using inv by (simp add: vm_inv_def)
    ultimately have "length (vm_supers s) = Suc (length (filter (\<lambda>x. fst x \<noteq> k) (vm_supers s)))" "i_refs (vs_inode sb) = 1"
      using inv length_filter_key [OF d] by (auto simp: vm_inv_def super_ok_def)
    moreover have "vm_supers s \<noteq> []" using k by auto
    ultimately show ?thesis
      using inv nb distinct_map_filter [OF d, of "\<lambda>x. fst x \<noteq> k"] unfolding t by (auto simp: vm_inv_def vm_defs logged_def)
  next
    case VmUnload
    then show ?thesis using inv nb step by (auto simp: vm_inv_def logged_def split: if_splits)
  qed
qed

interpretation vm: invariant_system vm_exec vm_start vm_inv
  by unfold_locales (simp add: vm_inv_def vm_start_def logged_def, rule vm_inv_exec)


subsection \<open>Properties\<close>

text \<open>C28: In every order of mounts, failures, queries and unmounts, each super block in use has a root, the magic number
  and an inode with one reference and two links; every mount that succeeded has been undone by exactly one
  \<^verbatim>\<open>put_super\<close> or is still there; \<^verbatim>\<open>drop_inode\<close> has been called once for each \<^verbatim>\<open>put_super\<close> and once for a root that
  could not be made; every super block that was filled is in use, was killed, or is the one of that root, whose inode
  is dropped again after it has gone and which ends the run.\<close>

theorem vm_balance:
  assumes "reach vm_exec vm_start s"
  shows "(\<forall>x \<in> set (vm_supers s). super_ok (snd x)) \<and>
    logged s Mounted = length (vm_supers s) + logged s Put_super \<and>
    logged s Call_delete_inode = logged s Put_super + logged s Err_d_make_root \<and>
    logged s Call_fill_super = length (vm_supers s) + logged s Call_kill_super + logged s Err_d_make_root \<and>
    logged s Err_d_make_root = (if vm_broken s then 1 else 0)"
  using vm.reach_inv [OF assms] by (auto simp: vm_inv_def)

text \<open>Two mounts, one of them undone, one that fails, and a root that cannot be made.\<close>

theorem vm_balance_witness:
  "\<exists>s. run vm_exec vm_start [VmMount True True True, VmMount True False True, VmMount True True True, VmStatfs 1,
      VmUmount 0, VmMount True True False] = Some s \<and>
    map fst (vm_supers s) = [1] \<and> logged s Mounted = length (vm_supers s) + logged s Put_super \<and>
    logged s Call_delete_inode = logged s Put_super + 1"
proof -
  let ?es = "[VmMount True True True, VmMount True False True, VmMount True True True, VmStatfs 1, VmUmount 0,
     VmMount True True False]"
  obtain s where r: "run vm_exec vm_start ?es = Some s" and m: "map fst (vm_supers s) = [1]" and b: "vm_broken s"
    by (simp add: vm_start_def vm_exec_def myvfs_mount_def fill_cases vm_defs Let_def)
  note bal = vm_balance [OF run_reach_init [OF r]]
  then have "logged s Mounted = length (vm_supers s) + logged s Put_super"
    "logged s Call_delete_inode = logged s Put_super + 1" using b by simp_all
  then show ?thesis using r m by (intro exI [of _ s] conjI)
qed

text \<open>An inode is given up with one reference in every unmount, and with a reference too few in the mount whose
  root could not be made: the line \<^verbatim>\<open>ERR: d_make_root\<close> in the log is one inode dropped twice.\<close>

theorem vm_dropped_twice:
  assumes "reach vm_exec vm_start s"
  shows "set (vm_dropped s) \<subseteq> {1, - 1} \<and> count_list (vm_dropped s) 1 = logged s Put_super \<and>
    count_list (vm_dropped s) (- 1) = logged s Err_d_make_root"
  using vm.reach_inv [OF assms] by (simp add: vm_inv_def)

theorem vm_dropped_twice_witness:
  "\<exists>s. run vm_exec vm_start [VmMount True True False] = Some s \<and> logged s Err_d_make_root = 1 \<and>
    count_list (vm_dropped s) (- 1) = 1"
proof -
  obtain s where r: "run vm_exec vm_start [VmMount True True False] = Some s" and m: "logged s Err_d_make_root = 1"
    by (simp add: vm_start_def vm_exec_def myvfs_mount_def fill_cases vm_defs logged_def Let_def)
  show ?thesis using vm_dropped_twice [OF run_reach_init [OF r]] r m by simp
qed

end
