(* ===== verification/Server_Shutdown.thy ===== *)
theory Server_Shutdown
  imports Tool_Pagemap
begin

section \<open>How the letter servers stop\<close>

text \<open>
  \<^verbatim>\<open>main\<close> of lab-socket/task-04/server.c (a process for each client) and task-05/server.c (a thread) from the loop
  of \<^verbatim>\<open>accept\<close> on: the signal handler, the end of the loop, and the removal of the shared memory and the semaphores
  while clients may still be served. \<^verbatim>\<open>cleanup_port\<close> writes a command for the shell.
\<close>

subsection \<open>The command that frees the port\<close>

definition cleanup_port :: "int \<Rightarrow> string" where
  "cleanup_port port = take (256 - 1) (''lsof -ti :'' @ dec_int port @ '' | xargs kill -9'')"

definition cleanup_port_threads :: "int \<Rightarrow> string" where
  "cleanup_port_threads port = take (256 - 1) (''lsof -ti :'' @ dec_int port @ '' | xargs kill -9'')"

lemma dec_int_length: "is_c_int i \<Longrightarrow> length (dec_int i) \<le> 11"
proof -
  assume i: "is_c_int i"
  then have "nat i < 10 ^ Suc 9" "nat (- i) < 10 ^ Suc 9" by (auto simp: is_c_int_def INT_MAX_def INT_MIN_def)
  from this [THEN dec_length] show ?thesis by (simp add: dec_int_def)
qed

lemma cleanup_port_fits:
  "is_c_int port \<Longrightarrow> cleanup_port port = ''lsof -ti :'' @ dec_int port @ '' | xargs kill -9'' \<and> cleanup_port_threads port = cleanup_port port"
  using dec_int_length [of port] by (simp add: cleanup_port_def cleanup_port_threads_def)


subsection \<open>State\<close>

text \<open>
  \<^verbatim>\<open>main\<close> after the loop: \<^verbatim>\<open>shmdt\<close>, the two removals and \<^verbatim>\<open>exit\<close>; \<open>SdFailed\<close> is \<^verbatim>\<open>exit(EXIT_FAILURE)\<close> out of the loop
  of task-04. A handler has been started, waits for the semaphores, is inside with the buffer, has answered, or has
  ended. \<open>sd_attached\<close> says whether the buffer is attached in the process of \<^verbatim>\<open>main\<close>, \<open>sd_own\<close> in that of a child.
\<close>

datatype sd_main = SdLoop | SdBroken | SdDetached | SdShmGone | SdSemGone | SdExit | SdFailed

datatype sd_worker = SdNone | SdStarted | SdWaiting | SdInside | SdAnswered | SdEnded

record sd_sys =
  sd_main :: sd_main
  loop_flag :: bool
  sd_listening :: bool
  sd_attached :: bool
  sd_shm :: bool
  sd_sem :: bool
  sd_worker :: "nat \<Rightarrow> sd_worker"
  sd_own :: "nat \<Rightarrow> bool"
  sd_detached_use :: "nat list"
  sd_unanswered :: "nat list"

definition sd_start :: sd_sys where
  "sd_start = \<lparr>sd_main = SdLoop, loop_flag = True, sd_listening = True, sd_attached = True, sd_shm = True, sd_sem = True,
     sd_worker = (\<lambda>_. SdNone), sd_own = (\<lambda>_. False), sd_detached_use = [], sd_unanswered = []\<rparr>"

definition sd_goto :: "nat \<Rightarrow> sd_worker \<Rightarrow> sd_sys \<Rightarrow> sd_sys" where
  "sd_goto i p s = s\<lparr>sd_worker := (sd_worker s)(i := p)\<rparr>"

definition sd_lose :: "nat \<Rightarrow> sd_sys \<Rightarrow> sd_sys" where
  "sd_lose i s = (sd_goto i SdEnded s)\<lparr>sd_unanswered := sd_unanswered s @ [i]\<rparr>"

text \<open>The handler of the signal: \<^verbatim>\<open>sig_handler\<close> in task-04, \<^verbatim>\<open>handler\<close> in task-05.\<close>

definition sig_handler :: "sd_sys \<Rightarrow> sd_sys" where
  "sig_handler s = s\<lparr>loop_flag := False, sd_listening := False\<rparr>"

definition handler :: "sd_sys \<Rightarrow> sd_sys" where
  "handler s = s\<lparr>loop_flag := False, sd_listening := False\<rparr>"


subsection \<open>Steps\<close>

text \<open>
  \<^verbatim>\<open>main\<close>: the loop ends when the flag is down or \<^verbatim>\<open>accept\<close> fails, on the closed socket or, \<open>SdAcceptFails\<close> below, for
  another reason. \<^verbatim>\<open>exit\<close> closes the socket and takes the threads of the process with it; it leaves the children alone.
\<close>

fun sd_main_step :: "bool \<Rightarrow> sd_sys \<Rightarrow> sd_sys option" where
  "sd_main_step threads s =
     (case sd_main s of
        SdLoop \<Rightarrow> if loop_flag s \<and> sd_listening s then None else Some (s\<lparr>sd_main := SdBroken\<rparr>)
      | SdBroken \<Rightarrow> Some (s\<lparr>sd_main := SdDetached, sd_attached := False\<rparr>)
      | SdDetached \<Rightarrow> Some (s\<lparr>sd_main := SdShmGone, sd_shm := False\<rparr>)
      | SdShmGone \<Rightarrow> Some (s\<lparr>sd_main := SdSemGone, sd_sem := False\<rparr>)
      | SdSemGone \<Rightarrow>
          Some (s\<lparr>sd_main := SdExit, sd_listening := False,
            sd_worker := (if threads then (\<lambda>i. if sd_worker s i = SdNone then SdNone else SdEnded) else sd_worker s)\<rparr>)
      | _ \<Rightarrow> None)"

text \<open>
  A handler. \<open>ok\<close> says that the call it makes succeeds: \<^verbatim>\<open>recv\<close>, a \<^verbatim>\<open>semop\<close> that need not wait, \<^verbatim>\<open>send\<close>. With the
  semaphores removed \<^verbatim>\<open>semop\<close> fails. Threads use the buffer as \<^verbatim>\<open>main\<close> has it attached, children as \<^verbatim>\<open>fork\<close> gave it to
  them; its use without being attached is recorded.
\<close>

fun sd_work :: "bool \<Rightarrow> sd_sys \<Rightarrow> nat \<Rightarrow> bool \<Rightarrow> sd_sys option" where
  "sd_work threads s i ok =
     (case sd_worker s i of
        SdStarted \<Rightarrow> Some (if ok then sd_goto i SdWaiting s else sd_lose i s)
      | SdWaiting \<Rightarrow> if \<not> sd_sem s then Some (sd_lose i s) else if ok then Some (sd_goto i SdInside s) else None
      | SdInside \<Rightarrow>
          let s' = (if if threads then sd_attached s else sd_own s i then s
                    else s\<lparr>sd_detached_use := sd_detached_use s @ [i]\<rparr>)
          in Some (if ok then sd_goto i SdAnswered s' else sd_lose i s')
      | SdAnswered \<Rightarrow> Some (sd_goto i SdEnded s)
      | _ \<Rightarrow> None)"

text \<open>
  Clients, the failures of the loop, the signal, and a signal that interrupts a handler in its \<^verbatim>\<open>semop\<close>: a thread runs
  the handler of the signal for the whole process, a child for its own copies, where the socket is closed already. A
  child starts with a copy of what \<^verbatim>\<open>main\<close> has attached. A connection whose \<^verbatim>\<open>setsockopt\<close> or \<^verbatim>\<open>fork\<close> fails ends the
  server of task-04; one whose thread cannot be created is given up by task-05.
\<close>

datatype sd_event = SdConnect nat | SdAcceptFails | SdConnectFails | SdSigint | SdMain | SdWork nat bool | SdInterrupt nat

fun sd_exec :: "bool \<Rightarrow> sd_sys \<Rightarrow> sd_event \<Rightarrow> sd_sys option" where
  "sd_exec threads s (SdConnect i) =
     (if sd_main s = SdLoop \<and> loop_flag s \<and> sd_listening s \<and> sd_worker s i = SdNone
      then Some (sd_goto i SdStarted (if threads then s else s\<lparr>sd_own := (sd_own s)(i := sd_attached s)\<rparr>)) else None)"
| "sd_exec threads s SdAcceptFails =
     (if sd_main s = SdLoop \<and> loop_flag s then Some (s\<lparr>sd_main := SdBroken\<rparr>) else None)"
| "sd_exec threads s SdConnectFails =
     (if sd_main s = SdLoop \<and> loop_flag s \<and> sd_listening s
      then Some (if threads then s else s\<lparr>sd_main := SdFailed, sd_listening := False, sd_attached := False\<rparr>) else None)"
| "sd_exec threads s SdSigint =
     (if sd_main s \<in> {SdExit, SdFailed} then None else Some (if threads then handler s else sig_handler s))"
| "sd_exec threads s SdMain = sd_main_step threads s"
| "sd_exec threads s (SdWork i ok) = sd_work threads s i ok"
| "sd_exec threads s (SdInterrupt i) =
     (if sd_worker s i = SdWaiting then Some (sd_lose i (if threads then handler s else s)) else None)"


subsection \<open>Invariant\<close>

definition sd_inv :: "bool \<Rightarrow> sd_sys \<Rightarrow> bool" where
  "sd_inv threads s \<longleftrightarrow>
     sd_attached s = (sd_main s \<in> {SdLoop, SdBroken}) \<and> sd_shm s = (sd_main s \<in> {SdLoop, SdBroken, SdDetached, SdFailed}) \<and>
     sd_sem s = (sd_main s \<notin> {SdSemGone, SdExit}) \<and> (sd_main s = SdFailed \<longrightarrow> \<not> threads) \<and>
     (sd_main s \<in> {SdExit, SdFailed} \<longrightarrow> \<not> sd_listening s) \<and>
     (\<not> threads \<longrightarrow> sd_detached_use s = [] \<and> (\<forall>i. sd_worker s i \<notin> {SdNone, SdEnded} \<longrightarrow> sd_own s i)) \<and>
     (threads \<and> sd_main s = SdExit \<longrightarrow> (\<forall>i. sd_worker s i \<in> {SdNone, SdEnded}))"

lemmas sd_defs = sd_goto_def sd_lose_def sig_handler_def handler_def

lemma sd_inv_goto:
  "sd_inv threads s \<Longrightarrow> (threads \<and> sd_main s = SdExit \<longrightarrow> p \<in> {SdNone, SdEnded}) \<Longrightarrow>
     (\<not> threads \<and> p \<notin> {SdNone, SdEnded} \<longrightarrow> sd_own s i) \<Longrightarrow> sd_inv threads (sd_goto i p s)"
  by (auto simp: sd_inv_def sd_goto_def)

lemma sd_inv_lose: "sd_inv threads s \<Longrightarrow> sd_inv threads (sd_lose i s)"
  by (auto simp: sd_inv_def sd_goto_def sd_lose_def)

lemma sd_inv_use: "sd_inv threads s \<Longrightarrow> threads \<Longrightarrow> sd_inv threads (s\<lparr>sd_detached_use := u\<rparr>)"
  by (simp add: sd_inv_def)

lemma sd_inv_signal: "sd_inv threads s \<Longrightarrow> sd_inv threads (sig_handler s)" "sd_inv threads s \<Longrightarrow> sd_inv threads (handler s)"
  by (auto simp: sd_inv_def sig_handler_def handler_def)

lemma sd_inv_work:
  assumes inv: "sd_inv threads s" and step: "sd_work threads s i ok = Some t"
  shows "sd_inv threads t"
proof -
  have live: "threads \<longrightarrow> sd_main s \<noteq> SdExit" and own: "\<not> threads \<longrightarrow> sd_own s i"
    if "sd_worker s i \<noteq> SdNone" "sd_worker s i \<noteq> SdEnded"
    using inv that by (auto simp: sd_inv_def)
  show ?thesis
  proof (cases "sd_worker s i")
    case SdInside
    define s' where "s' = (if if threads then sd_attached s else sd_own s i then s
      else s\<lparr>sd_detached_use := sd_detached_use s @ [i]\<rparr>)"
    have "sd_inv threads s'" using inv sd_inv_use [OF inv] own SdInside by (simp add: s'_def)
    moreover have "t = sd_goto i SdAnswered s' \<or> t = sd_lose i s'" using step SdInside by (auto simp: Let_def s'_def)
    moreover have "sd_main s' = sd_main s" "sd_own s' = sd_own s" by (simp_all add: s'_def)
    ultimately show ?thesis using live own SdInside by (auto simp: sd_inv_lose sd_inv_goto)
  next
    case SdStarted
    then have "t = (if ok then sd_goto i SdWaiting s else sd_lose i s)" using step by simp
    then show ?thesis using inv live own SdStarted by (simp add: sd_inv_lose sd_inv_goto)
  next
    case SdWaiting
    then have "t = sd_lose i s \<or> t = sd_goto i SdInside s" using step by (simp split: if_splits)
    then show ?thesis using inv live own SdWaiting by (auto simp: sd_inv_lose sd_inv_goto)
  next
    case SdAnswered
    then have "t = sd_goto i SdEnded s" using step by simp
    then show ?thesis using inv by (simp add: sd_inv_goto)
  qed (use step in simp_all)
qed

lemma sd_inv_exec:
  assumes inv: "sd_inv threads s" and step: "sd_exec threads s e = Some t"
  shows "sd_inv threads t"
proof (cases e)
  case (SdConnect i)
  define s' where "s' = (if threads then s else s\<lparr>sd_own := (sd_own s)(i := sd_attached s)\<rparr>)"
  have t: "t = sd_goto i SdStarted s'" and m: "sd_main s = SdLoop" and w: "sd_worker s i = SdNone"
    using step SdConnect by (simp_all add: s'_def split: if_splits)
  have "sd_attached s" using inv m by (simp add: sd_inv_def)
  then have "sd_inv threads s'" "\<not> threads \<longrightarrow> sd_own s' i" "sd_main s' = SdLoop" using inv m by (simp_all add: sd_inv_def s'_def)
  then show ?thesis unfolding t by (simp add: sd_inv_goto)
next
  case SdSigint
  then have "t = sig_handler s \<or> t = handler s" using step by (auto split: if_splits)
  then show ?thesis using inv sd_inv_signal by blast
next
  case SdMain
  then show ?thesis using inv step by (cases "sd_main s") (auto simp: sd_inv_def split: if_splits)
next
  case (SdWork i ok)
  then show ?thesis using sd_inv_work [OF inv] step by simp
next
  case (SdInterrupt i)
  then have "t = sd_lose i (if threads then handler s else s)" using step by (simp split: if_splits)
  then show ?thesis using sd_inv_lose [OF inv] sd_inv_lose [OF sd_inv_signal(2) [OF inv]] by (cases threads) simp_all
qed (use inv step in \<open>auto simp: sd_inv_def split: if_splits\<close>)

interpretation sdc: invariant_system "sd_exec False" sd_start "sd_inv False"
  by unfold_locales (simp add: sd_inv_def sd_start_def, rule sd_inv_exec)

interpretation sdt: invariant_system "sd_exec True" sd_start "sd_inv True"
  by unfold_locales (simp add: sd_inv_def sd_start_def, rule sd_inv_exec)

lemma sd_reach_inv: "reach (sd_exec threads) sd_start s \<Longrightarrow> sd_inv threads s"
  using sdc.reach_inv [of s] sdt.reach_inv [of s] by (cases threads) auto

text \<open>Out of the loop, or with the flag down, \<^verbatim>\<open>main\<close> goes on without waiting for anybody.\<close>

definition sd_steps_left :: "sd_main \<Rightarrow> nat" where
  "sd_steps_left p = (case p of SdLoop \<Rightarrow> 5 | SdBroken \<Rightarrow> 4 | SdDetached \<Rightarrow> 3 | SdShmGone \<Rightarrow> 2 | SdSemGone \<Rightarrow> 1 | _ \<Rightarrow> 0)"

lemma sd_main_ends:
  assumes "sd_inv threads s" and "sd_main s \<noteq> SdFailed" and "sd_main s \<noteq> SdLoop \<or> \<not> loop_flag s"
  shows "\<exists>t. run (sd_exec threads) s (replicate (sd_steps_left (sd_main s)) SdMain) = Some t \<and> sd_main t = SdExit \<and>
    \<not> sd_shm t \<and> \<not> sd_sem t \<and> \<not> sd_listening t"
  using assms by (cases "sd_main s") (simp_all add: sd_inv_def sd_steps_left_def eval_nat_numeral)


subsection \<open>Properties\<close>

text \<open>C30: In the loop nothing is removed. Once the signal has come, or \<^verbatim>\<open>accept\<close> has failed for any reason, the server
  gets to its end: \<^verbatim>\<open>main\<close> alone ends in at most five steps, none of which waits, with status 0, the socket closed and
  the shared memory and the semaphores removed. The exception is task-04 when \<^verbatim>\<open>setsockopt\<close> or \<^verbatim>\<open>fork\<close> fails for a
  connection: that exit, with a failure, leaves both behind.\<close>

theorem sd_cleans_up:
  assumes "reach (sd_exec threads) sd_start s"
  shows "if sd_main s = SdFailed then \<not> threads \<and> sd_shm s \<and> sd_sem s \<and> (\<forall>e. sd_exec threads s e \<noteq> None \<longrightarrow> (\<exists>i ok. e = SdWork i ok \<or> e = SdInterrupt i))
    else if sd_main s = SdLoop \<and> loop_flag s then sd_shm s \<and> sd_sem s \<and> sd_attached s
    else \<exists>n t. n \<le> 5 \<and> run (sd_exec threads) s (replicate n SdMain) = Some t \<and> sd_main t = SdExit \<and>
      \<not> sd_shm t \<and> \<not> sd_sem t \<and> \<not> sd_listening t"
proof -
  note inv = sd_reach_inv [OF assms]
  consider "sd_main s = SdFailed" | "sd_main s = SdLoop" "loop_flag s"
    | "sd_main s \<noteq> SdFailed" "sd_main s \<noteq> SdLoop \<or> \<not> loop_flag s" by blast
  then show ?thesis
  proof cases
    case 1
    have "\<exists>i ok. e = SdWork i ok \<or> e = SdInterrupt i" if "sd_exec threads s e \<noteq> None" for e
      using that 1 by (cases e) auto
    then show ?thesis using 1 inv by (auto simp: sd_inv_def)
  next
    case 2
    then show ?thesis using inv by (simp add: sd_inv_def)
  next
    case 3
    obtain t where "run (sd_exec threads) s (replicate (sd_steps_left (sd_main s)) SdMain) = Some t" "sd_main t = SdExit"
        "\<not> sd_shm t" "\<not> sd_sem t" "\<not> sd_listening t"
      using sd_main_ends [OF inv 3] by blast
    moreover have "sd_steps_left (sd_main s) \<le> 5" by (cases "sd_main s") (simp_all add: sd_steps_left_def)
    ultimately have "\<exists>n t. n \<le> 5 \<and> run (sd_exec threads) s (replicate n SdMain) = Some t \<and> sd_main t = SdExit \<and>
        \<not> sd_shm t \<and> \<not> sd_sem t \<and> \<not> sd_listening t"
      by blast
    then show ?thesis using 3 by auto
  qed
qed

theorem sd_cleans_up_witness:
  "\<exists>s n t u. run (sd_exec True) sd_start [SdConnect 0, SdWork 0 True, SdSigint] = Some s \<and> n \<le> 5 \<and>
    run (sd_exec True) s (replicate n SdMain) = Some t \<and> sd_main t = SdExit \<and>
    run (sd_exec False) sd_start [SdConnect 0, SdConnectFails] = Some u \<and> sd_shm u \<and> sd_sem u"
proof -
  obtain s where r: "run (sd_exec True) sd_start [SdConnect 0, SdWork 0 True, SdSigint] = Some s"
    and f: "\<not> loop_flag s" "sd_main s = SdLoop"
    by (simp add: sd_start_def sd_defs)
  obtain u where ru: "run (sd_exec False) sd_start [SdConnect 0, SdConnectFails] = Some u" and fu: "sd_main u = SdFailed"
    by (simp add: sd_start_def sd_defs)
  show ?thesis
    using sd_cleans_up [OF run_reach_init [OF r]] r f sd_cleans_up [OF run_reach_init [OF ru]] ru fu by auto
qed

text \<open>C31: The server does not wait for its handlers. Where each client has a process, the buffer that a handler uses is
  always attached, because \<^verbatim>\<open>fork\<close> copies what \<^verbatim>\<open>main\<close> has and \<^verbatim>\<open>main\<close> forks only while it has the buffer attached, and
  what \<^verbatim>\<open>main\<close> detaches later is its own; but a handler that waits when the semaphores are removed can only end
  without an answer.\<close>

theorem sd_children:
  assumes "reach (sd_exec False) sd_start s"
  shows "(\<forall>i. sd_worker s i \<in> {SdStarted, SdWaiting, SdInside} \<longrightarrow> sd_own s i) \<and> sd_detached_use s = [] \<and>
    (sd_main s \<in> {SdSemGone, SdExit} \<and> sd_worker s i = SdWaiting \<longrightarrow>
      (\<forall>ok. \<exists>t. sd_exec False s (SdWork i ok) = Some t \<and> sd_worker t i = SdEnded \<and> i \<in> set (sd_unanswered t)))"
  using sd_reach_inv [OF assms] by (auto simp: sd_inv_def sd_defs)

theorem sd_children_witness:
  "\<exists>s t. run (sd_exec False) sd_start [SdConnect 0, SdWork 0 True, SdSigint, SdMain, SdMain, SdMain, SdMain, SdMain] = Some s \<and>
    sd_exec False s (SdWork 0 True) = Some t \<and> 0 \<in> set (sd_unanswered t)"
proof -
  obtain s where r: "run (sd_exec False) sd_start [SdConnect 0, SdWork 0 True, SdSigint, SdMain, SdMain, SdMain, SdMain, SdMain] =
      Some s" and w: "sd_main s = SdExit" "sd_worker s 0 = SdWaiting"
    by (simp add: sd_start_def sd_defs)
  show ?thesis using sd_children [OF run_reach_init [OF r], of 0] r w by blast
qed

text \<open>Where each client has a thread, the signal can come while a thread is inside: \<^verbatim>\<open>main\<close> detaches the buffer under
  it, and the thread goes on to use it.\<close>

theorem sd_threads_detached:
  "\<exists>es s. run (sd_exec True) sd_start es = Some s \<and> sd_main s = SdDetached \<and> sd_detached_use s = [i]"
  by (intro exI [of _ "[SdConnect i, SdWork i True, SdWork i True, SdSigint, SdMain, SdMain, SdWork i True]"])
    (simp add: sd_start_def sd_defs)

end
