(* ===== verification/Fortune_Races.thy ===== *)
theory Fortune_Races
  imports Fortune
begin

section \<open>Readers and writers of the fortune file at the same time\<close>

text \<open>
  lab-module/task-03/fortune.c again, statement by statement. The page, its two indices and the buffer \<^verbatim>\<open>tmpBuf\<close> of
  the reads are global, and nothing keeps two calls from each other.
\<close>

subsection \<open>Steps\<close>

text \<open>
  A call of \<^verbatim>\<open>write\<close> with its bytes, or of \<^verbatim>\<open>read\<close> through a file that has just been opened. A writer has passed the
  test of the length, has copied, has raised the index; a reader has passed the test, has wrapped the index, has
  formatted the line, has copied it to the user.
\<close>

datatype fz_job = FzWrite "int list" | FzRead

datatype fz_pc = FzIdle | FwChecked | FwCopied | FwRaised | FrTested | FrWrapped | FrFormatted nat
  | FrCopied nat "int list" | FzDone "kernel_error + int list"

record fz_sys =
  fz_mem :: fortune
  fz_tmp :: "int list"
  fz_pc :: "nat \<Rightarrow> fz_pc"
  fz_outside :: bool

definition fz_start :: "fortune \<Rightarrow> fz_sys" where
  "fz_start m = \<lparr>fz_mem = m, fz_tmp = [], fz_pc = (\<lambda>_. FzIdle), fz_outside = False\<rparr>"

definition fz_goto :: "nat \<Rightarrow> fz_pc \<Rightarrow> fz_sys \<Rightarrow> fz_sys" where
  "fz_goto i p s = s\<lparr>fz_pc := (fz_pc s)(i := p)\<rparr>"

text \<open>The statements of \<^verbatim>\<open>fortuneWrite\<close>; \<open>ok\<close> is the answer of \<^verbatim>\<open>copy_from_user\<close>, which clears its target when it fails.\<close>

definition fw_check :: "nat \<Rightarrow> fortune \<Rightarrow> bool" where
  "fw_check len m \<longleftrightarrow> (word_of_nat len :: 64 word) > of_nat COOKIE_POT_SIZE - word_of_int (writeInd m) + 1"

definition fw_copy :: "int list \<Rightarrow> fortune \<Rightarrow> fortune option" where
  "fw_copy bs m =
     (if writeInd m < 0 \<or> (0 < length bs \<and> int COOKIE_POT_SIZE < writeInd m + int (length bs)) then None
      else let w = nat (writeInd m) in
        Some (m\<lparr>cookiePot := take w (cookiePot m) @ bs @ drop (w + length bs) (cookiePot m)\<rparr>))"

definition fw_end :: "fortune \<Rightarrow> fortune option" where
  "fw_end m =
     (if writeInd m - 1 < 0 \<or> int COOKIE_POT_SIZE \<le> writeInd m - 1 then None
      else Some (m\<lparr>cookiePot := (cookiePot m)[nat (writeInd m - 1) := 0]\<rparr>))"

fun fz_writer :: "int list \<Rightarrow> fz_sys \<Rightarrow> nat \<Rightarrow> bool \<Rightarrow> fz_sys option" where
  "fz_writer buf s i ok =
     (case fz_pc s i of
        FzIdle \<Rightarrow> Some (fz_goto i (if fw_check (length buf) (fz_mem s) then FzDone (Inl K_ENOSPC) else FwChecked) s)
      | FwChecked \<Rightarrow>
          let bs = (if ok then buf else replicate (length buf) 0);
              next_pc = (if ok \<or> buf = [] then FwCopied else FzDone (Inl K_EFAULT)) in
          Some (case fw_copy bs (fz_mem s) of
              None \<Rightarrow> fz_goto i next_pc (s\<lparr>fz_outside := True\<rparr>)
            | Some m \<Rightarrow> fz_goto i next_pc (s\<lparr>fz_mem := m\<rparr>))
      | FwCopied \<Rightarrow>
          Some (fz_goto i FwRaised (s\<lparr>fz_mem := (fz_mem s)\<lparr>writeInd := writeInd (fz_mem s) + int (length buf)\<rparr>\<rparr>))
      | FwRaised \<Rightarrow>
          Some (case fw_end (fz_mem s) of
              None \<Rightarrow> fz_goto i (FzDone (Inr buf)) (s\<lparr>fz_outside := True\<rparr>)
            | Some m \<Rightarrow> fz_goto i (FzDone (Inr buf)) (s\<lparr>fz_mem := m\<rparr>))
      | _ \<Rightarrow> None)"

text \<open>The statements of \<^verbatim>\<open>fortuneRead\<close>; \<open>ok\<close> is the answer of \<^verbatim>\<open>copy_to_user\<close>.\<close>

fun fz_reader :: "fz_sys \<Rightarrow> nat \<Rightarrow> bool \<Rightarrow> fz_sys option" where
  "fz_reader s i ok =
     (case fz_pc s i of
        FzIdle \<Rightarrow> Some (fz_goto i (if writeInd (fz_mem s) = 0 then FzDone (Inr []) else FrTested) s)
      | FrTested \<Rightarrow>
          Some (fz_goto i FrWrapped
            (if writeInd (fz_mem s) \<le> readInd (fz_mem s) then s\<lparr>fz_mem := (fz_mem s)\<lparr>readInd := 0\<rparr>\<rparr> else s))
      | FrWrapped \<Rightarrow>
          let r = readInd (fz_mem s) in
          if r < 0 \<or> int COOKIE_POT_SIZE \<le> r then Some (fz_goto i (FrFormatted 0) (s\<lparr>fz_outside := True\<rparr>))
          else
            let (tmp, n) = snprintf_line COOKIE_POT_SIZE (c_string_at (cookiePot (fz_mem s)) (nat r)) in
            Some (fz_goto i (FrFormatted n) (s\<lparr>fz_tmp := tmp\<rparr>))
      | FrFormatted n \<Rightarrow>
          Some (fz_goto i (if ok then FrCopied n (take n (fz_tmp s)) else FzDone (Inl K_EFAULT)) s)
      | FrCopied n got \<Rightarrow>
          Some (fz_goto i (FzDone (Inr got)) (s\<lparr>fz_mem := (fz_mem s)\<lparr>readInd := readInd (fz_mem s) + int n\<rparr>\<rparr>))
      | _ \<Rightarrow> None)"

definition fz_exec :: "(nat \<Rightarrow> fz_job) \<Rightarrow> fz_sys \<Rightarrow> nat \<times> bool \<Rightarrow> fz_sys option" where
  "fz_exec job s e = (case job (fst e) of FzWrite buf \<Rightarrow> fz_writer buf s (fst e) (snd e) | FzRead \<Rightarrow> fz_reader s (fst e) (snd e))"


subsection \<open>One call alone\<close>

fun fz_alone :: "(nat \<Rightarrow> fz_job) \<Rightarrow> nat \<Rightarrow> bool \<Rightarrow> nat \<Rightarrow> fz_sys \<Rightarrow> fz_sys" where
  "fz_alone job i ok 0 s = s"
| "fz_alone job i ok (Suc n) s = (case fz_exec job s (i, ok) of None \<Rightarrow> s | Some t \<Rightarrow> fz_alone job i ok n t)"

lemma fz_alone_done: "fz_pc s i = FzDone r \<Longrightarrow> fz_alone job i ok n s = s"
  by (cases n) (auto simp: fz_exec_def split: fz_job.splits)

lemma five: "(5 :: nat) = Suc (Suc (Suc (Suc (Suc 0))))"
  by simp

lemma fz_writer_alone:
  assumes "job i = FzWrite buf" and "fz_pc s i = FzIdle"
    and "fortuneWrite (if ok then length buf else 0) buf (fz_mem s) = Some (m, r)"
  shows "fz_alone job i ok 5 s = s\<lparr>fz_mem := m, fz_pc := (fz_pc s)(i := FzDone (map_sum id (\<lambda>_. buf) r))\<rparr>"
  using assms
  by (auto simp: five fz_exec_def fz_alone_done fz_goto_def fw_check_def fw_copy_def fw_end_def fortuneWrite_def Let_def
      split: if_splits)

lemma fz_reader_alone:
  assumes "job i = FzRead" and "fz_pc s i = FzIdle" and "fortuneRead ok len 0 (fz_mem s) = Some (m, p, r)"
  shows "\<exists>tmp. fz_alone job i ok 5 s = s\<lparr>fz_mem := m, fz_tmp := tmp, fz_pc := (fz_pc s)(i := FzDone r)\<rparr>"
  using assms
  by (cases s) (auto simp: five fz_exec_def fz_alone_done fz_goto_def fortuneRead_def Let_def split: if_splits prod.splits)


subsection \<open>Two calls together\<close>

lemma first_string:
  assumes "holds m (x # ms)"
  shows "c_string_at (cookiePot m) 0 = butlast x"
proof -
  let ?w = "length (stored (x # ms))"
  have x: "0 \<notin> set (butlast x)" and tk: "take ?w (cookiePot m) = stored (x # ms)"
    using assms by (simp_all add: holds_def message_ok_def)
  have "cookiePot m = butlast x @ 0 # stored ms @ drop ?w (cookiePot m)"
    using append_take_drop_id [of ?w "cookiePot m"] unfolding tk by simp
  moreover have "takeWhile (\<lambda>c. c \<noteq> 0) (butlast x @ 0 # r) = butlast x" for r
    using x by (subst takeWhile_append2) auto
  ultimately show ?thesis unfolding c_string_at_def drop0 by metis
qed

lemma fits_check: "int len \<le> 4096 \<Longrightarrow> \<not> fw_check len fortune_start"
  using write_check [of 0 len] by (simp add: fw_check_def fortune_start_def)

text \<open>What two writes that both start at the first byte of an empty page leave behind.\<close>

definition overwritten :: "int list \<Rightarrow> int list \<Rightarrow> fortune" where
  "overwritten a b =
     \<lparr>cookiePot = butlast b @ 0 # replicate (4096 - length b) 0, readInd = 0, writeInd = int (length a + length b)\<rparr>"

lemma snprintf_short: "length y < 4095 \<Longrightarrow> snprintf_line 4096 y = (y @ [10, 0], Suc (length y))"
  by (simp add: snprintf_line_def)

lemma copy_at_start:
  "length b \<le> 4096 \<Longrightarrow> fw_copy b \<lparr>cookiePot = P, readInd = 0, writeInd = 0\<rparr> =
     Some \<lparr>cookiePot = b @ drop (length b) P, readInd = 0, writeInd = 0\<rparr>"
  by (simp add: fw_copy_def COOKIE_POT_SIZE_def)

lemma end_writes:
  assumes "0 < n" and "n \<le> 4096"
  shows "fw_end \<lparr>cookiePot = P, readInd = 0, writeInd = int n\<rparr> = Some \<lparr>cookiePot = P[n - 1 := 0], readInd = 0, writeInd = int n\<rparr>"
proof -
  have "nat (int n - 1) = n - 1" using assms by simp
  then show ?thesis using assms by (simp add: fw_end_def COOKIE_POT_SIZE_def)
qed


subsection \<open>Properties\<close>

text \<open>A call that no other disturbs reaches its end in five statements with the memory and the result of the
  function of Fortune, whatever it is: written, refused, failed to copy, or read.\<close>

theorem fz_sequential:
  "(job i = FzWrite buf \<and> fz_pc s i = FzIdle \<and> fortuneWrite (if ok then length buf else 0) buf (fz_mem s) = Some (m, r) \<longrightarrow>
      fz_alone job i ok 5 s = s\<lparr>fz_mem := m, fz_pc := (fz_pc s)(i := FzDone (map_sum id (\<lambda>_. buf) r))\<rparr>) \<and>
   (job i = FzRead \<and> fz_pc s i = FzIdle \<and> fortuneRead ok len 0 (fz_mem s) = Some (m, p, r') \<longrightarrow>
      (\<exists>tmp. fz_alone job i ok 5 s = s\<lparr>fz_mem := m, fz_tmp := tmp, fz_pc := (fz_pc s)(i := FzDone r')\<rparr>))"
  using fz_writer_alone [of job i buf s ok m r] fz_reader_alone [of job i s ok len m p r'] by blast

text \<open>A message that fits an empty page, and the read of it.\<close>

theorem fz_sequential_witness:
  "\<exists>t. fortuneRead True 10 0 (fz_mem (fz_alone (\<lambda>_. FzWrite [72, 105]) 0 True 5 (fz_start fortune_start))) =
    Some (t, 2, Inr [72, 10])"
proof -
  obtain m where w: "fortuneWrite 2 [72, 105] fortune_start = Some (m, Inr 2)" and h: "holds m [[72, 105]]" "readInd m = 0"
    using holds_write [OF holds_start, of "[72, 105]" 2] by (auto simp: message_ok_def fortune_start_def)
  have "fz_alone (\<lambda>_. FzWrite [72, 105]) 0 True 5 (fz_start fortune_start) =
      (fz_start fortune_start)\<lparr>fz_mem := m, fz_pc := (fz_pc (fz_start fortune_start))(0 := FzDone (map_sum id (\<lambda>_. [72, 105]) (Inr 2)))\<rparr>"
    using fz_sequential [of "\<lambda>_. FzWrite [72, 105]" 0 "[72, 105]" "fz_start fortune_start" True m "Inr 2"] w
    by (simp add: fz_start_def numeral_2_eq_2)
  then have "fz_mem (fz_alone (\<lambda>_. FzWrite [72, 105]) 0 True 5 (fz_start fortune_start)) = m" by simp
  then show ?thesis using holds_read [of m "[]" "[72, 105]" "[]" 10] h by simp
qed

text \<open>Two readers of a page with two messages can both get the first; the second is then skipped: the index has
  moved on by twice the length of the first.\<close>

theorem fz_same_message:
  assumes "holds m (x # ms)" and "readInd m = 0" and "length x < 4096"
  shows "\<exists>es s. run (fz_exec (\<lambda>_. FzRead)) (fz_start m) es = Some s \<and>
    fz_pc s 0 = FzDone (Inr (butlast x @ [10])) \<and> fz_pc s 1 = FzDone (Inr (butlast x @ [10])) \<and>
    fz_mem s = m\<lparr>readInd := 2 * int (length x)\<rparr>"
proof -
  have w: "writeInd m \<noteq> 0" "\<not> writeInd m \<le> 0" using assms(1) by (auto simp: holds_def message_ok_def)
  obtain y z where x: "x = y @ [z]" using assms(1) by (cases x rule: rev_cases) (auto simp: holds_def message_ok_def)
  have str: "c_string_at (cookiePot m) 0 = y" using first_string [OF assms(1)] by (simp add: x)
  have line: "snprintf_line 4096 y = (y @ [10, 0], Suc (length y))" using assms(3) by (simp add: x snprintf_short)
  show ?thesis
    by (intro exI [of _ "map (\<lambda>i. (i, True)) [0, 1, 0, 1, 0, 1, 0, 1, 0, 1]"])
      (simp add: fz_exec_def fz_start_def fz_goto_def w assms(2) str COOKIE_POT_SIZE_def x line)
qed

theorem fz_same_message_witness:
  "\<exists>m es s. holds m [[97, 0], [98, 0]] \<and> run (fz_exec (\<lambda>_. FzRead)) (fz_start m) es = Some s \<and>
    fz_pc s 0 = FzDone (Inr [97, 10]) \<and> fz_pc s 1 = FzDone (Inr [97, 10]) \<and> fz_mem s = m\<lparr>readInd := 4\<rparr>"
proof -
  let ?m = "\<lparr>cookiePot = stored [[97, 0], [98, 0]] @ replicate 4092 0, readInd = 0, writeInd = 4\<rparr>"
  have "holds ?m [[97, 0], [98, 0]]" by (simp add: holds_def message_ok_def)
  then show ?thesis using fz_same_message [of ?m "[97, 0]" "[[98, 0]]"] by fastforce
qed

text \<open>Two writers of messages of one length can both succeed while the first message is gone: the second has
  been copied over it, and the index counts both.\<close>

theorem fz_lost_message:
  assumes "message_ok a" and "message_ok b" and "length a = length b" and "2 * length b \<le> 4096"
  shows "\<exists>es s. run (fz_exec (\<lambda>i. FzWrite (if i = 0 then a else b))) (fz_start fortune_start) es = Some s \<and>
    fz_pc s 0 = FzDone (Inr a) \<and> fz_pc s 1 = FzDone (Inr b) \<and> fz_mem s = overwritten a b"
proof -
  define n where "n = length b"
  define P where "P = replicate 4096 (0 :: int)"
  have P: "fortune_start = \<lparr>cookiePot = P, readInd = 0, writeInd = 0\<rparr>" "length P = 4096"
      "\<And>n. drop n P = replicate (4096 - n) 0"
    by (simp_all add: P_def fortune_start_def COOKIE_POT_SIZE_def)
  have n: "0 < n" "2 * n \<le> 4096" "length a = n" "length b = n" "n \<le> 4096"
    using assms by (simp_all add: n_def message_ok_def)
  have ok: "\<not> fw_check n \<lparr>cookiePot = P, readInd = 0, writeInd = 0\<rparr>" using fits_check [of n] n(5) by (simp add: P(1))
  have a: "fw_copy a \<lparr>cookiePot = P, readInd = 0, writeInd = 0\<rparr> = Some \<lparr>cookiePot = a @ drop n P, readInd = 0, writeInd = 0\<rparr>"
    using copy_at_start [of a P] n by simp
  have b: "fw_copy b \<lparr>cookiePot = a @ drop n P, readInd = 0, writeInd = 0\<rparr> = Some \<lparr>cookiePot = b @ drop n P, readInd = 0, writeInd = 0\<rparr>"
    using copy_at_start [of b "a @ drop n P"] n by simp
  obtain c z where c: "b = c @ [z]" using n(1,4) by (cases b rule: rev_cases) auto
  have c1: "(b @ drop n P)[n - 1 := 0] = butlast b @ 0 # drop n P" using n(4) by (auto simp: c list_update_append)
  have c2: "(butlast b @ 0 # drop n P)[2 * n - 1 := 0] = butlast b @ 0 # drop n P"
  proof -
    have "(butlast b @ 0 # drop n P) ! (2 * n - 1) = 0"
      using n by (auto simp: c nth_append nth_Cons P(3) split: nat.splits)
    then show ?thesis by (metis list_update_id)
  qed
  have e1: "fw_end \<lparr>cookiePot = b @ drop n P, readInd = 0, writeInd = int n\<rparr> =
      Some \<lparr>cookiePot = butlast b @ 0 # drop n P, readInd = 0, writeInd = int n\<rparr>"
    using end_writes [OF n(1,5), of "b @ drop n P"] unfolding c1 .
  have e2: "fw_end \<lparr>cookiePot = butlast b @ 0 # drop n P, readInd = 0, writeInd = 2 * int n\<rparr> =
      Some \<lparr>cookiePot = butlast b @ 0 # drop n P, readInd = 0, writeInd = 2 * int n\<rparr>"
  proof -
    have "0 < 2 * n" using n(1) by simp
    moreover have "int (2 * n) = 2 * int n" by simp
    ultimately show ?thesis using end_writes [OF _ n(2), of "butlast b @ 0 # drop n P"] unfolding c2 by metis
  qed
  show ?thesis
    by (intro exI [of _ "map (\<lambda>i. (i, True)) [0, 1, 0, 1, 0, 0, 1, 1]"])
      (simp add: fz_exec_def fz_start_def fz_goto_def P(1) ok a [unfolded P(3)] b [unfolded P(3)] e1 [unfolded P(3)] e2 [unfolded P(3)]
        n(3,4) overwritten_def P(3))
qed

theorem fz_lost_message_witness:
  "\<exists>es s. run (fz_exec (\<lambda>i. FzWrite (if i = 0 then [97, 10] else [98, 10]))) (fz_start fortune_start) es = Some s \<and>
    fz_mem s = overwritten [97, 10] [98, 10]"
proof -
  have "message_ok [97, 10]" "message_ok [98, 10]" by (simp_all add: message_ok_def)
  moreover have "length [97, 10 :: int] = length [98, 10 :: int]" "2 * length [98, 10 :: int] \<le> 4096" by simp_all
  ultimately show ?thesis using fz_lost_message by blast
qed

text \<open>Two writers whose messages do not fit the page together can both pass the test, and the second is copied
  past its end.\<close>

theorem fz_overflow:
  assumes "length a \<le> 4096" and "length b \<le> 4096" and "4096 < length a + length b"
  shows "\<exists>es s. run (fz_exec (\<lambda>i. FzWrite (if i = 0 then a else b))) (fz_start fortune_start) es = Some s \<and> fz_outside s"
proof -
  define P where "P = replicate 4096 (0 :: int)"
  have P: "fortune_start = \<lparr>cookiePot = P, readInd = 0, writeInd = 0\<rparr>" "length P = 4096"
      "\<And>n. drop n P = replicate (4096 - n) 0"
    by (simp_all add: P_def fortune_start_def COOKIE_POT_SIZE_def)
  have ok: "\<not> fw_check (length a) \<lparr>cookiePot = P, readInd = 0, writeInd = 0\<rparr>"
      "\<not> fw_check (length b) \<lparr>cookiePot = P, readInd = 0, writeInd = 0\<rparr>"
    using fits_check [of "length a"] fits_check [of "length b"] assms by (simp_all add: P(1))
  have b: "fw_copy b \<lparr>cookiePot = Q, readInd = 0, writeInd = int (length a)\<rparr> = None" for Q
    using assms by (auto simp: fw_copy_def COOKIE_POT_SIZE_def)
  show ?thesis
    by (intro exI [of _ "map (\<lambda>i. (i, True)) [0, 1, 0, 0, 1]"])
      (simp add: fz_exec_def fz_start_def fz_goto_def P(1) ok copy_at_start [OF assms(1)] b)
qed

theorem fz_overflow_witness:
  "\<exists>es s. run (fz_exec (\<lambda>i. FzWrite (if i = 0 then replicate 4000 97 else replicate 97 98))) (fz_start fortune_start) es = Some s \<and>
    fz_outside s"
proof -
  have "length (replicate 4000 (97 :: int)) \<le> 4096" "length (replicate 97 (98 :: int)) \<le> 4096"
    "4096 < length (replicate 4000 (97 :: int)) + length (replicate 97 (98 :: int))" by simp_all
  then show ?thesis by (rule fz_overflow)
qed

end
