(* ===== verification/Spec2Isabelle.thy ===== *)
theory Spec2Isabelle
  imports Shm_Prodcons Shm_Readwrite Rpc_Prodcons Bakery Calculators
    Sock_Server Sock_Select Letter_Rounds Letter_Handlers Fortune Seq_Pids Proc_Sessions Vfs Keylogger Ftw Pagemap
    Win_Readwrite Stdio_Streams Proc_Info Rpc_Transport Rpc_Clients Rpc_Threads Daemon Processes Sock_Exercises
    Program_Mains Ftw_Output Tool_Pagemap Module_Exercises Two_Printers Vfs_Mount
    Server_Shutdown Fortune_Races
begin

text \<open>
  \<^bold>\<open>The programs.\<close> The repository holds the C programs of an operating-systems course. They do not
  link with each other, but the same few mechanisms come back in them: a bounded buffer or a
  readers/writers lock built from a System V semaphore set, in shared memory
  (src/semester-01/lab/lab-shmemory/semaphore), behind an RPC service (lab-rpc) and behind sockets
  (src/semester-02/lab/lab-socket); loadable kernel modules (lab-module, lab-irq, lab-vfs); and two
  file system tools (lab-fileSystem). The theories follow that division. Concurrency is a step function
  \<^verbatim>\<open>exec :: state => event => state option\<close>: an event names the process and the
  statement, \<^term>\<open>None\<close> means that the step cannot happen, and a property of all interleavings is
  one of all states in \<^verbatim>\<open>reach exec init\<close> (Prelude). Everything is executable.

  \<^bold>\<open>Shared theories.\<close>
  Prelude: C remainder, \<^verbatim>\<open>signed char\<close> and \<^verbatim>\<open>int\<close> ranges, runs and reachable states, the locales
  \<^verbatim>\<open>invariant_system\<close> (an invariant holds in every reachable state) and \<^verbatim>\<open>simulation\<close> (every
  reachable state maps to one of an abstract system), lists, fork and wait loops.
  Sysv_Sem: the meaning of \<^verbatim>\<open>semop\<close> on a list of values, all or nothing, with EAGAIN, EFBIG, ERANGE, and
  the SETVAL call; the account of what a \<^verbatim>\<open>main\<close> leaves behind.
  Fifo_Spec: the bounded queue as a transition system and as the locale \<^verbatim>\<open>bounded_buffer\<close>.
  Rw_Lock: the four tables of a readers/writers lock, its clients as program counters, and the
  locales \<^verbatim>\<open>rw_counters\<close> (the semaphores count the readers and writers inside), \<^verbatim>\<open>rw_excl\<close> (no
  reader beside a writer) and \<^verbatim>\<open>ww_excl\<close> (no two writers).
  Kernel_Base: error codes, the entries under /proc, and the locale \<^verbatim>\<open>seq_iterator\<close>.

  \<^bold>\<open>Semester 1.\<close>
  Shm_Prodcons models lab-shmemory/semaphore/pc.c: the shared area of 1024 bytes with both cursors
  (\<^verbatim>\<open>pc_area\<close>), any number of producers and consumers at the statements of their loops
  (\<^verbatim>\<open>pc_phase\<close>, \<^verbatim>\<open>pc_exec\<close>), signals and \<^verbatim>\<open>main\<close>. It shows mutual exclusion, refinement of the
  queue of capacity 26, absence of deadlock, and that the cursors, which never wrap, run out of the area.
  Shm_Readwrite models wr.c next to it. Its \<^verbatim>\<open>semop\<close> of three entries reads one behind \<^verbatim>\<open>writer_release\<close>; what
  lies there is an argument that can depend on the writer's \<^verbatim>\<open>flag\<close>, and \<^verbatim>\<open>wr_flag_entry\<close> is the layout in which it is
  \<^verbatim>\<open>flag\<close> itself. As long as that entry does nothing: exclusion among writers, the letters written, and readers that can enter
  only beside a writer. In the layout with \<^verbatim>\<open>flag\<close>: the deadlock of a reader and a writer that are inside together,
  which SIGINT ends, because it clears \<^verbatim>\<open>flag\<close>.
  Rpc_Prodcons models lab-rpc/prodcons: the service routine, its threads and the polling client.
  The ring of 26 cells satisfies \<^verbatim>\<open>bounded_buffer\<close>; the run of all threads is linearizable; the
  semaphore that starts at 29 instead of 26 lets three letters be overwritten.
  Bakery models lab-rpc/bakery: tickets, the choice of the smallest, and the client's loop.
  Calculators models lab-rpc/calculator and lab-socket/task-03 over an abstract type of numbers.
  Win_Readwrite models lab-shmemory/mutex/main.c, the monitor over two events and a mutex of Windows:
  its counters are the numbers of threads at its statements, but it excludes neither two writers nor a reader
  beside a writer, and it can hang.
  Rpc_Transport models what rpcgen wrote for the three services (the encodings of the requests, the client
  stubs, the dispatchers, the start of the servers) over a record of encodings of single numbers, with
  \<^verbatim>\<open>xdr32\<close> as an instance that computes, and a network that loses requests and answers. Round trips of the
  encodings, a remote call that is the local procedure, the error answers, and what a lost answer and a
  request that is sent again do to the bakery.
  Rpc_Clients puts the bakery's client program on top of it: ten processes call by call and their parent, which
  always come to their end; Rpc_Threads the threads of the prodcons client, which share the static answer of
  their stub: two of them can report the same letter, and one that is not disturbed reports its own.
  Daemon models lab-processes/daemon: detaching, the lock file as a transition system of any number of
  daemons, and the thread for the signals. At most one daemon is past the lock.
  Processes models lab-processes/part-02 and its pipes as inductive step relations: the parent that
  reads after each fork, and the one that reads to the end, which always comes to its end and prints every
  message whole; the two programs that the children execute. Two_Printers models lab-processes/iu7-54b, two
  processes that print for ever through the buffers of the library: nothing is lost, but numbers can be torn.

  \<^bold>\<open>Semester 2.\<close>
  Sock_Letters holds what the letter servers of lab-socket/task-04 (processes), task-05 (threads) and
  task-06 (select) and their clients share. Sock_Server models the first two as clients of
  Rw_Lock: readers exclude writers, but the tables do not exclude a second writer, so that a letter can
  be handed out twice, and a writer that ends without its release keeps every reader out for ever.
  Server_Shutdown follows both servers to their end: after the signal or a failed \<^verbatim>\<open>accept\<close> they always get there and
  remove what they hold, a failed \<^verbatim>\<open>setsockopt\<close> or \<^verbatim>\<open>fork\<close> of task-04 ends the server with its objects left, and neither
  waits for its handlers.
  Sock_Select models task-06: a letter is handed out at most once, rounds are served in order, and a
  pass of the main loop serves and closes every descriptor, ready or not.
  Letter_Clients models the three client programs as interleaved steps over globals that the threads share and
  the processes do not, and composes them with the sequential server; Letter_Rounds puts runs together and
  models the \<^verbatim>\<open>main\<close> functions. No letter is received twice in any run; a turn that no other
  client of the process disturbs does what the functional round says, whichever call fails; with the shared index a letter can miss its line in the log. Letter_Handlers composes the
  clients with the concurrent servers: the whole refines the handlers, two clients can receive the same letter,
  and a writer that ends without its release stops all clients for ever.
  Fortune models lab-module/task-03/fortune.c, Seq_Pids both variants of lab-module/task-04, Vfs
  lab-vfs/src/main.c, Keylogger both handlers of lab-irq: data paths, bounds, and what is held after
  a load that failed and after unloading.
  Fortune_Races takes fortune.c apart into statements of readers and writers: alone they are its functions, together
  they lose messages and leave the page.
  Proc_Sessions takes task-04 apart: the statements of writers that nothing keeps from each other, and the calls
  that one open file makes, with writes in between. A session shows each id once and in order as long as writes do
  not overlap; overlapping writers lose ids and leave the array, by no more than their number, while a full array is left
  alone and writers that pass the test one at a time stay inside it. An open file of the other module is a snapshot.
  Vfs_Mount goes on from Vfs with mounting and unmounting: what is mounted, killed and dropped balances. A failed
  \<^verbatim>\<open>d_make_root\<close> drops the inode once, the caller then drops it again, and the run of the model ends there. That a module
  with a mounted file system is not unloaded is the kernel's rule and part of the step for unloading.
  Module_Exercises models lab-module/task-01, which prints the ring of tasks, and task-02, where modules use what
  another exports.
  Ftw models lab-fileSystem/task-ftw, the walk with an explicit stack and its error messages, and Ftw_Output what it prints
  on standard output and standard error: the lines of the first can be read back to the tree as far as it could be entered, and the
  second is empty exactly if nothing was barred. The shares of the table are rounded as the code does it, in \<^verbatim>\<open>double\<close>, \<^verbatim>\<open>float\<close>
  and two decimals: each is within 0.0051 of the exact one, and their sum within 0.03 of 100. Pagemap models
  lab-fileSystem/task-proc/pagemap.c on 64-bit words.
  Proc_Info models lab-fileSystem/task-proc/proc\_info.c, the report on a process, section by section
  over the contents of its files under /proc; it agrees with Pagemap on the columns of a page, and Tool_Pagemap
  shows that the command it writes makes Pagemap print the right entry, below \<^verbatim>\<open>2^63\<close>.
  Stdio_Streams models lab-bio: streams with a buffer over descriptors that share, or do not share, an open
  file, read in turn or by two threads, and the order of two \<^verbatim>\<open>fclose\<close> calls.
  Sock_Exercises models lab-socket/task-01, task-02 and task-07.
  Program_Mains holds the set-up, the error exits and the clean-up of the smaller programs of both semesters, as
  lists of guarded calls under one interpreter, and their loops over \<^verbatim>\<open>fork\<close> and \<^verbatim>\<open>wait\<close>.

  \<^bold>\<open>Bounds and fuel.\<close> The loops of processes and servers are events, so that nothing bounds
  their number. The walk of Ftw has a bound on its turns, and \<^verbatim>\<open>ftw_walks\<close> shows that one more than the
  number of visited nodes and entered directories is enough. The second parent of Processes makes at most a
  hundred steps (\<^verbatim>\<open>t5_ends\<close>), the clients of the bakery at most 351 besides unanswered transmissions
  (\<^verbatim>\<open>bc_ends\<close>), and the loop of Proc_Info over the pages of a region is a partial
  function, with its result shown for whole pages and its divergence at the top of the address space.
  The other recursions terminate by themselves. Processes are numbered by \<^typ>\<open>nat\<close>: what holds for any number holds for the number the
  sources start. A \<^verbatim>\<open>char\<close> is signed with 8 bits, an \<^verbatim>\<open>int\<close> has 32, a \<^verbatim>\<open>long\<close> 64.

  \<^bold>\<open>Outside the model.\<close> Answers of the kernel and of libraries (allocation, \<^verbatim>\<open>fork\<close>, \<^verbatim>\<open>recv\<close>,
  \<^verbatim>\<open>copy_from_user\<close>, number parsing, process data, the arithmetic of the calculators and the bakery) are arguments of the
  definitions. An access outside the shared memory of pc.c is undefined in C; the model takes it to be a fault that ends
  the process, as it is when nothing is mapped next to the segment. Not modelled are output for people, time stamps, the
  addresses of sockets outside task-02, and the descriptions of columns in task-proc/const.h that nothing prints.
  lab-module/task-01 does not compile (\<^verbatim>\<open>task =  = &init_task\<close>) and is modelled from its loop on, with
  the first task as an argument.
\<close>

section \<open>Properties that span components\<close>

lemma letter_schar: "k < 26 \<Longrightarrow> to_schar (97 + int k) = letter k"
  by (simp add: to_schar_def letter_def)

lemma pc_letters_reached:
  "reach pc_exec pc_init s \<Longrightarrow> pc_produced s = map letter [0..<length (pc_produced s)] \<and>
     pc_consumed s = map letter [0..<length (pc_consumed s)]"
  using pc.reach_inv by (simp add: pc_inv_def pc_mem_inv_def)

lemma rp_letters_reached:
  assumes "reach rp_exec rp_init s"
  shows "rp_ins s = map (\<lambda>k. to_schar (97 + int k)) [0..<length (rp_ins s)]"
proof -
  have "rp_buf0 ! 2 = to_schar (97 + int 0)" by (simp add: rp_buf0_def BUFFER_SIZE_def to_schar_def)
  from rp_letters_run [OF rp_run_of [OF assms] rp_buf0_ok this] show ?thesis by simp
qed

text \<open>C40: The producers and consumers over shared memory and those over RPC do the same: as long as no more than
  one alphabet has been written and no more than 26 letters were pending, equally many writes and
  reads have stored the same letters and delivered the same letters, whatever the interleavings.\<close>

theorem shm_rpc_agree:
  assumes "reach pc_exec pc_init s" and "reach rp_exec rp_init t" and "buffer_guards 26 (rp_ops t) 0"
    and "length (pc_produced s) = length (rp_ins t)" and "length (pc_consumed s) = length (rp_outs t)"
    and "length (pc_produced s) \<le> 26"
  shows "pc_produced s = rp_ins t \<and> pc_consumed s = rp_outs t"
proof -
  have ins: "rp_ins t = map letter [0..<length (rp_ins t)]"
    using rp_letters_reached [OF assms(2)] assms(4,6) by (auto simp: letter_schar intro: trans [OF _ map_cong])
  then have p: "pc_produced s = rp_ins t"
    using pc_letters_reached [OF assms(1)] assms(4) by simp
  obtain rest where r: "rp_ins t = rp_outs t @ rest"
    using rp_fifo_run [OF rp_run_of [OF assms(2)] assms(3)] by blast
  then have "rp_outs t = take (length (rp_outs t)) (rp_ins t)" by simp
  also have "\<dots> = take (length (rp_outs t)) (map letter [0..<length (rp_ins t)])" using ins by simp
  also have "\<dots> = map letter [0..<length (rp_outs t)]" using r by (simp add: take_map)
  also have "\<dots> = pc_consumed s" using pc_letters_reached [OF assms(1)] assms(5) by simp
  finally show ?thesis using p by simp
qed

lemma rp_pairs_reached:
  assumes "reach rp_exec rp_init t" and "rp_ops t = [True, True, False, False]"
  shows "length (rp_ins t) = 2 \<and> length (rp_outs t) = 2"
  using rp_run_of [OF assms(1)] assms(2) by (auto simp: Let_def split: prod.splits dest!: sym [of "_ # _"])

theorem shm_rpc_agree_witness:
  "\<exists>s t. reach pc_exec pc_init s \<and> reach rp_exec rp_init t \<and> rp_outs t = [97, 98] \<and>
     pc_produced s = rp_ins t \<and> pc_consumed s = rp_outs t"
proof -
  obtain s where s: "reach pc_exec pc_init s" "pc_quiet s 2"
    using pc_quiet_reachable [of 2] by (auto simp: pc_layout)
  obtain t where t: "reach rp_exec rp_init t" "rp_ops t = [True, True, False, False]"
    using rp_reachable_ops [of "[True, True, False, False]"] by (auto simp: MAX_CNT_CLNT_def)
  have g: "buffer_guards 26 (rp_ops t) 0" by (simp add: t(2))
  have l: "length (pc_produced s) = 2" "length (pc_consumed s) = 2" using s(2) by (simp_all add: pc_quiet_def)
  have eq: "pc_produced s = rp_ins t \<and> pc_consumed s = rp_outs t"
    using shm_rpc_agree [OF s(1) t(1) g] rp_pairs_reached [OF t] l by simp
  have "pc_consumed s = map letter [0..<2]" using pc_letters_reached [OF s(1)] l by simp
  then have "pc_consumed s = [97, 98]" by (simp add: letter_def upt_rec)
  with s(1) t(1) eq show ?thesis by auto
qed

end
